(* ===== verification/Mbx_Prelude.thy ===== *)
theory Mbx_Prelude
  imports Main "HOL-Library.Word" "HOL-Library.Sublist" "HOL-Library.Char_ord"
    "HOL-Library.List_Lexorder" "HOL-Library.Product_Lexorder" "HOL-Library.Option_ord"
begin

text \<open>
  What every component of the development shares: Rust's unsigned 64-bit arithmetic
  (saturating and checked operations on \<^typ>\<open>nat\<close> with the bound written out), the
  collections of simplification rules, and the generic facts on lists and options that the
  component proofs use.
\<close>

unbundle bit_operations_syntax

named_theorems u64_defs \<open>the definitions of Rust's integer operations\<close>

section \<open>Unsigned 64-bit arithmetic\<close>

text \<open>
  A \<open>u64\<close> (and \<open>usize\<close>, which is 64 bits wide on the supported targets) is a natural
  number of at most \<open>u64_max\<close>. Every operation that can leave that range is written
  with the behaviour the source asks for: \<open>saturating_add\<close>, \<open>checked_add\<close> and so on.
\<close>

type_synonym u64 = nat

definition u64_max :: u64 where
  "u64_max = 2 ^ 64 - 1"

definition saturating_add :: "u64 \<Rightarrow> u64 \<Rightarrow> u64" where
  [u64_defs]: "saturating_add a b = min (a + b) u64_max"

definition saturating_sub :: "u64 \<Rightarrow> u64 \<Rightarrow> u64" where
  [u64_defs]: "saturating_sub a b = (if b \<le> a then a - b else 0)"

definition saturating_mul :: "u64 \<Rightarrow> u64 \<Rightarrow> u64" where
  [u64_defs]: "saturating_mul a b = min (a * b) u64_max"

definition checked_add :: "u64 \<Rightarrow> u64 \<Rightarrow> u64 option" where
  [u64_defs]: "checked_add a b = (if a + b \<le> u64_max then Some (a + b) else None)"

definition checked_sub :: "u64 \<Rightarrow> u64 \<Rightarrow> u64 option" where
  [u64_defs]: "checked_sub a b = (if b \<le> a then Some (a - b) else None)"

definition checked_mul :: "u64 \<Rightarrow> u64 \<Rightarrow> u64 option" where
  [u64_defs]: "checked_mul a b = (if a * b \<le> u64_max then Some (a * b) else None)"

text \<open>\<open>u64::div_ceil\<close>; the divisor is never zero where the source calls it.\<close>

definition div_ceil :: "u64 \<Rightarrow> u64 \<Rightarrow> u64" where
  "div_ceil a b = a div b + (if a mod b = 0 then 0 else 1)"

lemma saturating_add_le [simp]: "saturating_add a b \<le> u64_max"
  by (simp add: saturating_add_def)

lemma saturating_mul_le [simp]: "saturating_mul a b \<le> u64_max"
  by (simp add: saturating_mul_def)

lemma saturating_sub_eq [simp]: "saturating_sub a b = a - b"
  by (simp add: saturating_sub_def)

lemma checked_add_eq_Some: "checked_add a b = Some c \<longleftrightarrow> c = a + b \<and> a + b \<le> u64_max"
  by (auto simp: checked_add_def)

lemma checked_sub_eq_Some: "checked_sub a b = Some c \<longleftrightarrow> c = a - b \<and> b \<le> a"
  by (auto simp: checked_sub_def)

lemma checked_mul_eq_Some: "checked_mul a b = Some c \<longleftrightarrow> c = a * b \<and> a * b \<le> u64_max"
  by (auto simp: checked_mul_def)

lemmas checked_eq_Some = checked_add_eq_Some checked_sub_eq_Some checked_mul_eq_Some

lemma div_ceil_1 [simp]: "div_ceil a 1 = a" "div_ceil a (Suc 0) = a"
  by (simp_all add: div_ceil_def)

lemma div_ceil_0 [simp]: "div_ceil 0 b = 0"
  by (simp add: div_ceil_def)

lemma le_div_ceil_mult: "0 < b \<Longrightarrow> a \<le> div_ceil a b * b"
proof (cases "a mod b = 0")
  case True
  then show ?thesis by (simp add: div_ceil_def mod_eq_0_iff_dvd)
next
  case False
  assume "0 < b"
  then have "a mod b < b" by simp
  moreover have "a = a div b * b + a mod b" by simp
  moreover have "div_ceil a b = a div b + 1" using False by (simp add: div_ceil_def)
  ultimately show ?thesis by (metis add_le_cancel_left less_imp_le distrib_right mult_1)
qed

lemma div_ceil_mult_le: "0 < b \<Longrightarrow> div_ceil a b * b \<le> a + (b - 1)"
proof (cases "a mod b = 0")
  case True
  then show ?thesis by (simp add: div_ceil_def mod_eq_0_iff_dvd)
next
  case False
  assume "0 < b"
  have "a = a div b * b + a mod b" by simp
  with False have "a div b * b + 1 \<le> a" by linarith
  with False \<open>0 < b\<close> show ?thesis by (simp add: div_ceil_def)
qed

lemma div_ceil_le_iff: "0 < b \<Longrightarrow> div_ceil a b \<le> n \<longleftrightarrow> a \<le> n * b"
proof
  assume "0 < b" "div_ceil a b \<le> n"
  then have "a \<le> div_ceil a b * b" "div_ceil a b * b \<le> n * b"
    using le_div_ceil_mult by simp_all
  then show "a \<le> n * b" by linarith
next
  assume "0 < b" "a \<le> n * b"
  then have "div_ceil a b * b \<le> n * b + (b - 1)"
    using div_ceil_mult_le [of b a] by linarith
  also have "\<dots> < (n + 1) * b" using \<open>0 < b\<close> by simp
  finally have "div_ceil a b < n + 1" by (simp only: mult_less_cancel2)
  then show "div_ceil a b \<le> n" by simp
qed

lemma div_ceil_mono: "0 < b \<Longrightarrow> a \<le> a' \<Longrightarrow> div_ceil a b \<le> div_ceil a' b"
  using div_ceil_le_iff [of b a "div_ceil a' b"] le_div_ceil_mult [of b a'] by linarith

lemma div_ceil_add_le: "0 < b \<Longrightarrow> div_ceil (x + y) b \<le> div_ceil x b + div_ceil y b"
  using le_div_ceil_mult [of b x] le_div_ceil_mult [of b y]
  by (simp add: div_ceil_le_iff distrib_right)

lemma sum_list_div_ceil:
  "0 < b \<Longrightarrow> div_ceil (sum_list xs) b \<le> sum_list (map (\<lambda>x. div_ceil x b) xs)"
proof (induction xs)
  case Nil
  then show ?case by simp
next
  case (Cons x xs)
  then show ?case using div_ceil_add_le [of b x "sum_list xs"] by simp
qed

lemma sum_list_div_ceil_mult:
  "0 < b \<Longrightarrow> sum_list (map (\<lambda>x. div_ceil x b) xs) * b \<le> sum_list xs + length xs * (b - 1)"
proof (induction xs)
  case Nil
  then show ?case by simp
next
  case (Cons x xs)
  then show ?case using div_ceil_mult_le [of b x] by (simp add: distrib_right)
qed

section \<open>Options\<close>

definition unwrap_or :: "'a option \<Rightarrow> 'a \<Rightarrow> 'a" where
  "unwrap_or x d = (case x of Some v \<Rightarrow> v | None \<Rightarrow> d)"

lemma unwrap_or_simps [simp]: "unwrap_or None d = d" "unwrap_or (Some v) d = v"
  by (simp_all add: unwrap_or_def)

section \<open>Runs\<close>

text \<open>
  The contract between a step relation and an invariant of it, and of a second invariant whose steps
  rely on the first. Every state machine of the development is an instance.
\<close>

locale guarded_steps =
  fixes step :: "'s \<Rightarrow> 's \<Rightarrow> bool" and starts :: "'s \<Rightarrow> bool" and holds :: "'s \<Rightarrow> bool"
  assumes starts_holds: "starts s \<Longrightarrow> holds s"
    and step_holds: "step s t \<Longrightarrow> holds s \<Longrightarrow> holds t"
begin

lemma run_holds: "step\<^sup>*\<^sup>* s t \<Longrightarrow> holds s \<Longrightarrow> holds t"
  by (induction rule: rtranclp_induct) (auto intro: step_holds)

lemma reached_holds: "step\<^sup>*\<^sup>* s t \<Longrightarrow> starts s \<Longrightarrow> holds t"
  using run_holds starts_holds by blast

end

locale layered_steps = guarded_steps +
  fixes also_holds :: "'a \<Rightarrow> bool"
  assumes starts_also: "starts s \<Longrightarrow> also_holds s"
    and step_also: "step s t \<Longrightarrow> holds s \<Longrightarrow> also_holds s \<Longrightarrow> also_holds t"

sublocale layered_steps \<subseteq> both: guarded_steps step starts "\<lambda>s. holds s \<and> also_holds s"
  by unfold_locales (use starts_holds step_holds starts_also step_also in blast)+

end
