(* ===== verification/Ordered_Map.thy ===== *)
theory Ordered_Map
  imports Mbx_Prelude
begin

text \<open>
  The standard library's \<open>BTreeMap\<close> as the code uses it: an association list kept strictly
  sorted by key, so that iteration is in key order. The interface is the locale
  \<open>ordered_map\<close>; the clients' facts about counting and bounding entries are proved in it once
  and reach the components through the interpretation \<open>bt\<close>.
\<close>

type_synonym ('k, 'v) btree_map = "('k \<times> 'v) list"

abbreviation bt_get :: "('k, 'v) btree_map \<Rightarrow> 'k \<Rightarrow> 'v option" where
  "bt_get \<equiv> map_of"

fun bt_insert :: "'k::linorder \<Rightarrow> 'v \<Rightarrow> ('k, 'v) btree_map \<Rightarrow> ('k, 'v) btree_map" where
  "bt_insert k v [] = [(k, v)]"
| "bt_insert k v ((k', v') # m) =
     (if k < k' then (k, v) # (k', v') # m
      else if k = k' then (k, v) # m
      else (k', v') # bt_insert k v m)"

fun bt_remove :: "'k::linorder \<Rightarrow> ('k, 'v) btree_map \<Rightarrow> ('k, 'v) btree_map" where
  "bt_remove k [] = []"
| "bt_remove k ((k', v') # m) = (if k = k' then m else (k', v') # bt_remove k m)"

definition bt_inv :: "('k::linorder, 'v) btree_map \<Rightarrow> bool" where
  "bt_inv m = sorted_wrt (<) (map fst m)"

lemma bt_inv_Nil [simp]: "bt_inv []"
  by (simp add: bt_inv_def)

lemma bt_inv_Cons [simp]: "bt_inv ((k, v) # m) \<longleftrightarrow> (\<forall>k' \<in> fst ` set m. k < k') \<and> bt_inv m"
  by (simp add: bt_inv_def)

lemma keys_bt_insert [simp]: "fst ` set (bt_insert k v m) = insert k (fst ` set m)"
  by (induction k v m rule: bt_insert.induct) auto

lemma bt_inv_insert [intro, simp]: "bt_inv m \<Longrightarrow> bt_inv (bt_insert k v m)"
  by (induction k v m rule: bt_insert.induct) auto

lemma bt_get_insert [simp]: "bt_inv m \<Longrightarrow> bt_get (bt_insert k v m) = (bt_get m)(k \<mapsto> v)"
  by (induction k v m rule: bt_insert.induct) auto

lemma keys_bt_remove: "bt_inv m \<Longrightarrow> fst ` set (bt_remove k m) = fst ` set m - {k}"
  by (induction k m rule: bt_remove.induct) auto

lemma bt_inv_remove [intro, simp]: "bt_inv m \<Longrightarrow> bt_inv (bt_remove k m)"
  by (induction k m rule: bt_remove.induct) (auto simp: keys_bt_remove)

lemma map_of_notin: "k \<notin> fst ` set m \<Longrightarrow> map_of m k = None"
  by (simp add: map_of_eq_None_iff)

lemma bt_get_remove [simp]: "bt_inv m \<Longrightarrow> bt_get (bt_remove k m) = (bt_get m)(k := None)"
proof (induction k m rule: bt_remove.induct)
  case (2 k k' v' m)
  then show ?case by (auto simp: map_of_eq_None_iff fun_eq_iff)
qed (simp add: fun_eq_iff)

lemma set_bt_insert: "set (bt_insert k v m) \<subseteq> insert (k, v) (set m)"
  by (induction k v m rule: bt_insert.induct) auto

lemma set_bt_remove: "set (bt_remove k m) \<subseteq> set m"
  by (induction k m rule: bt_remove.induct) auto

lemma bt_inv_distinct: "bt_inv m \<Longrightarrow> distinct (map fst m)"
  by (auto simp: bt_inv_def strict_sorted_iff)

lemma bt_inv_filter [intro]: "bt_inv m \<Longrightarrow> bt_inv (filter P m)"
  by (induction m) auto

lemma length_bt_insert:
  "bt_inv m \<Longrightarrow> length (bt_insert k v m) = (if bt_get m k = None then Suc (length m) else length m)"
proof (induction k v m rule: bt_insert.induct)
  case (2 k v k' v' m)
  then show ?case by (auto simp: map_of_eq_None_iff)
qed simp

lemma length_bt_remove:
  "bt_inv m \<Longrightarrow> length (bt_remove k m) = (if bt_get m k = None then length m else length m - 1)"
proof (induction k m rule: bt_remove.induct)
  case (2 k k' v' m)
  then show ?case by (cases m) (auto simp: map_of_eq_None_iff)
qed simp

text \<open>Two maps with the same entries are the same list: the sorted representation is canonical.\<close>

lemma bt_ext:
  assumes "bt_inv m" "bt_inv n" "bt_get m = bt_get n"
  shows "m = n"
proof (rule map_sorted_distinct_set_unique [where f = fst])
  have "(k, v) \<in> set m \<longleftrightarrow> (k, v) \<in> set n" for k v
    using assms(3) map_of_eq_Some_iff [OF bt_inv_distinct [OF assms(1)], of k v]
      map_of_eq_Some_iff [OF bt_inv_distinct [OF assms(2)], of k v] by simp
  then show "set m = set n" by auto
  show "inj_on fst (set m \<union> set n)"
    using \<open>set m = set n\<close> bt_inv_distinct [OF assms(1)] by (simp add: distinct_map)
qed (use assms in \<open>auto simp: bt_inv_def strict_sorted_iff distinct_map\<close>)

section \<open>Least entries\<close>

text \<open>\<open>Iterator::min_by_key\<close>: the first of the least elements.\<close>

fun min_by_key :: "('a \<Rightarrow> 'b::linorder) \<Rightarrow> 'a list \<Rightarrow> 'a option" where
  "min_by_key f [] = None"
| "min_by_key f (x # xs) = Some (foldl (\<lambda>best y. if f y < f best then y else best) x xs)"

lemma foldl_min_by_key:
  "foldl (\<lambda>best y. if f y < f best then y else best) x xs \<in> insert x (set xs) \<and>
   (\<forall>y \<in> insert x (set xs). f (foldl (\<lambda>best y. if f y < f best then y else best) x xs) \<le> (f y :: 'b::linorder))"
proof (induction xs arbitrary: x)
  case (Cons a xs)
  let ?b = "if f a < f x then a else x"
  from Cons [of ?b] show ?case by (auto simp: not_less split: if_splits intro: order_trans less_imp_le)
qed simp

lemma min_by_key_Some:
  "min_by_key f xs = Some m \<Longrightarrow> m \<in> set xs \<and> (\<forall>y \<in> set xs. f m \<le> f y)"
  using foldl_min_by_key [of f] by (cases xs) auto

lemma min_by_key_None [simp]: "min_by_key f xs = None \<longleftrightarrow> xs = []"
  by (cases xs) auto

section \<open>The interface\<close>

locale ordered_map =
  fixes get :: "'m \<Rightarrow> 'k \<Rightarrow> 'v option"
    and ins :: "'k \<Rightarrow> 'v \<Rightarrow> 'm \<Rightarrow> 'm"
    and del :: "'k \<Rightarrow> 'm \<Rightarrow> 'm"
    and inv :: "'m \<Rightarrow> bool"
    and count :: "'m \<Rightarrow> nat"
  assumes get_ins: "inv m \<Longrightarrow> get (ins k v m) = (get m)(k \<mapsto> v)"
    and get_del: "inv m \<Longrightarrow> get (del k m) = (get m)(k := None)"
    and inv_ins: "inv m \<Longrightarrow> inv (ins k v m)"
    and inv_del: "inv m \<Longrightarrow> inv (del k m)"
    and count_dom: "inv m \<Longrightarrow> finite (dom (get m)) \<and> count m = card (dom (get m))"
begin

lemma count_ins: "inv m \<Longrightarrow> count (ins k v m) = (if get m k = None then Suc (count m) else count m)"
  using count_dom [of m] count_dom [OF inv_ins, of m k v]
  by (auto simp: get_ins insert_absorb domIff)

lemma count_ins_le: "inv m \<Longrightarrow> count (ins k v m) \<le> Suc (count m)"
  by (simp add: count_ins)

lemma count_del: "inv m \<Longrightarrow> count (del k m) = (if get m k = None then count m else count m - 1)"
  using count_dom [of m] count_dom [OF inv_del, of m k]
  by (auto simp: get_del domIff)

lemma count_del_less: "inv m \<Longrightarrow> get m k \<noteq> None \<Longrightarrow> count (del k m) < count m"
  using count_del [of m k] count_dom [of m] card_gt_0_iff [of "dom (get m)"] by auto

text \<open>Making room before inserting keeps a bound on the number of entries.\<close>

lemma count_replace:
  assumes "inv m" "get m old \<noteq> None" "get m k = None"
  shows "count (ins k v (del old m)) = count m"
  using assms count_ins [OF inv_del [OF assms(1)], of k v old] count_del_less [of m old]
    count_del [of m old]
  by (auto simp: get_del)

end

lemma card_dom_map_of: "distinct (map fst m) \<Longrightarrow> card (dom (map_of m)) = length m"
  using distinct_card [of "map fst m"] by (simp add: dom_map_of_conv_image_fst)

interpretation bt: ordered_map
  "bt_get :: ('k::linorder, 'v) btree_map \<Rightarrow> 'k \<Rightarrow> 'v option" bt_insert bt_remove bt_inv length
  by unfold_locales (auto simp: card_dom_map_of bt_inv_distinct finite_dom_map_of)

end
