(* ===== verification/Text.thy ===== *)
theory Text
  imports Mbx_Prelude
begin

text \<open>
  The string operations of the standard library the sources use, on strings as lists of bytes:
  \<open>str::split\<close>, \<open>str::lines\<close>, \<open>split_whitespace\<close> (ASCII white space),
  \<open>strip_prefix\<close>, decimal printing and \<open>parse::<u64>\<close>.
\<close>

section \<open>Splitting\<close>

fun split_on :: "'a \<Rightarrow> 'a list \<Rightarrow> 'a list list" where
  "split_on c [] = [[]]"
| "split_on c (x # xs) =
     (if x = c then [] # split_on c xs
      else (case split_on c xs of [] \<Rightarrow> [[x]] | w # ws \<Rightarrow> (x # w) # ws))"

fun join_with :: "'a \<Rightarrow> 'a list list \<Rightarrow> 'a list" where
  "join_with c [] = []"
| "join_with c [w] = w"
| "join_with c (w # v # ws) = w @ c # join_with c (v # ws)"

lemma split_on_not_Nil [simp]: "split_on c xs \<noteq> []"
  by (induction xs) (auto split: list.splits)

lemma join_split [simp]: "join_with c (split_on c xs) = xs"
proof (induction xs)
  case (Cons x xs)
  then show ?case
    by (cases "split_on c xs"; cases "tl (split_on c xs)") auto
qed simp

lemma split_on_append: "c \<notin> set w \<Longrightarrow> split_on c (w @ c # xs) = w # split_on c xs"
  by (induction w) auto

lemma split_on_none: "c \<notin> set w \<Longrightarrow> split_on c w = [w]"
  by (induction w) auto

lemma split_join: "ws \<noteq> [] \<Longrightarrow> \<forall>w \<in> set ws. c \<notin> set w \<Longrightarrow> split_on c (join_with c ws) = ws"
  by (induction c ws rule: join_with.induct) (auto simp: split_on_none split_on_append)

lemma split_on_parts: "w \<in> set (split_on c xs) \<Longrightarrow> c \<notin> set w"
proof (induction xs arbitrary: w)
  case (Cons x xs)
  then show ?case
    by (cases "split_on c xs") (auto split: if_splits)
qed simp

definition newline :: char where "newline = CHR 0x0A"
definition carriage_return :: char where "carriage_return = CHR 0x0D"
definition tab :: char where "tab = CHR 0x09"

definition strip_cr :: "string \<Rightarrow> string" where
  "strip_cr l = (if l \<noteq> [] \<and> last l = carriage_return then butlast l else l)"

text \<open>\<open>str::lines\<close>: pieces ended by a newline, each without a final carriage return; no last
  empty piece.\<close>

definition lines_of :: "string \<Rightarrow> string list" where
  "lines_of s =
     (let ps = split_on newline s
      in map strip_cr (butlast ps) @ (if last ps = [] then [] else [last ps]))"

definition is_ascii_space :: "char \<Rightarrow> bool" where
  "is_ascii_space c \<longleftrightarrow> of_char c \<in> {9, 10, 11, 12, 13, 32 :: nat}"

fun words_from :: "string \<Rightarrow> string \<Rightarrow> string list" where
  "words_from acc [] = (if acc = [] then [] else [rev acc])"
| "words_from acc (c # cs) =
     (if is_ascii_space c then (if acc = [] then words_from [] cs else rev acc # words_from [] cs)
      else words_from (c # acc) cs)"

definition split_whitespace :: "string \<Rightarrow> string list" where
  "split_whitespace = words_from []"

fun strip_prefix :: "'a list \<Rightarrow> 'a list \<Rightarrow> 'a list option" where
  "strip_prefix [] ys = Some ys"
| "strip_prefix (x # xs) [] = None"
| "strip_prefix (x # xs) (y # ys) = (if x = y then strip_prefix xs ys else None)"

lemma strip_prefix_eq_Some: "strip_prefix xs ys = Some zs \<longleftrightarrow> ys = xs @ zs"
  by (induction xs ys rule: strip_prefix.induct) auto

lemma strip_prefix_append [simp]: "strip_prefix xs (xs @ zs) = Some zs"
  by (simp add: strip_prefix_eq_Some)

definition starts_with :: "'a list \<Rightarrow> 'a list \<Rightarrow> bool" where
  "starts_with p xs \<longleftrightarrow> strip_prefix p xs \<noteq> None"

definition ends_with :: "'a list \<Rightarrow> 'a list \<Rightarrow> bool" where
  "ends_with p xs \<longleftrightarrow> starts_with (rev p) (rev xs)"

lemma starts_with_iff: "starts_with p xs \<longleftrightarrow> prefix p xs"
  by (auto simp: starts_with_def prefix_def strip_prefix_eq_Some)

definition strip_suffix :: "'a list \<Rightarrow> 'a list \<Rightarrow> 'a list option" where
  "strip_suffix suf s = map_option rev (strip_prefix (rev suf) (rev s))"

lemma strip_suffix_Some: "strip_suffix suf s = Some t \<longleftrightarrow> s = t @ suf"
  by (auto simp: strip_suffix_def strip_prefix_eq_Some rev_eq_append_conv intro: exI [of _ "rev t"])

lemma ends_with_iff: "ends_with p xs \<longleftrightarrow> suffix p xs"
  by (simp add: ends_with_def starts_with_iff suffix_to_prefix)

fun find_map :: "('a \<Rightarrow> 'b option) \<Rightarrow> 'a list \<Rightarrow> 'b option" where
  "find_map f [] = None"
| "find_map f (x # xs) = (case f x of Some y \<Rightarrow> Some y | None \<Rightarrow> find_map f xs)"

lemma find_map_eq_Some:
  "find_map f xs = Some y \<longleftrightarrow> (\<exists>ys x zs. xs = ys @ x # zs \<and> f x = Some y \<and> (\<forall>z \<in> set ys. f z = None))"
proof (induction xs)
  case (Cons a xs)
  show ?case
  proof (cases "f a")
    case None
    then have "find_map f (a # xs) = Some y \<longleftrightarrow> find_map f xs = Some y" by simp
    also have "\<dots> \<longleftrightarrow> (\<exists>ys x zs. a # xs = ys @ x # zs \<and> f x = Some y \<and> (\<forall>z \<in> set ys. f z = None))"
      unfolding Cons.IH
    proof safe
      fix ys x zs assume "f x = Some y" "\<forall>z \<in> set ys. f z = None"
      with None show "\<exists>ysa xa zsa. a # ys @ x # zs = ysa @ xa # zsa \<and> f xa = Some y \<and> (\<forall>z \<in> set ysa. f z = None)"
        by (intro exI [of _ "a # ys"] exI [of _ x] exI [of _ zs]) simp
    next
      fix ys x zs assume "a # xs = ys @ x # zs" "f x = Some y" "\<forall>z \<in> set ys. f z = None"
      with None show "\<exists>ys x zs. xs = ys @ x # zs \<and> f x = Some y \<and> (\<forall>z \<in> set ys. f z = None)"
        by (cases ys) auto
    qed
    finally show ?thesis .
  next
    case (Some b)
    then show ?thesis
      by (auto simp: Cons_eq_append_conv intro!: exI [of _ "[]"])
  qed
qed simp

section \<open>Numbers\<close>

definition digit_of :: "char \<Rightarrow> nat option" where
  "digit_of c = (let n = of_char c :: nat in if 48 \<le> n \<and> n \<le> 57 then Some (n - 48) else None)"

definition char_of_digit :: "nat \<Rightarrow> char" where
  "char_of_digit d = char_of (48 + d)"

lemma digit_of_char_of_digit [simp]: "d < 10 \<Longrightarrow> digit_of (char_of_digit d) = Some d"
  by (simp add: digit_of_def char_of_digit_def)

text \<open>\<open>parse::<u64>\<close>: an optional plus sign, then at least one digit, and no overflow.\<close>

fun parse_digits :: "u64 \<Rightarrow> string \<Rightarrow> u64 option" where
  "parse_digits n [] = Some n"
| "parse_digits n (c # cs) =
     (case digit_of c of
        None \<Rightarrow> None
      | Some d \<Rightarrow> if n * 10 + d \<le> u64_max then parse_digits (n * 10 + d) cs else None)"

definition parse_u64 :: "string \<Rightarrow> u64 option" where
  "parse_u64 s =
     (let ds = (case s of c # cs \<Rightarrow> if c = CHR ''+'' then cs else s | [] \<Rightarrow> s)
      in if ds = [] then None else parse_digits 0 ds)"

fun show_nat :: "nat \<Rightarrow> string" where
  "show_nat n = (if n < 10 then [char_of_digit n] else show_nat (n div 10) @ [char_of_digit (n mod 10)])"

declare show_nat.simps [simp del]

lemma parse_digits_append:
  "parse_digits n (xs @ ys) = Option.bind (parse_digits n xs) (\<lambda>m. parse_digits m ys)"
  by (induction n xs rule: parse_digits.induct) (auto split: option.splits)

lemma parse_digits_show: "n \<le> u64_max \<Longrightarrow> parse_digits 0 (show_nat n) = Some n"
proof (induction n rule: show_nat.induct)
  case (1 n)
  show ?case
  proof (cases "n < 10")
    case True
    then show ?thesis using 1(2) by (simp add: show_nat.simps [of n])
  next
    case False
    have "parse_digits 0 (show_nat (n div 10)) = Some (n div 10)"
      using 1(1) [OF False] 1(2) by (meson div_le_dividend le_trans)
    then show ?thesis
      using False 1(2) by (subst show_nat.simps) (simp add: parse_digits_append)
  qed
qed

lemma hd_show_nat: "\<exists>d cs. show_nat n = char_of_digit d # cs \<and> d < 10"
proof (induction n rule: show_nat.induct)
  case (1 n)
  then show ?case by (cases "n < 10") (subst show_nat.simps; fastforce)+
qed

lemma char_of_digit_not_plus: "d < 10 \<Longrightarrow> char_of_digit d \<noteq> CHR ''+''"
  using digit_of_char_of_digit [of d] by (auto simp: digit_of_def)

lemma parse_show [simp]: "n \<le> u64_max \<Longrightarrow> parse_u64 (show_nat n) = Some n"
  using hd_show_nat [of n] char_of_digit_not_plus parse_digits_show [of n]
  by (auto simp: parse_u64_def Let_def)

lemma digits_show_nat: "c \<in> set (show_nat n) \<Longrightarrow> digit_of c \<noteq> None"
proof (induction n rule: show_nat.induct)
  case (1 n)
  then show ?case by (cases "n < 10") (auto simp: show_nat.simps [of n])
qed

lemma show_nat_inject: "show_nat m = show_nat n \<Longrightarrow> m \<le> u64_max \<Longrightarrow> n \<le> u64_max \<Longrightarrow> m = n"
  by (metis option.inject parse_show)

end
