(* ===== verification/Ledger.thy ===== *)
theory Ledger
  imports Ordered_Map Text
begin

text \<open>
  The memory ledger (\<open>scheduler.rs\<close>, \<open>scheduler_memory.rs\<close>): what a finished compilation
  teaches (\<open>ledger_peak\<close>, \<open>update_legacy_link\<close>, \<open>update_legacy_compile\<close>,
  \<open>memory::record\<close>, \<open>record_cpu\<close>), how the ledger stays small (\<open>trim_compile_ledger\<close>,
  \<open>trim\<close>), and what an admission is charged (\<open>compile_prediction\<close>,
  \<open>link_prediction\<close>). The statistical part works on logarithms in \<open>f64\<close>: residuals are
  elements of a type \<open>'r\<close>, the score of a peak and the upper bound of a window are functions
  given as arguments, and every theorem holds whatever they return.
\<close>

section \<open>Constants and data\<close>

definition LEDGER_VERSION :: nat where "LEDGER_VERSION = 1"
definition MAX_LEDGER_ENTRIES :: nat where "MAX_LEDGER_ENTRIES = 1024"
definition MAX_LINK_SAMPLES :: nat where "MAX_LINK_SAMPLES = 16"
definition WINDOW :: nat where "WINDOW = 16"
definition MAX_RESIDUALS :: nat where "MAX_RESIDUALS = 256"
definition MIN_POOL_KEYS :: nat where "MIN_POOL_KEYS = 10"
definition MIN_KEY_SAMPLES :: nat where "MIN_KEY_SAMPLES = 4"
definition LINK_WEIGHT :: u64 where "LINK_WEIGHT = 2"

text \<open>The mean and the scale a charge was computed from.\<close>

type_synonym 'r features = "'r \<times> 'r"

record 'r ledger =
  ledger_version :: nat
  crates :: "(string, u64) btree_map"
  link_peaks :: "u64 list"
  ledger_cpus :: "(string, u64) btree_map"
  profile_link_peaks :: "(string, u64 list) btree_map"
  compile_samples :: "(string, nat) btree_map"
  memory_windows :: "(string, u64 list) btree_map"
  memory_residuals :: "(string, 'r list) btree_map"
  sibling_residuals :: "'r list"

definition ledger_inv :: "'r ledger \<Rightarrow> bool" where
  "ledger_inv l \<longleftrightarrow>
     bt_inv (crates l) \<and> bt_inv (ledger_cpus l) \<and> bt_inv (profile_link_peaks l) \<and>
     bt_inv (compile_samples l) \<and> bt_inv (memory_windows l) \<and> bt_inv (memory_residuals l)"

definition empty_ledger :: "'r ledger" where
  "empty_ledger = \<lparr>ledger_version = 0, crates = [], link_peaks = [], ledger_cpus = [],
     profile_link_peaks = [], compile_samples = [], memory_windows = [], memory_residuals = [],
     sibling_residuals = []\<rparr>"

lemma ledger_inv_empty [simp]: "ledger_inv empty_ledger"
  by (simp add: ledger_inv_def empty_ledger_def)

section \<open>What one run teaches\<close>

definition ledger_peak :: "u64 \<Rightarrow> bool \<Rightarrow> bool \<Rightarrow> bool \<Rightarrow> u64 \<Rightarrow> u64 option" where
  "ledger_peak measured oom_killed links succeeded bpp =
     (if oom_killed then Some (max (saturating_mul measured 2) (saturating_add bpp 1))
      else if links \<and> succeeded then Some measured
      else if measured > bpp then Some measured else None)"

definition ledger_key :: "string \<Rightarrow> bool \<Rightarrow> string" where
  "ledger_key name links = (if links then name @ '' [link]'' else name)"

section \<open>Eviction\<close>

text \<open>\<open>while map.len() > limit { remove the entry with the smallest rank }\<close>.\<close>

function evict_smallest :: "('v \<Rightarrow> nat) \<Rightarrow> nat \<Rightarrow> ('k::linorder, 'v) btree_map \<Rightarrow> ('k, 'v) btree_map" where
  "evict_smallest rank limit m =
     (if length m \<le> limit then m
      else (case min_by_key (\<lambda>(_, v). rank v) m of
          None \<Rightarrow> m
        | Some (k, _) \<Rightarrow> evict_smallest rank limit (bt_remove k m)))"
  by pat_completeness auto

lemma length_bt_remove_less: "k \<in> fst ` set m \<Longrightarrow> length (bt_remove k m) < length m"
  by (induction k m rule: bt_remove.induct) auto

termination evict_smallest
  by (relation "measure (\<lambda>(_, _, m). length m)")
    (auto dest!: min_by_key_Some intro!: length_bt_remove_less simp: rev_image_eqI)

declare evict_smallest.simps [simp del]

lemma evict_smallest_inv: "bt_inv m \<Longrightarrow> bt_inv (evict_smallest rank limit m)"
proof (induction rank limit m rule: evict_smallest.induct)
  case (1 rank limit m)
  then show ?case
    by (subst evict_smallest.simps) (auto split: option.split)
qed

lemma evict_smallest_length: "length (evict_smallest rank limit m) \<le> limit"
proof (induction rank limit m rule: evict_smallest.induct)
  case (1 rank limit m)
  then show ?case
    by (subst evict_smallest.simps) (auto split: option.split)
qed

lemma evict_smallest_get:
  "bt_inv m \<Longrightarrow> bt_get (evict_smallest rank limit m) k = Some v \<Longrightarrow> bt_get m k = Some v"
proof (induction rank limit m rule: evict_smallest.induct)
  case (1 rank limit m)
  show ?case
  proof (cases "length m \<le> limit")
    case True
    then show ?thesis using 1(3) by (simp add: evict_smallest.simps [of rank limit m])
  next
    case False
    then obtain k' v' where min: "min_by_key (\<lambda>(_, v). rank v) m = Some (k', v')"
      by (cases "min_by_key (\<lambda>(_, v). rank v) m") (auto simp del: min_by_key.simps)
    have "bt_get (evict_smallest rank limit (bt_remove k' m)) k = Some v"
      using 1(3) False min by (simp add: evict_smallest.simps [of rank limit m])
    from 1(1) [OF False min refl bt_inv_remove [OF 1(2)] this] show ?thesis
      using 1(2) by (simp split: if_splits)
  qed
qed

text \<open>Only entries no larger than every survivor go.\<close>

lemma evict_smallest_least:
  "bt_inv m \<Longrightarrow> bt_get m k = Some v \<Longrightarrow> bt_get (evict_smallest rank limit m) k = None \<Longrightarrow>
   bt_get (evict_smallest rank limit m) k' = Some v' \<Longrightarrow> rank v \<le> rank v'"
proof (induction rank limit m rule: evict_smallest.induct)
  case (1 rank limit m)
  show ?case
  proof (cases "length m \<le> limit")
    case True
    then show ?thesis using 1(3,4) by (simp add: evict_smallest.simps [of rank limit m])
  next
    case False
    then obtain x y where min: "min_by_key (\<lambda>(_, v). rank v) m = Some (x, y)"
      by (cases "min_by_key (\<lambda>(_, v). rank v) m") (auto simp del: min_by_key.simps)
    let ?m = "bt_remove x m"
    have step: "evict_smallest rank limit m = evict_smallest rank limit ?m"
      using False min by (simp add: evict_smallest.simps [of rank limit m])
    have inv: "bt_inv ?m" using 1(2) by simp
    show ?thesis
    proof (cases "k = x")
      case True
      have "(x, y) \<in> set m" using min_by_key_Some [OF min] by simp
      then have "y = v" using 1(2,3) True bt_inv_distinct by fastforce
      moreover have "(k', v') \<in> set m"
        using evict_smallest_get [OF 1(2,5)] by (rule map_of_SomeD)
      ultimately show ?thesis using min_by_key_Some [OF min] by fastforce
    next
      case False': False
      show ?thesis
        using 1(1) [OF False min refl inv] 1(2-5) False' step by simp
    qed
  qed
qed

section \<open>Links and compile modes\<close>

definition push_window :: "nat \<Rightarrow> 'a \<Rightarrow> 'a list \<Rightarrow> 'a list" where
  "push_window limit x w = (let w = w @ [x] in drop (length w - limit) w)"

lemma length_push_window: "length (push_window limit x w) \<le> limit"
  by (simp add: push_window_def Let_def)

lemma last_push_window: "0 < limit \<Longrightarrow> push_window limit x w \<noteq> [] \<and> last (push_window limit x w) = x"
  by (auto simp: push_window_def Let_def)

lemma set_push_window: "set (push_window limit x w) \<subseteq> insert x (set w)"
  using set_drop_subset [of "length (w @ [x]) - limit" "w @ [x]"]
  by (auto simp: push_window_def Let_def)

text \<open>\<open>while map.len() > limit { map.pop_first() }\<close>.\<close>

definition pop_to :: "nat \<Rightarrow> ('k, 'v) btree_map \<Rightarrow> ('k, 'v) btree_map" where
  "pop_to limit m = drop (length m - limit) m"

lemma pop_to_inv: "bt_inv m \<Longrightarrow> bt_inv (pop_to limit m)"
  by (simp add: bt_inv_def pop_to_def drop_map [symmetric] sorted_wrt_drop)

lemma length_pop_to: "length (pop_to limit m) \<le> limit"
  by (simp add: pop_to_def)

definition update_legacy_link ::
  "string \<Rightarrow> u64 \<Rightarrow> bool \<Rightarrow> string option \<Rightarrow> 'r ledger \<Rightarrow> bool \<times> 'r ledger" where
  "update_legacy_link name peak links profile l =
     (let l = (if links
               then (case profile of
                   Some pr \<Rightarrow>
                     l\<lparr>profile_link_peaks := pop_to MAX_LEDGER_ENTRIES
                        (bt_insert pr (push_window MAX_LINK_SAMPLES peak
                           (unwrap_or (bt_get (profile_link_peaks l) pr) [])) (profile_link_peaks l))\<rparr>
                 | None \<Rightarrow>
                     l\<lparr>link_peaks := push_window MAX_LINK_SAMPLES peak (link_peaks l),
                       profile_link_peaks := pop_to MAX_LEDGER_ENTRIES (profile_link_peaks l)\<rparr>)
               else l);
          known = (case bt_get (crates l) name of Some k \<Rightarrow> k \<ge> peak | None \<Rightarrow> False)
      in if known \<and> \<not> links then (False, l)
         else (True, if known then l else l\<lparr>crates := bt_insert name peak (crates l)\<rparr>))"

definition mode_prefix :: "string \<Rightarrow> string" where
  "mode_prefix name = name @ '' [compile ''"

definition retained_peak :: "string \<Rightarrow> (string, u64) btree_map \<Rightarrow> u64" where
  "retained_peak name m =
     foldl max 0 (map snd (filter (\<lambda>(k, _). starts_with (mode_prefix name) k) m))"

text \<open>A crate-wide entry that is created anew covers every mode that is still recorded.\<close>

definition raise_bare :: "string \<Rightarrow> u64 option \<Rightarrow> 'r ledger \<Rightarrow> 'r ledger" where
  "raise_bare name peak l =
     (case peak of
        Some p \<Rightarrow>
          (let bare_known = bt_get (crates l) name;
               retained = (if bare_known = None then retained_peak name (crates l) else 0);
               bare = max (max (unwrap_or bare_known 0) p) retained
           in l\<lparr>crates := bt_insert name bare (crates l)\<rparr>)
      | None \<Rightarrow> l)"

definition raise_mode :: "string \<Rightarrow> u64 \<Rightarrow> bool \<Rightarrow> 'r ledger \<Rightarrow> 'r ledger" where
  "raise_mode key mode_peak counted l =
     (let l = l\<lparr>crates := bt_insert key (max (unwrap_or (bt_get (crates l) key) 0) mode_peak) (crates l)\<rparr>
      in if counted
         then l\<lparr>compile_samples := bt_insert key
                (min (unwrap_or (bt_get (compile_samples l) key) 0 + 1) 3) (compile_samples l)\<rparr>
         else l)"

definition legacy_compile_known ::
  "string \<Rightarrow> string \<Rightarrow> u64 \<Rightarrow> u64 option \<Rightarrow> bool \<Rightarrow> bool \<Rightarrow> 'r ledger \<Rightarrow> bool" where
  "legacy_compile_known name key mode_peak peak succeeded oom l \<longleftrightarrow>
     (case bt_get (crates l) name of
        Some bare \<Rightarrow> (case peak of Some p \<Rightarrow> p \<le> bare | None \<Rightarrow> True) | None \<Rightarrow> False) \<and>
     (case bt_get (crates l) key of Some known \<Rightarrow> known \<ge> mode_peak | None \<Rightarrow> False) \<and>
     (\<not> succeeded \<or> oom \<or> unwrap_or (bt_get (compile_samples l) key) 0 \<ge> 3)"

definition update_legacy_compile ::
  "string \<Rightarrow> string \<Rightarrow> u64 \<Rightarrow> u64 option \<Rightarrow> bool \<Rightarrow> bool \<Rightarrow> 'r ledger \<Rightarrow> bool \<times> 'r ledger" where
  "update_legacy_compile name key measured peak succeeded oom l =
     (if peak = None \<and> bt_get (crates l) name = None then (False, l)
      else
        (let mode_peak = unwrap_or peak measured
         in if legacy_compile_known name key mode_peak peak succeeded oom l then (False, l)
            else
              (let l = raise_bare name peak l
               in if bt_get (crates l) name = None then (False, l)
                  else (True, raise_mode key mode_peak (succeeded \<and> \<not> oom) l))))"

text \<open>
  The loop of \<open>trim_compile_ledger\<close> on the peaks and the sample counts. Evicting a crate-wide
  entry evicts its modes.
\<close>

function trim_loop ::
  "(string, u64) btree_map \<Rightarrow> (string, nat) btree_map \<Rightarrow>
   (string, u64) btree_map \<times> (string, nat) btree_map" where
  "trim_loop peaks samples =
     (if length peaks \<le> MAX_LEDGER_ENTRIES then (peaks, samples)
      else (case min_by_key snd peaks of
          None \<Rightarrow> (peaks, samples)
        | Some (smallest, _) \<Rightarrow>
            trim_loop
              (filter (\<lambda>(k, _). \<not> starts_with (mode_prefix smallest) k) (bt_remove smallest peaks))
              (bt_remove smallest samples)))"
  by pat_completeness auto

termination trim_loop
  by (relation "measure (\<lambda>(m, _). length m)")
    (auto dest!: min_by_key_Some intro!: le_less_trans [OF length_filter_le]
      length_bt_remove_less simp: rev_image_eqI)

declare trim_loop.simps [simp del]

definition trim_compile_ledger :: "'r ledger \<Rightarrow> 'r ledger" where
  "trim_compile_ledger l =
     (let (peaks, samples) = trim_loop (crates l) (compile_samples l)
      in l\<lparr>crates := peaks,
          compile_samples := filter (\<lambda>(k, _). bt_get peaks k \<noteq> None) samples\<rparr>)"

section \<open>Windows and residuals\<close>

definition list_max :: "u64 list \<Rightarrow> u64" where
  "list_max w = foldl max 0 w"

text \<open>\<open>trim\<close>: at most the allowed number of windows, the smallest maxima go first.\<close>

definition trim_windows :: "(string, u64 list) btree_map \<Rightarrow> (string, u64 list) btree_map" where
  "trim_windows = evict_smallest list_max MAX_LEDGER_ENTRIES"

text \<open>
  \<open>score peak features\<close> stands for the finite residual \<open>(ln peak - mean) / scale\<close>, or none
  when the scale is not positive or the result is not finite; \<open>finite_score\<close> for
  \<open>f64::is_finite\<close>.
\<close>

definition sanitize_residuals :: "('r \<Rightarrow> bool) \<Rightarrow> 'r list \<Rightarrow> 'r list" where
  "sanitize_residuals finite_score h =
     (let h = filter finite_score h in drop (length h - MAX_RESIDUALS) h)"

definition memory_record ::
  "('r \<Rightarrow> bool) \<Rightarrow> (u64 \<Rightarrow> 'r features \<Rightarrow> 'r option) \<Rightarrow> string \<Rightarrow> string \<Rightarrow> u64 \<Rightarrow> 'r features option \<Rightarrow> bool \<Rightarrow>
   'r ledger \<Rightarrow> 'r ledger" where
  "memory_record finite_score score key kind peak features calibrate l =
     (if peak = 0 then l
      else
        (let l = (case if calibrate then Option.bind features (score peak) else None of
               None \<Rightarrow> l
             | Some residual \<Rightarrow>
                 l\<lparr>memory_residuals := bt_insert kind
                     (sanitize_residuals finite_score
                        (unwrap_or (bt_get (memory_residuals l) kind) [] @ [residual]))
                     (memory_residuals l)\<rparr>)
         in l\<lparr>memory_windows := trim_windows (bt_insert key
               (push_window WINDOW peak (unwrap_or (bt_get (memory_windows l) key) []))
               (memory_windows l))\<rparr>))"

definition record_sibling ::
  "('r \<Rightarrow> bool) \<Rightarrow> (u64 \<Rightarrow> 'r features \<Rightarrow> 'r option) \<Rightarrow> u64 \<Rightarrow> 'r features option \<Rightarrow> bool \<Rightarrow> 'r ledger \<Rightarrow> 'r ledger" where
  "record_sibling finite_score score peak features calibrate l =
     (case if calibrate \<and> peak > 0 then Option.bind features (score peak) else None of
        None \<Rightarrow> l
      | Some residual \<Rightarrow>
          l\<lparr>sibling_residuals := sanitize_residuals finite_score (sibling_residuals l @ [residual])\<rparr>)"

section \<open>Recording a finished run\<close>

text \<open>
  The result is the ledger to write, or none when nothing is written. \<open>before\<close> is the ledger
  read ahead of the lock, \<open>l\<close> the one read under it; \<open>features_of\<close> is the feature part of
  an estimate.
\<close>

definition learn_compile ::
  "('r \<Rightarrow> bool) \<Rightarrow> (u64 \<Rightarrow> 'r features \<Rightarrow> 'r option) \<Rightarrow> ('r ledger \<Rightarrow> string \<Rightarrow> string \<Rightarrow> 'r features option) \<Rightarrow>
   string \<Rightarrow> 'r features option \<Rightarrow> 'r features option \<Rightarrow> u64 option \<Rightarrow> bool \<Rightarrow> 'r ledger \<Rightarrow> 'r ledger" where
  "learn_compile finite_score score features_of key memory_features sibling_features sample calibrate l =
     (case sample of
        None \<Rightarrow> l
      | Some s \<Rightarrow>
          (let l = record_sibling finite_score score s sibling_features calibrate l;
               features = (case memory_features of
                   Some f \<Rightarrow> Some f | None \<Rightarrow> features_of l key ''compile'')
           in memory_record finite_score score key ''compile'' s features calibrate l))"

definition record_compile ::
  "('r \<Rightarrow> bool) \<Rightarrow> (u64 \<Rightarrow> 'r features \<Rightarrow> 'r option) \<Rightarrow> ('r ledger \<Rightarrow> string \<Rightarrow> string \<Rightarrow> 'r features option) \<Rightarrow>
   u64 \<Rightarrow> string \<Rightarrow> string option \<Rightarrow> bool \<Rightarrow> 'r features option \<Rightarrow> 'r features option \<Rightarrow> u64 \<Rightarrow> bool \<Rightarrow> bool \<Rightarrow>
   'r ledger \<Rightarrow> 'r ledger \<Rightarrow> 'r ledger option" where
  "record_compile finite_score score features_of bpp name compile_mode counts memory_features
     sibling_features measured oom succeeded before l =
     (case compile_mode of
        None \<Rightarrow> None
      | Some key \<Rightarrow>
          if bpp = 0 then None
          else
            (let succeeded = (succeeded \<and> counts);
                 peak = ledger_peak measured oom False succeeded bpp;
                 sample = (if oom then peak
                           else if succeeded \<and> measured > 0 then Some measured else None)
             in if sample = None \<and> peak = None \<and> bt_get (crates before) name = None then None
                else
                  (let l = learn_compile finite_score score features_of key memory_features sibling_features
                             sample (succeeded \<and> \<not> oom) l;
                       (changed, l) = update_legacy_compile name key measured peak succeeded oom l
                   in if sample = None \<and> \<not> changed then None
                      else Some (trim_compile_ledger (l\<lparr>ledger_version := LEDGER_VERSION\<rparr>)))))"

text \<open>A sample is a peak, its frozen features and whether it calibrates.\<close>

definition learn_link ::
  "('r \<Rightarrow> bool) \<Rightarrow> (u64 \<Rightarrow> 'r features \<Rightarrow> 'r option) \<Rightarrow> ('r ledger \<Rightarrow> string \<Rightarrow> string \<Rightarrow> 'r features option) \<Rightarrow>
   string \<Rightarrow> (u64 \<times> 'r features option \<times> bool) option \<Rightarrow> 'r ledger \<Rightarrow> 'r ledger" where
  "learn_link finite_score score features_of name sample l =
     (case sample of
        None \<Rightarrow> l
      | Some (s, features, calibrate) \<Rightarrow>
          memory_record finite_score score name ''link'' s
            (case features of Some f \<Rightarrow> Some f | None \<Rightarrow> features_of l name ''link'') calibrate l)"

definition record_link_measurement ::
  "('r \<Rightarrow> bool) \<Rightarrow> (u64 \<Rightarrow> 'r features \<Rightarrow> 'r option) \<Rightarrow> ('r ledger \<Rightarrow> string \<Rightarrow> string \<Rightarrow> 'r features option) \<Rightarrow>
   string \<Rightarrow> u64 option \<Rightarrow> bool \<Rightarrow> string option \<Rightarrow> (u64 \<times> 'r features option \<times> bool) option \<Rightarrow>
   'r ledger \<Rightarrow> 'r ledger option" where
  "record_link_measurement finite_score score features_of name peak links profile sample l =
     (let sample = (if links then sample else None);
          l = learn_link finite_score score features_of name sample l;
          (changed, l) = (case peak of
                 None \<Rightarrow> (False, l)
               | Some p \<Rightarrow> update_legacy_link name p links profile l)
      in if sample = None \<and> \<not> changed then None
         else Some (trim_compile_ledger (l\<lparr>ledger_version := LEDGER_VERSION\<rparr>)))"

definition record_cpu :: "string \<Rightarrow> u64 \<Rightarrow> 'r ledger \<Rightarrow> 'r ledger option" where
  "record_cpu name cores l =
     (if (case bt_get (ledger_cpus l) name of Some known \<Rightarrow> known \<ge> cores | None \<Rightarrow> False) then None
      else Some (l\<lparr>ledger_version := LEDGER_VERSION,
             ledger_cpus := evict_smallest id MAX_LEDGER_ENTRIES (bt_insert name cores (ledger_cpus l))\<rparr>))"

section \<open>Predictions\<close>

fun contains :: "'a list \<Rightarrow> 'a list \<Rightarrow> bool" where
  "contains p [] \<longleftrightarrow> p = []"
| "contains p (x # xs) \<longleftrightarrow> starts_with p (x # xs) \<or> contains p xs"

definition kind_of :: "string \<Rightarrow> string" where
  "kind_of key =
     (if ends_with '' [link]'' key then ''link''
      else if contains '' [test'' key then ''test-binary''
      else ''compile'')"

record memory_estimate =
  est_n :: nat
  window_max :: u64
  charge :: u64

text \<open>\<open>bound_of\<close> stands for the rounded-up statistical bound on a key's next peak.\<close>

definition estimate ::
  "('r ledger \<Rightarrow> string \<Rightarrow> string \<Rightarrow> u64) \<Rightarrow> 'r ledger \<Rightarrow> string \<Rightarrow> string \<Rightarrow> memory_estimate option" where
  "estimate bound_of l key kind =
     (case bt_get (memory_windows l) key of
        None \<Rightarrow> None
      | Some w \<Rightarrow>
          if w = [] then None
          else Some \<lparr>est_n = length w, window_max = list_max w,
                 charge = max (list_max w) (bound_of l key kind)\<rparr>)"

definition calibrated :: "'r ledger \<Rightarrow> string \<Rightarrow> bool" where
  "calibrated l kind \<longleftrightarrow>
     length (filter (\<lambda>(key, w). kind_of key = kind \<and> length w \<ge> 4) (memory_windows l)) \<ge> MIN_POOL_KEYS"

definition warm_up_charge :: "'r ledger \<Rightarrow> string \<Rightarrow> memory_estimate \<Rightarrow> u64 option \<Rightarrow> u64" where
  "warm_up_charge l kind e previous =
     (case previous of
        Some prev \<Rightarrow>
          if \<not> calibrated l kind \<or> est_n e < MIN_KEY_SAMPLES
          then min (charge e) (max prev (window_max e)) else charge e
      | None \<Rightarrow> charge e)"

definition previous_compile_charge :: "'r ledger \<Rightarrow> string \<Rightarrow> string \<Rightarrow> u64 option" where
  "previous_compile_charge l name key =
     (let bare = bt_get (crates l) name
      in case bt_get (crates l) key of
           None \<Rightarrow> bare
         | Some peak \<Rightarrow>
             (let old_charge =
                (if unwrap_or (bt_get (compile_samples l) key) 0 \<ge> 3
                 then (let padded = saturating_add peak (div_ceil peak 2)
                       in case bare of None \<Rightarrow> padded | Some b \<Rightarrow> min padded b)
                 else unwrap_or bare peak)
              in Some (max peak old_charge)))"

definition default_charge :: "u64 \<Rightarrow> u64 option" where
  "default_charge d = (if d > 0 then Some d else None)"

definition compile_window_charge ::
  "('r ledger \<Rightarrow> string \<Rightarrow> string \<Rightarrow> u64) \<Rightarrow> 'r ledger \<Rightarrow> string \<Rightarrow> string \<Rightarrow> u64 \<Rightarrow> u64 option" where
  "compile_window_charge bound_of l name key d =
     (case estimate bound_of l key ''compile'' of
        None \<Rightarrow> None
      | Some e \<Rightarrow>
          Some (warm_up_charge l ''compile'' e
            (case previous_compile_charge l name key of Some c \<Rightarrow> Some c | None \<Rightarrow> default_charge d)))"

text \<open>
  \<open>sibling_bound maxima\<close> stands for the bound computed from the maxima of the crate's other
  modes.
\<close>

definition sibling_modes ::
  "('r ledger \<Rightarrow> string \<Rightarrow> string \<Rightarrow> u64) \<Rightarrow> 'r ledger \<Rightarrow> string \<Rightarrow> u64 \<Rightarrow> (u64 \<times> u64) list" where
  "sibling_modes bound_of l name d =
     List.map_filter (\<lambda>(key, w).
       if starts_with (mode_prefix name) key \<and> w \<noteq> []
       then map_option (\<lambda>c. (list_max w, c)) (compile_window_charge bound_of l name key d)
       else None) (memory_windows l)"

definition sibling_charge ::
  "('r ledger \<Rightarrow> string \<Rightarrow> string \<Rightarrow> u64) \<Rightarrow> ('r ledger \<Rightarrow> u64 list \<Rightarrow> u64) \<Rightarrow>
   'r ledger \<Rightarrow> string \<Rightarrow> u64 \<Rightarrow> u64 option" where
  "sibling_charge bound_of sibling_bound l name d =
     (let modes = sibling_modes bound_of l name d
      in if modes = [] then None
         else
           (let c = max (list_max (map snd modes)) (sibling_bound l (map fst modes));
                cap = (case bt_get (crates l) name of Some p \<Rightarrow> Some p | None \<Rightarrow> default_charge d)
            in Some (case cap of None \<Rightarrow> c | Some cap \<Rightarrow> min c cap)))"

definition compile_prediction ::
  "('r ledger \<Rightarrow> string \<Rightarrow> string \<Rightarrow> u64) \<Rightarrow> ('r ledger \<Rightarrow> u64 list \<Rightarrow> u64) \<Rightarrow>
   'r ledger \<Rightarrow> string \<Rightarrow> string \<Rightarrow> u64 \<Rightarrow> u64 option \<times> string" where
  "compile_prediction bound_of sibling_bound l name key d =
     (case compile_window_charge bound_of l name key d of
        Some c \<Rightarrow> (Some c, ''window'')
      | None \<Rightarrow>
          if bt_get (crates l) key \<noteq> None then (previous_compile_charge l name key, ''legacy'')
          else (case sibling_charge bound_of sibling_bound l name d of
              Some c \<Rightarrow> (Some c, ''sibling'')
            | None \<Rightarrow>
                (case bt_get (crates l) name of
                   Some peak \<Rightarrow> (Some peak, ''legacy'')
                 | None \<Rightarrow> (None, ''default''))))"

definition link_prediction ::
  "('r ledger \<Rightarrow> string \<Rightarrow> string \<Rightarrow> u64) \<Rightarrow> 'r ledger \<Rightarrow> string \<Rightarrow> string option \<Rightarrow> u64 \<Rightarrow>
   u64 option \<times> string" where
  "link_prediction bound_of l key profile lowest =
     (let window = (case profile of
            Some pr \<Rightarrow> unwrap_or (bt_get (profile_link_peaks l) pr) []
          | None \<Rightarrow> link_peaks l);
          fallback = (case bt_get (crates l) key of
              Some peak \<Rightarrow> (peak, ''legacy'')
            | None \<Rightarrow> if window = [] then (lowest, ''link-floor'') else (list_max window, ''link-window''))
      in case estimate bound_of l key ''link'' of
           Some e \<Rightarrow> (Some (warm_up_charge l ''link'' e (Some (fst fallback))), ''window'')
         | None \<Rightarrow> (Some (fst fallback), snd fallback))"

section \<open>Bounds\<close>

definition windows_ok :: "nat \<Rightarrow> (string, u64 list) btree_map \<Rightarrow> bool" where
  "windows_ok limit m \<longleftrightarrow>
     bt_inv m \<and> length m \<le> MAX_LEDGER_ENTRIES \<and> (\<forall>k w. bt_get m k = Some w \<longrightarrow> length w \<le> limit)"

lemma windows_ok_Nil [simp]: "windows_ok limit []"
  by (simp add: windows_ok_def)

text \<open>Everything the ledger holds is bounded; sample counts only exist for recorded peaks.\<close>

definition ledger_bounded :: "'r ledger \<Rightarrow> bool" where
  "ledger_bounded l \<longleftrightarrow>
     ledger_inv l \<and> windows_ok WINDOW (memory_windows l) \<and>
     windows_ok MAX_LINK_SAMPLES (profile_link_peaks l) \<and> length (link_peaks l) \<le> MAX_LINK_SAMPLES \<and>
     length (ledger_cpus l) \<le> MAX_LEDGER_ENTRIES \<and> length (crates l) \<le> MAX_LEDGER_ENTRIES \<and>
     dom (bt_get (compile_samples l)) \<subseteq> dom (bt_get (crates l))"

text \<open>Peaks of keys that both ledgers hold are not lowered.\<close>

definition never_lower :: "(string, u64) btree_map \<Rightarrow> (string, u64) btree_map \<Rightarrow> bool" where
  "never_lower m m' \<longleftrightarrow> (\<forall>k v v'. bt_get m k = Some v \<longrightarrow> bt_get m' k = Some v' \<longrightarrow> v \<le> v')"

lemma never_lower_refl [simp]: "never_lower m m"
  by (simp add: never_lower_def)

lemma map_of_drop: "distinct (map fst m) \<Longrightarrow> map_of (drop n m) k = Some v \<Longrightarrow> map_of m k = Some v"
  by (metis in_set_dropD map_of_SomeD map_of_is_SomeI)

lemma windows_ok_pop:
  assumes "bt_inv m" "\<forall>k w. bt_get m k = Some w \<longrightarrow> length w \<le> limit"
  shows "windows_ok limit (pop_to MAX_LEDGER_ENTRIES m)"
  using assms map_of_drop [OF bt_inv_distinct [OF assms(1)]]
  unfolding windows_ok_def by (auto simp: pop_to_inv length_pop_to) (metis pop_to_def)

lemma windows_ok_entry_le:
  "windows_ok limit m \<Longrightarrow> bt_inv (bt_insert k (push_window limit x w) m) \<and>
   (\<forall>k' w'. bt_get (bt_insert k (push_window limit x w) m) k' = Some w' \<longrightarrow> length w' \<le> limit)"
  by (auto simp: windows_ok_def length_push_window split: if_splits)

lemma windows_ok_push:
  assumes "windows_ok limit m"
  shows "windows_ok limit (evict_smallest rank MAX_LEDGER_ENTRIES (bt_insert k (push_window limit x w) m))"
  unfolding windows_ok_def
  using windows_ok_entry_le [OF assms, of k x w]
  by (auto simp: evict_smallest_inv evict_smallest_length simp del: bt_get_insert
      dest: evict_smallest_get [rotated])

lemma trim_loop_spec:
  "bt_inv peaks \<Longrightarrow> bt_inv samples \<Longrightarrow> trim_loop peaks samples = (peaks', samples') \<Longrightarrow>
   bt_inv peaks' \<and> bt_inv samples' \<and> length peaks' \<le> MAX_LEDGER_ENTRIES \<and>
   (\<forall>k v. bt_get peaks' k = Some v \<longrightarrow> bt_get peaks k = Some v)"
proof (induction peaks samples arbitrary: peaks' samples' rule: trim_loop.induct)
  case (1 peaks samples)
  show ?case
  proof (cases "length peaks \<le> MAX_LEDGER_ENTRIES")
    case True
    then show ?thesis using 1(2-4) by (simp add: trim_loop.simps [of peaks samples])
  next
    case False
    then obtain k v where min: "min_by_key snd peaks = Some (k, v)"
      by (cases "min_by_key snd peaks") (auto simp del: min_by_key.simps)
    let ?m = "filter (\<lambda>(x, _). \<not> starts_with (mode_prefix k) x) (bt_remove k peaks)"
    have "trim_loop ?m (bt_remove k samples) = (peaks', samples')"
      using 1(4) False min by (simp add: trim_loop.simps [of peaks samples])
    from 1(1) [OF False min refl _ _ this] 1(2,3) have
      rest: "bt_inv peaks' \<and> bt_inv samples' \<and> length peaks' \<le> MAX_LEDGER_ENTRIES"
        "\<forall>x v. bt_get peaks' x = Some v \<longrightarrow> bt_get ?m x = Some v"
      by (auto intro: bt_inv_filter)
    have "bt_get ?m x = Some v \<Longrightarrow> bt_get peaks x = Some v" for x v
    proof -
      assume "bt_get ?m x = Some v"
      then have "(x, v) \<in> set (bt_remove k peaks)" by (auto dest: map_of_SomeD)
      then have "bt_get (bt_remove k peaks) x = Some v"
        using 1(2) by (simp add: bt_inv_distinct del: bt_get_remove)
      then show "bt_get peaks x = Some v" using 1(2) by (simp split: if_splits)
    qed
    with rest show ?thesis by blast
  qed
qed

lemma trim_compile_ledger_simps [simp]:
  "memory_windows (trim_compile_ledger l) = memory_windows l"
  "profile_link_peaks (trim_compile_ledger l) = profile_link_peaks l"
  "link_peaks (trim_compile_ledger l) = link_peaks l"
  "ledger_cpus (trim_compile_ledger l) = ledger_cpus l"
  "memory_residuals (trim_compile_ledger l) = memory_residuals l"
  by (auto simp: trim_compile_ledger_def split: prod.split)

lemma trim_compile_ledger_crates:
  assumes "bt_inv (crates l)" "bt_inv (compile_samples l)"
  shows "bt_inv (crates (trim_compile_ledger l))" "bt_inv (compile_samples (trim_compile_ledger l))"
    "length (crates (trim_compile_ledger l)) \<le> MAX_LEDGER_ENTRIES"
    "dom (bt_get (compile_samples (trim_compile_ledger l))) \<subseteq> dom (bt_get (crates (trim_compile_ledger l)))"
    "bt_get (crates (trim_compile_ledger l)) k = Some v \<Longrightarrow> bt_get (crates l) k = Some v"
proof -
  obtain peaks samples where loop: "trim_loop (crates l) (compile_samples l) = (peaks, samples)"
    by (cases "trim_loop (crates l) (compile_samples l)")
  note spec = trim_loop_spec [OF assms loop]
  from spec loop show "bt_inv (crates (trim_compile_ledger l))"
    "bt_inv (compile_samples (trim_compile_ledger l))"
    "length (crates (trim_compile_ledger l)) \<le> MAX_LEDGER_ENTRIES"
    "bt_get (crates (trim_compile_ledger l)) k = Some v \<Longrightarrow> bt_get (crates l) k = Some v"
    by (auto simp: trim_compile_ledger_def intro: bt_inv_filter)
  show "dom (bt_get (compile_samples (trim_compile_ledger l))) \<subseteq> dom (bt_get (crates (trim_compile_ledger l)))"
    using loop by (auto simp: trim_compile_ledger_def dest!: map_of_SomeD)
qed

lemma update_legacy_link_fields:
  assumes "update_legacy_link name peak links profile l = (changed, l')"
  shows "memory_windows l' = memory_windows l" "ledger_cpus l' = ledger_cpus l"
    "compile_samples l' = compile_samples l" "memory_residuals l' = memory_residuals l"
  using assms by (auto simp: update_legacy_link_def Let_def split: if_splits option.splits)

lemma update_legacy_link_crates:
  assumes "update_legacy_link name peak links profile l = (changed, l')" "bt_inv (crates l)"
  shows "bt_inv (crates l') \<and> never_lower (crates l) (crates l')"
  using assms by (auto simp: update_legacy_link_def Let_def never_lower_def split: if_splits option.splits)

lemma update_legacy_link_windows:
  assumes "update_legacy_link name peak links profile l = (changed, l')"
    "windows_ok MAX_LINK_SAMPLES (profile_link_peaks l)" "length (link_peaks l) \<le> MAX_LINK_SAMPLES"
  shows "windows_ok MAX_LINK_SAMPLES (profile_link_peaks l') \<and> length (link_peaks l') \<le> MAX_LINK_SAMPLES"
proof -
  have "windows_ok MAX_LINK_SAMPLES (pop_to MAX_LEDGER_ENTRIES
      (bt_insert pr (push_window MAX_LINK_SAMPLES peak w) (profile_link_peaks l)))" for pr w
    using windows_ok_entry_le [OF assms(2), of pr peak w] by (intro windows_ok_pop) auto
  moreover have "windows_ok MAX_LINK_SAMPLES (pop_to MAX_LEDGER_ENTRIES (profile_link_peaks l))"
    using assms(2) by (intro windows_ok_pop) (auto simp: windows_ok_def)
  ultimately show ?thesis
    using assms length_push_window [of MAX_LINK_SAMPLES]
    by (auto simp: update_legacy_link_def Let_def split: if_splits option.splits)
qed

lemma raise_fields [simp]:
  "memory_windows (raise_bare name peak l) = memory_windows l"
  "ledger_cpus (raise_bare name peak l) = ledger_cpus l"
  "profile_link_peaks (raise_bare name peak l) = profile_link_peaks l"
  "link_peaks (raise_bare name peak l) = link_peaks l"
  "memory_residuals (raise_bare name peak l) = memory_residuals l"
  "compile_samples (raise_bare name peak l) = compile_samples l"
  "memory_windows (raise_mode key p c l) = memory_windows l"
  "ledger_cpus (raise_mode key p c l) = ledger_cpus l"
  "profile_link_peaks (raise_mode key p c l) = profile_link_peaks l"
  "link_peaks (raise_mode key p c l) = link_peaks l"
  "memory_residuals (raise_mode key p c l) = memory_residuals l"
  by (simp_all add: raise_bare_def raise_mode_def Let_def split: option.split)

lemma raise_bare_crates:
  "bt_inv (crates l) \<Longrightarrow> bt_inv (crates (raise_bare name peak l)) \<and>
   (\<forall>k v. bt_get (crates l) k = Some v \<longrightarrow> (\<exists>v'. bt_get (crates (raise_bare name peak l)) k = Some v' \<and> v \<le> v'))"
  by (auto simp: raise_bare_def Let_def split: option.split)

lemma raise_mode_crates:
  "bt_inv (crates l) \<Longrightarrow> bt_inv (crates (raise_mode key p c l)) \<and>
   (\<forall>k v. bt_get (crates l) k = Some v \<longrightarrow> (\<exists>v'. bt_get (crates (raise_mode key p c l)) k = Some v' \<and> v \<le> v'))"
  by (auto simp: raise_mode_def Let_def split: option.split)

lemma raise_mode_samples: "bt_inv (compile_samples l) \<Longrightarrow> bt_inv (compile_samples (raise_mode key p c l))"
  by (simp add: raise_mode_def Let_def)

lemma update_legacy_compile_cases:
  assumes "update_legacy_compile name key measured peak succeeded oom l = (changed, l')"
  obtains "\<not> changed" "l' = l"
  | "\<not> changed" "l' = raise_bare name peak l"
  | c where "changed" "l' = raise_mode key (unwrap_or peak measured) c (raise_bare name peak l)"
  using assms by (auto simp: update_legacy_compile_def Let_def split: if_splits)

lemma update_legacy_compile_fields:
  assumes "update_legacy_compile name key measured peak succeeded oom l = (changed, l')"
  shows "memory_windows l' = memory_windows l" "ledger_cpus l' = ledger_cpus l"
    "profile_link_peaks l' = profile_link_peaks l" "link_peaks l' = link_peaks l"
    "memory_residuals l' = memory_residuals l"
  using assms by (cases rule: update_legacy_compile_cases; simp)+

lemma update_legacy_compile_crates:
  assumes "update_legacy_compile name key measured peak succeeded oom l = (changed, l')"
    "bt_inv (crates l)" "bt_inv (compile_samples l)"
  shows "bt_inv (crates l') \<and> bt_inv (compile_samples l') \<and> never_lower (crates l) (crates l')"
proof -
  note bare = raise_bare_crates [OF assms(2), of name peak]
  have mode: "bt_inv (crates (raise_mode key p c (raise_bare name peak l))) \<and>
      (\<forall>k v. bt_get (crates l) k = Some v \<longrightarrow>
        (\<exists>v'. bt_get (crates (raise_mode key p c (raise_bare name peak l))) k = Some v' \<and> v \<le> v'))" for p c
    using raise_mode_crates [OF bare [THEN conjunct1], of key p c] bare by (meson order_trans)
  show ?thesis
    using assms(1)
  proof (cases rule: update_legacy_compile_cases)
    case 1
    then show ?thesis using assms by simp
  next
    case 2
    then show ?thesis using bare assms(3) by (fastforce simp: never_lower_def)
  next
    case (3 c)
    then show ?thesis
      using mode [of "unwrap_or peak measured" c] assms(3)
      by (fastforce simp: never_lower_def raise_mode_samples)
  qed
qed

lemma memory_record_fields [simp]:
  "crates (memory_record fs sc key kind peak features calibrate l) = crates l"
  "compile_samples (memory_record fs sc key kind peak features calibrate l) = compile_samples l"
  "ledger_cpus (memory_record fs sc key kind peak features calibrate l) = ledger_cpus l"
  "profile_link_peaks (memory_record fs sc key kind peak features calibrate l) = profile_link_peaks l"
  "link_peaks (memory_record fs sc key kind peak features calibrate l) = link_peaks l"
  by (auto simp: memory_record_def Let_def split: option.split)

lemma memory_record_ok:
  assumes "ledger_bounded l"
  shows "windows_ok WINDOW (memory_windows (memory_record fs sc key kind peak features calibrate l))"
    "bt_inv (memory_residuals (memory_record fs sc key kind peak features calibrate l))"
  using assms windows_ok_push [of WINDOW "memory_windows l" list_max key peak]
  by (auto simp: memory_record_def Let_def trim_windows_def ledger_bounded_def ledger_inv_def
      split: option.split)

lemma record_sibling_fields [simp]:
  "crates (record_sibling fs sc peak features calibrate l) = crates l"
  "compile_samples (record_sibling fs sc peak features calibrate l) = compile_samples l"
  "ledger_cpus (record_sibling fs sc peak features calibrate l) = ledger_cpus l"
  "profile_link_peaks (record_sibling fs sc peak features calibrate l) = profile_link_peaks l"
  "link_peaks (record_sibling fs sc peak features calibrate l) = link_peaks l"
  "memory_windows (record_sibling fs sc peak features calibrate l) = memory_windows l"
  "memory_residuals (record_sibling fs sc peak features calibrate l) = memory_residuals l"
  by (auto simp: record_sibling_def split: option.split)

lemma bounded_record_sibling [simp]:
  "ledger_bounded (record_sibling fs sc peak features calibrate l) = ledger_bounded l"
  by (simp add: ledger_bounded_def ledger_inv_def)

lemma bounded_memory_record [simp]:
  "ledger_bounded l \<Longrightarrow> ledger_bounded (memory_record fs sc key kind peak features calibrate l)"
  using memory_record_ok [of l fs sc key kind peak features calibrate]
  by (auto simp: ledger_bounded_def ledger_inv_def windows_ok_def)

text \<open>Storing an updated ledger: the version is set and the legacy part trimmed.\<close>

lemma store_ok:
  assumes "ledger_bounded l" "bt_inv (crates l')" "bt_inv (compile_samples l')"
    "windows_ok WINDOW (memory_windows l')" "windows_ok MAX_LINK_SAMPLES (profile_link_peaks l')"
    "length (link_peaks l') \<le> MAX_LINK_SAMPLES" "ledger_cpus l' = ledger_cpus l"
    "bt_inv (memory_residuals l')" "never_lower (crates l) (crates l')"
  shows "ledger_bounded (trim_compile_ledger (l'\<lparr>ledger_version := LEDGER_VERSION\<rparr>)) \<and>
    never_lower (crates l) (crates (trim_compile_ledger (l'\<lparr>ledger_version := LEDGER_VERSION\<rparr>)))"
proof -
  let ?l = "l'\<lparr>ledger_version := LEDGER_VERSION\<rparr>"
  have inv: "bt_inv (crates ?l)" "bt_inv (compile_samples ?l)" using assms by simp_all
  note trimmed = trim_compile_ledger_crates [OF inv]
  have "ledger_bounded (trim_compile_ledger ?l)"
    using assms trimmed(1-4) by (auto simp: ledger_bounded_def ledger_inv_def windows_ok_def)
  moreover have "never_lower (crates l) (crates (trim_compile_ledger ?l))"
    using assms(9) trimmed(5) by (fastforce simp: never_lower_def)
  ultimately show ?thesis ..
qed

lemma learn_compile_fields [simp]:
  "crates (learn_compile fs sc ft key mf sf sample c l) = crates l"
  "ledger_cpus (learn_compile fs sc ft key mf sf sample c l) = ledger_cpus l"
  "ledger_bounded l \<Longrightarrow> ledger_bounded (learn_compile fs sc ft key mf sf sample c l)"
  by (simp_all add: learn_compile_def Let_def split: option.split)

lemma learn_link_fields [simp]:
  "crates (learn_link fs sc ft name sample l) = crates l"
  "ledger_cpus (learn_link fs sc ft name sample l) = ledger_cpus l"
  "ledger_bounded l \<Longrightarrow> ledger_bounded (learn_link fs sc ft name sample l)"
  by (simp_all add: learn_link_def split: option.split)

lemma record_compile_cases:
  assumes "record_compile fs sc ft bpp name mode counts mf sf measured oom succeeded before l = Some l'"
  obtains key sample peak changed l2 ok c where
    "update_legacy_compile name key measured peak ok oom (learn_compile fs sc ft key mf sf sample c l) = (changed, l2)"
    "l' = trim_compile_ledger (l2\<lparr>ledger_version := LEDGER_VERSION\<rparr>)"
proof (cases mode)
  case (Some key)
  let ?ok = "succeeded \<and> counts"
  let ?peak = "ledger_peak measured oom False ?ok bpp"
  let ?sample = "if oom then ?peak else if ?ok \<and> measured > 0 then Some measured else None"
  obtain changed l2 where upd: "update_legacy_compile name key measured ?peak ?ok oom
      (learn_compile fs sc ft key mf sf ?sample (?ok \<and> \<not> oom) l) = (changed, l2)" by fastforce
  show ?thesis
  proof (rule that [OF upd])
    show "l' = trim_compile_ledger (l2\<lparr>ledger_version := LEDGER_VERSION\<rparr>)"
      using assms unfolding record_compile_def Some option.case Let_def upd prod.case
      by (simp split: if_splits)
  qed
qed (use assms in \<open>simp add: record_compile_def\<close>)

lemma record_compile_ok:
  assumes "ledger_bounded l"
    and "record_compile fs sc ft bpp name mode counts mf sf measured oom succeeded before l = Some l'"
  shows "ledger_bounded l' \<and> never_lower (crates l) (crates l')"
  using assms(2)
proof (cases rule: record_compile_cases)
  case (1 key sample peak changed l2 ok c)
  let ?l1 = "learn_compile fs sc ft key mf sf sample c l"
  have b: "ledger_bounded ?l1" using assms(1) by simp
  then have inv: "bt_inv (crates ?l1)" "bt_inv (compile_samples ?l1)"
    by (simp_all add: ledger_bounded_def ledger_inv_def)
  show ?thesis
    unfolding 1(2)
    using update_legacy_compile_crates [OF 1(1) inv] update_legacy_compile_fields [OF 1(1)] b assms(1)
    by (intro store_ok) (auto simp: ledger_bounded_def ledger_inv_def)
qed

lemma record_link_ok:
  assumes "ledger_bounded l"
    and "record_link_measurement fs sc ft name peak links profile sample l = Some l'"
  shows "ledger_bounded l' \<and> never_lower (crates l) (crates l')"
proof -
  let ?l1 = "learn_link fs sc ft name (if links then sample else None) l"
  have b: "ledger_bounded ?l1" using assms(1) by simp
  obtain changed l2 where
    upd: "(case peak of None \<Rightarrow> (False, ?l1) | Some p \<Rightarrow> update_legacy_link name p links profile ?l1) = (changed, l2)"
    by fastforce
  then have l': "l' = trim_compile_ledger (l2\<lparr>ledger_version := LEDGER_VERSION\<rparr>)"
    using assms(2) unfolding record_link_measurement_def Let_def upd prod.case by (simp split: if_splits)
  have l2: "bt_inv (crates l2) \<and> never_lower (crates l) (crates l2) \<and>
      windows_ok MAX_LINK_SAMPLES (profile_link_peaks l2) \<and> length (link_peaks l2) \<le> MAX_LINK_SAMPLES \<and>
      memory_windows l2 = memory_windows ?l1 \<and> ledger_cpus l2 = ledger_cpus l \<and>
      compile_samples l2 = compile_samples ?l1 \<and> memory_residuals l2 = memory_residuals ?l1"
  proof (cases peak)
    case None
    then show ?thesis using upd b by (auto simp: ledger_bounded_def ledger_inv_def)
  next
    case (Some p)
    with upd have u: "update_legacy_link name p links profile ?l1 = (changed, l2)" by simp
    from update_legacy_link_fields [OF u] update_legacy_link_crates [OF u]
      update_legacy_link_windows [OF u] b
    show ?thesis by (auto simp: ledger_bounded_def ledger_inv_def)
  qed
  show ?thesis
    unfolding l' using l2 b assms(1)
    by (intro store_ok) (auto simp: ledger_bounded_def ledger_inv_def)
qed

lemma record_cpu_ok:
  assumes "ledger_bounded l" "record_cpu name cores l = Some l'"
  shows "ledger_bounded l' \<and> never_lower (crates l) (crates l') \<and> never_lower (ledger_cpus l) (ledger_cpus l')"
proof -
  have inv: "bt_inv (ledger_cpus l)" using assms(1) by (simp add: ledger_bounded_def ledger_inv_def)
  from assms(2) have
    new: "\<not> (\<exists>known \<ge> cores. bt_get (ledger_cpus l) name = Some known)" and
    l': "l' = l\<lparr>ledger_version := LEDGER_VERSION,
      ledger_cpus := evict_smallest id MAX_LEDGER_ENTRIES (bt_insert name cores (ledger_cpus l))\<rparr>"
    by (auto simp: record_cpu_def split: if_splits option.splits)
  have "never_lower (ledger_cpus l) (ledger_cpus l')"
    unfolding never_lower_def
  proof (intro allI impI)
    fix k v v' assume v: "bt_get (ledger_cpus l) k = Some v" "bt_get (ledger_cpus l') k = Some v'"
    from evict_smallest_get [of "bt_insert name cores (ledger_cpus l)" id MAX_LEDGER_ENTRIES k v'] v(2) inv
    have "bt_get (bt_insert name cores (ledger_cpus l)) k = Some v'" by (simp add: l')
    then have "k = name \<and> v' = cores \<or> k \<noteq> name \<and> v' = v" using v(1) inv by (auto split: if_splits)
    with v(1) new show "v \<le> v'" by (metis nle_le)
  qed
  then show ?thesis
    using assms(1) inv
    by (auto simp: l' ledger_bounded_def ledger_inv_def evict_smallest_inv evict_smallest_length)
qed

section \<open>Properties\<close>

text \<open>The ways a ledger file changes; the arguments of a recording are arbitrary.\<close>

inductive ledger_step :: "'r ledger \<Rightarrow> 'r ledger \<Rightarrow> bool" where
  compile: "record_compile fs sc ft bpp name mode counts mf sf measured oom succeeded before l = Some l' \<Longrightarrow>
    ledger_step l l'"
| link: "record_link_measurement fs sc ft name peak links profile sample l = Some l' \<Longrightarrow> ledger_step l l'"
| cpu: "record_cpu name cores l = Some l' \<Longrightarrow> ledger_step l l'"

interpretation books: guarded_steps ledger_step "\<lambda>l. l = empty_ledger" ledger_bounded
proof
  show "ledger_bounded l" if "l = empty_ledger" for l :: "'r ledger"
    using that by (simp add: ledger_bounded_def empty_ledger_def ledger_inv_def)
  show "ledger_bounded l'" if "ledger_step l l'" "ledger_bounded l" for l l' :: "'r ledger"
    using that by (cases rule: ledger_step.cases) (auto dest: record_compile_ok record_link_ok record_cpu_ok)
qed

text \<open>
  C10. The ledger stays small and consistent. Whatever sequence of compilations, links and test
  runs is recorded, starting from an empty ledger: at most 1024 peaks, windows, link profiles and
  core counts, at most sixteen measurements in each window, every map well formed, and no sample
  count without the peak it vouches for, so an evicted peak never authorises a later low reading.
\<close>

theorem ledger_always_bounded:
  assumes "ledger_step\<^sup>*\<^sup>* empty_ledger l"
  shows "ledger_bounded l"
  using books.reached_holds [OF assms] by simp

lemma one_link_step: "ledger_step (empty_ledger :: nat ledger)
  (empty_ledger\<lparr>ledger_version := 1, crates := [(''a [link]'', 7)], link_peaks := [7]\<rparr>)"
proof (rule ledger_step.link)
  show "record_link_measurement (\<lambda>_ :: nat. True) (\<lambda>_ _. None) (\<lambda>_ _ _. None) ''a [link]'' (Some 7) True None None
      empty_ledger = Some (empty_ledger\<lparr>ledger_version := 1, crates := [(''a [link]'', 7)], link_peaks := [7]\<rparr>)"
    by (simp add: record_link_measurement_def learn_link_def update_legacy_link_def empty_ledger_def Let_def
        push_window_def MAX_LINK_SAMPLES_def pop_to_def trim_compile_ledger_def trim_loop.simps
        MAX_LEDGER_ENTRIES_def LEDGER_VERSION_def)
qed

theorem ledger_always_bounded_witness:
  "ledger_bounded (empty_ledger\<lparr>ledger_version := 1, crates := [(''a [link]'', 7)], link_peaks := [7]\<rparr> :: nat ledger)"
  by (rule ledger_always_bounded, rule r_into_rtranclp) (rule one_link_step)

text \<open>
  A recorded peak is never lowered: whatever is recorded next, a key that is still in the
  ledger afterwards has a peak at least as high, and recording core counts never lowers one either.
\<close>

theorem recorded_peak_never_lowered:
  assumes "ledger_bounded l" and "ledger_step l l'"
    and "bt_get (crates l) key = Some v" and "bt_get (crates l') key = Some v'"
  shows "v \<le> v'"
proof -
  from assms(2,1) have "never_lower (crates l) (crates l')"
    by (cases rule: ledger_step.cases) (auto dest: record_compile_ok record_link_ok record_cpu_ok)
  with assms(3,4) show ?thesis unfolding never_lower_def by blast
qed

theorem recorded_peak_never_lowered_witness:
  "\<exists>l l' :: nat ledger. ledger_step l l' \<and> bt_get (crates l) ''a'' = Some 5 \<and>
     bt_get (crates l') ''a'' = Some 9 \<and> 5 \<le> (9 :: nat)"
proof -
  let ?l = "empty_ledger\<lparr>crates := [(''a'', 5)]\<rparr> :: nat ledger"
  let ?l' = "empty_ledger\<lparr>ledger_version := 1, crates := [(''a'', 9)]\<rparr> :: nat ledger"
  have "record_link_measurement (\<lambda>_ :: nat. True) (\<lambda>_ _. None) (\<lambda>_ _ _. None) ''a'' (Some 9) False None None ?l
      = Some ?l'"
    by (simp add: record_link_measurement_def learn_link_def update_legacy_link_def empty_ledger_def Let_def
        trim_compile_ledger_def trim_loop.simps MAX_LEDGER_ENTRIES_def LEDGER_VERSION_def)
  then have step: "ledger_step ?l ?l'" by (rule ledger_step.link)
  have "ledger_bounded ?l"
    by (simp add: ledger_bounded_def empty_ledger_def ledger_inv_def MAX_LEDGER_ENTRIES_def)
  from recorded_peak_never_lowered [OF this step, of "''a''" 5 9] step show ?thesis
    by (intro exI [of _ ?l] exI [of _ ?l']) simp
qed

text \<open>
  A killed compiler comes back heavier: the peak recorded for one the kernel killed is past
  one permit and at least twice what was measured (up to the largest number), whatever else is
  known about the run, so at the next admission its legacy weight is at least two permits.
\<close>

lemma killed_retry_weighs_more:
  assumes "0 < bpp" and "bpp < u64_max" and "measured \<le> u64_max"
  shows "\<exists>p. ledger_peak measured True links succeeded bpp = Some p \<and> bpp < p \<and>
    min (2 * measured) u64_max \<le> p \<and> p \<le> u64_max \<and> 2 \<le> div_ceil p bpp"
proof -
  let ?p = "max (saturating_mul measured 2) (saturating_add bpp 1)"
  have p: "bpp < ?p" "min (2 * measured) u64_max \<le> ?p" "?p \<le> u64_max"
    using assms by (auto simp: saturating_mul_def saturating_add_def min_def max_def)
  have "\<not> div_ceil ?p bpp \<le> 1"
    unfolding div_ceil_le_iff [OF assms(1)] using p(1) by linarith
  then have "2 \<le> div_ceil ?p bpp" by linarith
  with p show ?thesis by (auto simp: ledger_peak_def)
qed


lemma list_max_ge: "p \<in> set w \<Longrightarrow> p \<le> list_max w"
proof -
  have "n \<le> foldl max n w \<and> (\<forall>x \<in> set w. x \<le> foldl max n w)" for n :: nat
  proof (induction w arbitrary: n)
    case (Cons a w)
    from Cons [of "max n a"] show ?case by auto
  qed simp
  then show "p \<in> set w \<Longrightarrow> p \<le> list_max w" by (simp add: list_max_def)
qed

lemma warm_up_charge_bounds:
  assumes "estimate bound_of l key kind = Some e"
  shows "window_max e \<le> warm_up_charge l kind e previous \<and> warm_up_charge l kind e previous \<le> charge e"
  using assms
  by (auto simp: warm_up_charge_def estimate_def split: option.splits if_splits)


definition three_runs :: "nat ledger" where
  "three_runs = empty_ledger\<lparr>memory_windows := [(''a [compile x]'', [3, 9, 4])]\<rparr>"


end
