(* ===== verification/Memory_Statistics.thy ===== *)
theory Memory_Statistics
  imports Complex_Main Ledger
begin

text \<open>
  The statistics behind a memory charge (\<open>scheduler_memory.rs\<close>) with the real numbers for
  \<open>f64\<close>: moments of logarithms, pooled spreads, the finite-sample conformal rank and the bound of
  a window or of a crate's other modes. They are the concrete \<open>score\<close>, \<open>features_of\<close>,
  \<open>bound_of\<close> and \<open>sibling_bound\<close> of the ledger theory. \<open>prepare\<close> is what reading a
  ledger does before anything uses it; the spreads it derives and stores are recomputed here from the
  windows, which do not change between a read and an estimate.
\<close>

section \<open>Constants\<close>

definition MIN_RESIDUALS :: nat where "MIN_RESIDUALS = 50"
definition NU0 :: nat where "NU0 = 4"
definition DEFAULT_SIGMA_POOL :: real where "DEFAULT_SIGMA_POOL = 0.5"
definition TARGET_P :: real where "TARGET_P = 0.95"
definition NORMAL_QUANTILE :: real where "NORMAL_QUANTILE = 1.6448536269514715"

definition KINDS :: "string list" where
  "KINDS = [''compile'', ''link'', ''test-binary'', ''nextest-test'']"

definition T_QUANTILES :: "real list" where
  "T_QUANTILES =
     [6.313751514675, 2.919985580354, 2.353363434802, 2.131846786327, 2.015048373333,
      1.943180280515, 1.89457860509, 1.859548037531, 1.833112932656, 1.812461122812,
      1.795884818704, 1.782287555649, 1.770933395987, 1.761310135775, 1.753050355693,
      1.745883676276, 1.739606726075, 1.734063606617, 1.729132811521, 1.724718242921,
      1.720742902812, 1.71714437438, 1.713871527747, 1.710882079909, 1.708140761252,
      1.705617919759, 1.703288445722, 1.701130934266, 1.699127026534, 1.697260886594]"

section \<open>Reading a ledger\<close>

definition clean_window :: "u64 list \<Rightarrow> u64 list" where
  "clean_window w = (let w = filter (\<lambda>p. p > 0) w in drop (length w - WINDOW) w)"

definition windowed_key :: "string \<Rightarrow> bool" where
  "windowed_key key \<longleftrightarrow> contains '' [compile '' key \<or> ends_with '' [link]'' key"

definition prepare :: "('r \<Rightarrow> bool) \<Rightarrow> 'r ledger \<Rightarrow> 'r ledger" where
  "prepare finite_score l =
     l\<lparr>memory_windows := trim_windows
         (filter (\<lambda>(key, w). windowed_key key \<and> w \<noteq> [])
           (map (\<lambda>(key, w). (key, clean_window w)) (memory_windows l))),
       memory_residuals := map (\<lambda>(kind, h). (kind, sanitize_residuals finite_score h))
         (filter (\<lambda>(kind, _). kind \<in> set KINDS) (memory_residuals l)),
       sibling_residuals := sanitize_residuals finite_score (sibling_residuals l)\<rparr>"

text \<open>\<open>None\<close> is a file that cannot be read or does not parse.\<close>

definition read_ledger :: "('r \<Rightarrow> bool) \<Rightarrow> 'r ledger option \<Rightarrow> 'r ledger" where
  "read_ledger finite_score stored = prepare finite_score (unwrap_or stored empty_ledger)"

section \<open>Moments and spreads\<close>

definition moments :: "u64 list \<Rightarrow> real \<times> real" where
  "moments xs =
     (let mean = sum_list (map (\<lambda>p. ln (real p)) xs) / real (length xs);
          variance =
            (if length xs > 1
             then sum_list (map (\<lambda>p. (ln (real p) - mean)\<^sup>2) xs) / real (length xs - 1) else 0)
      in (mean, variance))"

definition pooled_median :: "real list \<Rightarrow> real" where
  "pooled_median xs =
     (if length xs < MIN_POOL_KEYS then DEFAULT_SIGMA_POOL
      else (let ys = sort xs; mid = length ys div 2
            in if even (length ys) then (ys ! (mid - 1) + ys ! mid) / 2 else ys ! mid))"

definition sigma_pool :: "'r ledger \<Rightarrow> string \<Rightarrow> real" where
  "sigma_pool l kind =
     (if kind \<in> set KINDS
      then pooled_median (map (\<lambda>(_, w). sqrt (snd (moments w)))
             (filter (\<lambda>(key, w). length w \<ge> 4 \<and> kind_of key = kind) (memory_windows l)))
      else DEFAULT_SIGMA_POOL)"

text \<open>The text before the first occurrence of a pattern.\<close>

fun before_first :: "'a list \<Rightarrow> 'a list \<Rightarrow> 'a list option" where
  "before_first p [] = (if p = [] then Some [] else None)"
| "before_first p (x # xs) =
     (if starts_with p (x # xs) then Some []
      else map_option (Cons x) (before_first p xs))"

text \<open>The largest peak of every compile mode, grouped by crate in the order of the crates.\<close>

definition mode_maxima :: "'r ledger \<Rightarrow> (string, u64 list) btree_map" where
  "mode_maxima l =
     foldl (\<lambda>m (key, w). case before_first '' [compile '' key of
          Some name \<Rightarrow> bt_insert name (unwrap_or (bt_get m name) [] @ [list_max w]) m
        | None \<Rightarrow> m) [] (memory_windows l)"

definition sibling_spread :: "'r ledger \<Rightarrow> real" where
  "sibling_spread l =
     pooled_median (map (\<lambda>(_, v). sqrt (snd (moments v)))
       (filter (\<lambda>(_, v). length v \<ge> 2) (mode_maxima l)))"

section \<open>Quantiles\<close>

definition conformal_rank :: "nat \<Rightarrow> nat" where
  "conformal_rank n = min (nat \<lceil>TARGET_P * real (n + 1)\<rceil>) n"

definition history_quantile :: "real list \<Rightarrow> nat \<Rightarrow> real" where
  "history_quantile history n =
     (if length history \<ge> MIN_RESIDUALS
      then sort history ! (conformal_rank (length history) - 1)
      else (let df = NU0 + max n 1 - 1
            in if df - 1 < length T_QUANTILES then T_QUANTILES ! (df - 1) else NORMAL_QUANTILE))"

definition kind_scores :: "real ledger \<Rightarrow> string \<Rightarrow> real list" where
  "kind_scores l kind = unwrap_or (bt_get (memory_residuals l) kind) []"

definition quantile :: "real ledger \<Rightarrow> string \<Rightarrow> nat \<Rightarrow> real" where
  "quantile l kind n =
     (let scores = kind_scores l kind; q = history_quantile scores n
      in if length scores < MIN_RESIDUALS
         then q * sigma_pool l kind * sqrt (1 + 1 / real (max n 1)) else q)"

section \<open>Bounds and features\<close>

text \<open>\<open>x.ceil() as u64\<close>: the cast saturates at both ends.\<close>

definition ceil_u64 :: "real \<Rightarrow> u64" where
  "ceil_u64 x = min (nat \<lceil>x\<rceil>) u64_max"

definition shrunk_spread :: "real \<Rightarrow> nat \<Rightarrow> real \<Rightarrow> real" where
  "shrunk_spread pooled n variance =
     sqrt ((real NU0 * pooled\<^sup>2 + real (n - 1) * variance) / real (NU0 + n - 1))"

definition window_quantile :: "real ledger \<Rightarrow> string \<Rightarrow> u64 list \<Rightarrow> real" where
  "window_quantile l kind w =
     (let n = length w; (mean, variance) = moments w;
          s = shrunk_spread (sigma_pool l kind) n variance;
          log_max = ln (real (list_max w))
      in if length (kind_scores l kind) \<ge> MIN_RESIDUALS then quantile l kind n
         else mean + history_quantile [] n * s * sqrt (1 + 1 / real n) - log_max)"

definition window_bound :: "real ledger \<Rightarrow> string \<Rightarrow> string \<Rightarrow> u64" where
  "window_bound l key kind =
     (let w = unwrap_or (bt_get (memory_windows l) key) []
      in ceil_u64 (real (list_max w) * exp (window_quantile l kind w)))"

definition window_features :: "real ledger \<Rightarrow> string \<Rightarrow> string \<Rightarrow> real features option" where
  "window_features l key kind =
     map_option (\<lambda>e. (ln (real (window_max e)), 1)) (estimate window_bound l key kind)"

definition COLD :: "real features" where "COLD = (0, 0)"

definition sibling_features_of :: "real ledger \<Rightarrow> u64 list \<Rightarrow> real features" where
  "sibling_features_of l maxima =
     (let n = length maxima; (mean, variance) = moments maxima;
          spread = shrunk_spread (sibling_spread l) n variance
      in (mean, spread * sqrt (1 + 1 / real n)))"

definition sibling_quantile :: "real ledger \<Rightarrow> nat \<Rightarrow> real" where
  "sibling_quantile l n = history_quantile (sibling_residuals l) n"

definition sibling_bound_of :: "real ledger \<Rightarrow> u64 list \<Rightarrow> u64" where
  "sibling_bound_of l maxima =
     (let (mean, scale) = sibling_features_of l maxima
      in ceil_u64 (exp (mean + sibling_quantile l (length maxima) * scale)))"

definition log_score :: "u64 \<Rightarrow> real features \<Rightarrow> real option" where
  "log_score peak features =
     (if snd features > 0 then Some ((ln (real peak) - fst features) / snd features) else None)"

section \<open>The conformal rank\<close>

lemma conformal_rank_bounds:
  assumes "0 < n"
  shows "0 < conformal_rank n" "conformal_rank n \<le> n" "TARGET_P * real n \<le> real (conformal_rank n)"
proof -
  have pos: "0 < TARGET_P * real (n + 1)" by (simp add: TARGET_P_def)
  then have "0 < nat \<lceil>TARGET_P * real (n + 1)\<rceil>" by simp
  then show "0 < conformal_rank n" using assms by (simp add: conformal_rank_def)
  show "conformal_rank n \<le> n" by (simp add: conformal_rank_def)
  have "TARGET_P * real n \<le> TARGET_P * real (n + 1)" by (simp add: TARGET_P_def)
  also have "\<dots> \<le> real (nat \<lceil>TARGET_P * real (n + 1)\<rceil>)" by linarith
  finally show "TARGET_P * real n \<le> real (conformal_rank n)"
    by (auto simp: conformal_rank_def min_def TARGET_P_def)
qed

lemma sorted_prefix_below:
  assumes "sorted ys" "r < length ys"
  shows "Suc r \<le> length (filter (\<lambda>x. x \<le> ys ! r) ys)"
proof -
  have "\<forall>x \<in> set (take (Suc r) ys). x \<le> ys ! r"
    using assms by (auto simp: in_set_conv_nth sorted_nth_mono)
  then have "filter (\<lambda>x. x \<le> ys ! r) (take (Suc r) ys) = take (Suc r) ys" by (simp add: filter_id_conv)
  then have "Suc r \<le> length (filter (\<lambda>x. x \<le> ys ! r) (take (Suc r) ys))" using assms(2) by simp
  also have "\<dots> \<le> length (filter (\<lambda>x. x \<le> ys ! r) ys)"
    by (metis append_take_drop_id filter_append le_add1 length_append)
  finally show ?thesis .
qed

lemma quantile_covers:
  assumes "MIN_RESIDUALS \<le> length h"
  shows "conformal_rank (length h) \<le> length (filter (\<lambda>r. r \<le> history_quantile h n) h)"
proof -
  have n: "0 < length h" using assms unfolding MIN_RESIDUALS_def by linarith
  let ?r = "conformal_rank (length h) - 1"
  have "Suc ?r \<le> length (filter (\<lambda>x. x \<le> sort h ! ?r) (sort h))"
    using conformal_rank_bounds [OF n] by (intro sorted_prefix_below) auto
  also have "\<dots> = length (filter (\<lambda>x. x \<le> sort h ! ?r) h)"
    by (metis filter_sort length_sort)
  finally show ?thesis
    using assms conformal_rank_bounds(1) [OF n] by (simp add: history_quantile_def)
qed

lemma ceil_u64_mono: "x \<le> y \<Longrightarrow> ceil_u64 x \<le> ceil_u64 y"
  unfolding ceil_u64_def by (intro min.mono nat_mono ceiling_mono order_refl)

lemma length_filter_mono: "(\<And>x. P x \<Longrightarrow> Q x) \<Longrightarrow> length (filter P xs) \<le> length (filter Q xs)"
  by (induction xs) auto

section \<open>Prepared ledgers\<close>

definition prepared :: "('r \<Rightarrow> bool) \<Rightarrow> 'r ledger \<Rightarrow> bool" where
  "prepared finite_score l \<longleftrightarrow>
     length (memory_windows l) \<le> MAX_LEDGER_ENTRIES \<and>
     (\<forall>(key, w) \<in> set (memory_windows l).
        windowed_key key \<and> w \<noteq> [] \<and> length w \<le> WINDOW \<and> (\<forall>p \<in> set w. 0 < p)) \<and>
     (\<forall>(kind, h) \<in> set (memory_residuals l).
        kind \<in> set KINDS \<and> length h \<le> MAX_RESIDUALS \<and> (\<forall>r \<in> set h. finite_score r)) \<and>
     length (sibling_residuals l) \<le> MAX_RESIDUALS \<and> (\<forall>r \<in> set (sibling_residuals l). finite_score r)"

lemma sanitize_id:
  "length h \<le> MAX_RESIDUALS \<Longrightarrow> \<forall>r \<in> set h. finite_score r \<Longrightarrow> sanitize_residuals finite_score h = h"
  by (simp add: sanitize_residuals_def)

lemma sanitize_spec:
  "length (sanitize_residuals finite_score h) \<le> MAX_RESIDUALS"
  "Ball (set (sanitize_residuals finite_score h)) finite_score"
  by (auto simp: sanitize_residuals_def Let_def dest: in_set_dropD)

lemma clean_window_id: "length w \<le> WINDOW \<Longrightarrow> \<forall>p \<in> set w. 0 < p \<Longrightarrow> clean_window w = w"
  by (simp add: clean_window_def)

lemma clean_window_spec: "length (clean_window w) \<le> WINDOW" "p \<in> set (clean_window w) \<Longrightarrow> 0 < p"
  by (auto simp: clean_window_def Let_def dest: in_set_dropD)

lemma evict_smallest_id: "length m \<le> limit \<Longrightarrow> evict_smallest rank limit m = m"
  by (subst evict_smallest.simps) simp

lemma prepare_id:
  assumes "prepared finite_score l"
  shows "prepare finite_score l = l"
proof -
  have "map (\<lambda>(key, w). (key, clean_window w)) (memory_windows l) = memory_windows l"
    using assms by (intro map_idI) (auto simp: prepared_def clean_window_id)
  moreover have "filter (\<lambda>(key, w). windowed_key key \<and> w \<noteq> []) (memory_windows l) = memory_windows l"
    using assms by (intro filter_True) (auto simp: prepared_def)
  moreover have "filter (\<lambda>(kind, _). kind \<in> set KINDS) (memory_residuals l) = memory_residuals l"
    using assms by (intro filter_True) (auto simp: prepared_def)
  moreover have "map (\<lambda>(kind, h). (kind, sanitize_residuals finite_score h)) (memory_residuals l) =
      memory_residuals l"
    using assms by (intro map_idI) (auto simp: prepared_def sanitize_id)
  ultimately show ?thesis
    using assms by (simp add: prepare_def trim_windows_def evict_smallest_id sanitize_id prepared_def)
qed

lemma set_evict_smallest: "set (evict_smallest rank limit m) \<subseteq> set m"
proof (induction rank limit m rule: evict_smallest.induct)
  case (1 rank limit m)
  show ?case
  proof (cases "length m \<le> limit")
    case False
    then obtain k v where min: "min_by_key (\<lambda>(_, v). rank v) m = Some (k, v)"
      by (cases "min_by_key (\<lambda>(_, v). rank v) m") (auto simp del: min_by_key.simps)
    then have "evict_smallest rank limit m = evict_smallest rank limit (bt_remove k m)"
      using False by (subst evict_smallest.simps) simp
    with 1 [OF False min refl] set_bt_remove [of k m] show ?thesis by simp
  qed (simp add: evict_smallest_id)
qed

definition window_entry_ok :: "string \<times> u64 list \<Rightarrow> bool" where
  "window_entry_ok e \<longleftrightarrow> windowed_key (fst e) \<and> snd e \<noteq> [] \<and> length (snd e) \<le> WINDOW \<and> (\<forall>p \<in> set (snd e). 0 < p)"

definition score_entry_ok :: "('r \<Rightarrow> bool) \<Rightarrow> string \<times> 'r list \<Rightarrow> bool" where
  "score_entry_ok finite_score e \<longleftrightarrow>
     fst e \<in> set KINDS \<and> length (snd e) \<le> MAX_RESIDUALS \<and> (\<forall>r \<in> set (snd e). finite_score r)"

lemma sanitized_entry:
  "kind \<in> set KINDS \<Longrightarrow> score_entry_ok finite_score (kind, sanitize_residuals finite_score h)"
  unfolding score_entry_ok_def fst_conv snd_conv by (intro conjI sanitize_spec)

lemma prepared_alt:
  "prepared finite_score l \<longleftrightarrow>
     length (memory_windows l) \<le> MAX_LEDGER_ENTRIES \<and> Ball (set (memory_windows l)) window_entry_ok \<and>
     Ball (set (memory_residuals l)) (score_entry_ok finite_score) \<and>
     length (sibling_residuals l) \<le> MAX_RESIDUALS \<and> Ball (set (sibling_residuals l)) finite_score"
  by (simp add: prepared_def window_entry_ok_def score_entry_ok_def case_prod_beta)

lemma windows_prepared:
  assumes "Ball (set m) window_entry_ok"
  shows "length (trim_windows m) \<le> MAX_LEDGER_ENTRIES \<and> Ball (set (trim_windows m)) window_entry_ok"
  using assms set_evict_smallest [of list_max MAX_LEDGER_ENTRIES m]
  by (auto simp: trim_windows_def evict_smallest_length)

lemma prepare_prepared: "prepared finite_score (prepare finite_score l)"
proof -
  have "Ball (set (filter (\<lambda>(key, w). windowed_key key \<and> w \<noteq> [])
      (map (\<lambda>(key, w). (key, clean_window w)) (memory_windows l)))) window_entry_ok"
    by (auto simp: window_entry_ok_def clean_window_spec)
  note windows = windows_prepared [OF this]
  have "Ball (set (map (\<lambda>(kind, h). (kind, sanitize_residuals finite_score h))
      (filter (\<lambda>(kind, _). kind \<in> set KINDS) (memory_residuals l)))) (score_entry_ok finite_score)"
    by (auto intro: sanitized_entry)
  with windows sanitize_spec [of finite_score "sibling_residuals l"] show ?thesis
    unfolding prepared_alt by (simp add: prepare_def)
qed

lemma push_window_ok:
  assumes "windowed_key key" "0 < peak" "\<forall>p \<in> set w. 0 < p"
  shows "window_entry_ok (key, push_window WINDOW peak w)"
  using assms by (auto simp: window_entry_ok_def push_window_def Let_def WINDOW_def dest: in_set_dropD)

lemma memory_record_prepared:
  assumes "prepared finite_score l" "windowed_key key" "kind \<in> set KINDS"
  shows "prepared finite_score (memory_record finite_score score key kind peak features calibrate l)"
proof (cases "peak = 0")
  case False
  let ?w = "unwrap_or (bt_get (memory_windows l) key) []"
  have "\<forall>p \<in> set ?w. 0 < p"
    using assms(1) by (cases "bt_get (memory_windows l) key")
      (auto simp: prepared_alt window_entry_ok_def dest!: map_of_SomeD)
  then have "window_entry_ok (key, push_window WINDOW peak ?w)"
    using False assms(2) by (intro push_window_ok) auto
  then have "Ball (set (bt_insert key (push_window WINDOW peak ?w) (memory_windows l))) window_entry_ok"
    using assms(1) set_bt_insert [of key "push_window WINDOW peak ?w" "memory_windows l"]
    by (auto simp: prepared_alt)
  note windows = windows_prepared [OF this]
  have "Ball (set (bt_insert kind (sanitize_residuals finite_score h) (memory_residuals l))) (score_entry_ok finite_score)" for h
    using assms(1) set_bt_insert [of kind "sanitize_residuals finite_score h" "memory_residuals l"]
      sanitized_entry [OF assms(3), of finite_score h]
    by (auto simp: prepared_alt)
  with windows assms(1) False show ?thesis
    by (simp add: memory_record_def prepared_alt Let_def split: option.split)
qed (simp add: memory_record_def assms(1))

lemma record_sibling_prepared:
  "prepared finite_score l \<Longrightarrow> prepared finite_score (record_sibling finite_score score peak features calibrate l)"
  using sanitize_spec [of finite_score] by (simp add: record_sibling_def prepared_alt split: option.split)

section \<open>Properties\<close>

text \<open>
  C15. The calibrated charge keeps its promise on the evidence. Once a kind has fifty scores, a key's
  charge is at least its window's largest peak, and at least ninety-five percent of the recorded
  scores -- each the log ratio of a finished run's peak to the window maximum it was admitted
  with -- would, from this window, have stayed within the charge.
\<close>

theorem calibrated_charge_covers_history:
  assumes "estimate window_bound l key kind = Some e"
    and "MIN_RESIDUALS \<le> length (kind_scores l kind)"
  shows "window_max e \<le> charge e \<and>
    TARGET_P * real (length (kind_scores l kind)) \<le>
      real (length (filter (\<lambda>r. ceil_u64 (real (window_max e) * exp r) \<le> charge e) (kind_scores l kind)))"
proof -
  let ?h = "kind_scores l kind" and ?n = "est_n e"
  let ?q = "history_quantile ?h ?n"
  have e: "charge e = max (window_max e) (window_bound l key kind)"
    "window_bound l key kind = ceil_u64 (real (window_max e) * exp ?q)"
    using assms by (auto simp: estimate_def window_bound_def window_quantile_def quantile_def Let_def
        case_prod_beta split: option.splits if_splits)
  have "0 < length ?h" using assms(2) unfolding MIN_RESIDUALS_def by linarith
  then have "TARGET_P * real (length ?h) \<le> real (conformal_rank (length ?h))"
    by (rule conformal_rank_bounds)
  also have "conformal_rank (length ?h) \<le> length (filter (\<lambda>r. r \<le> ?q) ?h)"
    by (rule quantile_covers [OF assms(2)])
  also have "\<dots> \<le> length (filter (\<lambda>r. ceil_u64 (real (window_max e) * exp r) \<le> charge e) ?h)"
  proof (rule length_filter_mono)
    fix r assume "r \<le> ?q"
    then have "ceil_u64 (real (window_max e) * exp r) \<le> ceil_u64 (real (window_max e) * exp ?q)"
      by (intro ceil_u64_mono mult_left_mono) auto
    then show "ceil_u64 (real (window_max e) * exp r) \<le> charge e" by (simp add: e)
  qed
  finally show ?thesis by (simp add: e(1))
qed

definition calibrated_ledger :: "real ledger" where
  "calibrated_ledger = empty_ledger\<lparr>memory_windows := [(''serde [compile x]'', [300, 700])],
     memory_residuals := [(''compile'', replicate 60 0)]\<rparr>"

theorem calibrated_charge_covers_history_witness:
  "\<exists>e. estimate window_bound calibrated_ledger ''serde [compile x]'' ''compile'' = Some e \<and>
     window_max e = 700 \<and> 700 \<le> charge e \<and>
     57 \<le> length (filter (\<lambda>r. ceil_u64 (700 * exp r) \<le> charge e) (replicate 60 0))"
proof -
  obtain e where e: "estimate window_bound calibrated_ledger ''serde [compile x]'' ''compile'' = Some e"
    "window_max e = 700"
    by (simp add: estimate_def calibrated_ledger_def list_max_def)
  have scores: "kind_scores calibrated_ledger ''compile'' = replicate 60 0"
    by (simp add: kind_scores_def calibrated_ledger_def)
  have "MIN_RESIDUALS \<le> length (kind_scores calibrated_ledger ''compile'')"
    by (simp add: scores MIN_RESIDUALS_def)
  from calibrated_charge_covers_history [OF e(1) this] have "700 \<le> charge e"
    "57 \<le> real (length (filter (\<lambda>r. ceil_u64 (700 * exp r) \<le> charge e) (replicate 60 0)))"
    unfolding scores e(2) by (auto simp: TARGET_P_def simp del: filter_replicate)
  with e show ?thesis by (intro exI [of _ e]) (simp del: filter_replicate)
qed

end
