(* ===== verification/Safe_Passing.thy ===== *)
theory Safe_Passing
  imports Mbx_Prelude
begin

text \<open>
  The arithmetic of the scheduler's safe passing rule (\<open>scheduler.rs\<close>: \<open>fits\<close>,
  \<open>add_subset_weight\<close>, \<open>pass_quantized\<close>). A newcomer may pass older waiters only if
  no set of completions that would let an older prefix start is made insufficient by the
  newcomer's charge. The code answers with a bit set of rounded subset sums kept in a vector of
  64-bit words; the theory relates the words to sets of numbers, the numbers to sums of
  subsequences, and proves the rule sound for every unit and exact for unit one.
\<close>

section \<open>Admission of one charge\<close>

definition fits :: "u64 \<Rightarrow> u64 \<Rightarrow> u64 \<Rightarrow> bool" where
  "fits used weight capacity \<longleftrightarrow>
     used = 0 \<or> (case checked_add used weight of Some tot \<Rightarrow> tot \<le> capacity | None \<Rightarrow> False)"

lemma fits_cases:
  "fits used weight capacity \<Longrightarrow> used = 0 \<or> used + weight \<le> capacity"
  by (auto simp: fits_def checked_add_def split: if_splits)

lemma fits_iff:
  "capacity \<le> u64_max \<Longrightarrow> fits used weight capacity \<longleftrightarrow> used = 0 \<or> used + weight \<le> capacity"
  by (auto simp: fits_def checked_add_def)

lemma fits_antimono: "fits used weight capacity \<Longrightarrow> used' \<le> used \<Longrightarrow> fits used' weight capacity"
  by (auto simp: fits_def checked_add_def split: if_splits)

section \<open>Bit sets in 64-bit words\<close>

type_synonym bitset = "64 word list"

text \<open>The numbers a word vector stands for: bit \<open>n mod 64\<close> of word \<open>n div 64\<close>.\<close>

definition members :: "bitset \<Rightarrow> nat set" where
  "members sums = {n. n < 64 * length sums \<and> bit (sums ! (n div 64)) (n mod 64)}"

text \<open>
  The word that \<open>add_subset_weight\<close> ors into position \<open>index\<close>: the word \<open>words\<close>
  places lower shifted left, and the bits carried out of the word below it.
\<close>

definition shifted_word :: "bitset \<Rightarrow> nat \<Rightarrow> nat \<Rightarrow> nat \<Rightarrow> 64 word" where
  "shifted_word sums words shift index =
     (let shifted = push_bit shift (sums ! (index - words))
      in if shift \<noteq> 0 \<and> index > words
         then shifted OR drop_bit (64 - shift) (sums ! (index - words - 1))
         else shifted)"

definition add_subset_weight :: "bitset \<Rightarrow> nat \<Rightarrow> bitset" where
  "add_subset_weight sums weight =
     (let words = weight div 64; shift = weight mod 64
      in fold (\<lambda>index sums. sums[index := sums ! index OR shifted_word sums words shift index])
           (rev [words..<length sums]) sums)"

definition trailing_zeros :: "64 word \<Rightarrow> nat" where
  "trailing_zeros w = (case find (bit w) [0..<64] of Some i \<Rightarrow> i | None \<Rightarrow> 64)"

text \<open>
  The source's \<open>find_map\<close> over \<open>first_word..sums.len()\<close>: the lowest set bit at or above
  \<open>quantized_threshold\<close>.
\<close>

fun find_from :: "bitset \<Rightarrow> nat \<Rightarrow> nat \<Rightarrow> nat list \<Rightarrow> nat option" where
  "find_from sums first_word quantized_threshold [] = None"
| "find_from sums first_word quantized_threshold (index # rest) =
     (let bits = (if index = first_word
                  then sums ! index AND push_bit (quantized_threshold mod 64) (- 1)
                  else sums ! index)
      in if bits \<noteq> 0 then Some (index * 64 + trailing_zeros bits)
         else find_from sums first_word quantized_threshold rest)"

definition first_at_least :: "bitset \<Rightarrow> nat \<Rightarrow> nat option" where
  "first_at_least sums quantized_threshold =
     (let first_word = quantized_threshold div 64
      in find_from sums first_word quantized_threshold [first_word..<length sums])"

subsection \<open>The words and their members\<close>

lemma shifted_word_cong:
  assumes "\<And>i. i \<le> index \<Longrightarrow> s ! i = t ! i"
  shows "shifted_word s words shift index = shifted_word t words shift index"
  using assms [of "index - words"] assms [of "index - words - 1"]
  by (simp add: shifted_word_def Let_def)

lemma add_loop_nth:
  fixes sums :: bitset
  assumes "words \<le> k" "k \<le> length sums" "j < length sums"
  shows "fold (\<lambda>index s. s[index := s ! index OR shifted_word s words shift index])
           (rev [k..<length sums]) sums ! j =
         (if k \<le> j then sums ! j OR shifted_word sums words shift j else sums ! j)
       \<and> length (fold (\<lambda>index s. s[index := s ! index OR shifted_word s words shift index])
           (rev [k..<length sums]) sums) = length sums"
  using assms
proof (induction "length sums - k" arbitrary: k j)
  case 0
  then show ?case by simp
next
  case (Suc n)
  let ?f = "\<lambda>index s. s[index := s ! index OR shifted_word s words shift index]"
  let ?mid = "fold ?f (rev [Suc k..<length sums]) sums"
  have k: "k < length sums" using Suc.hyps(2) by simp
  have split: "[k..<length sums] = k # [Suc k..<length sums]"
    using k by (rule upt_conv_Cons)
  have mid: "?mid ! i = (if Suc k \<le> i then sums ! i OR shifted_word sums words shift i else sums ! i)
      \<and> length ?mid = length sums" if "i < length sums" for i
    using Suc.hyps(1) [of "Suc k" i] Suc.hyps(2) Suc.prems(1) k that by simp
  have len: "length ?mid = length sums" using mid k by blast
  have low: "?mid ! i = sums ! i" if "i \<le> k" for i
    using mid [of i] that k by simp
  have sw: "shifted_word ?mid words shift k = shifted_word sums words shift k"
    by (rule shifted_word_cong) (rule low)
  have "fold ?f (rev [k..<length sums]) sums = ?mid[k := ?mid ! k OR shifted_word ?mid words shift k]"
    by (simp add: split)
  then have whole: "fold ?f (rev [k..<length sums]) sums
      = ?mid[k := sums ! k OR shifted_word sums words shift k]"
    by (simp add: sw low)
  show ?case
    unfolding whole using Suc.prems(3) mid [of j] len k
    by (auto simp: nth_list_update)
qed

lemma length_add_subset_weight [simp]: "length (add_subset_weight sums weight) = length sums"
proof -
  have *: "length (fold (\<lambda>index s. s[index := s ! index OR shifted_word s words shift index]) xs ss)
      = length ss" for xs words shift and ss :: bitset
    by (induction xs arbitrary: ss) auto
  show ?thesis by (simp add: add_subset_weight_def Let_def *)
qed

lemma add_subset_weight_nth:
  assumes "j < length sums"
  shows "add_subset_weight sums weight ! j =
    (if weight div 64 \<le> j
     then sums ! j OR shifted_word sums (weight div 64) (weight mod 64) j else sums ! j)"
proof (cases "weight div 64 \<le> length sums")
  case True
  then show ?thesis
    using add_loop_nth [of "weight div 64" "weight div 64" sums j "weight mod 64"] assms
    by (simp add: add_subset_weight_def Let_def)
next
  case False
  with assms show ?thesis by (simp add: add_subset_weight_def Let_def)
qed

text \<open>A bit of the shifted word is the bit \<open>weight\<close> places lower.\<close>

lemma bit_shifted_word:
  fixes sums :: bitset
  assumes "words \<le> j" "shift < 64" "i < 64"
  shows "bit (shifted_word sums words shift j) i \<longleftrightarrow>
    (if shift \<le> i then bit (sums ! (j - words)) (i - shift)
     else words < j \<and> bit (sums ! (j - words - 1)) (64 + i - shift))"
  using assms
  by (auto simp: shifted_word_def Let_def bit_or_iff bit_push_bit_iff bit_drop_bit_eq
      not_le algebra_simps dest: bit_imp_le_length)

lemma member_word_iff:
  "r < 64 \<Longrightarrow> 64 * k + r \<in> members sums \<longleftrightarrow> k < length sums \<and> bit (sums ! k) r"
  by (auto simp: members_def)

lemma bit_shifted_word_members:
  fixes sums :: bitset
  assumes "j < length sums" "i < 64" "s < 64"
  shows "a \<le> j \<and> bit (shifted_word sums a s j) i \<longleftrightarrow>
    64 * a + s \<le> 64 * j + i \<and> 64 * j + i - (64 * a + s) \<in> members sums"
proof (cases "s \<le> i")
  case True
  then have le: "64 * a + s \<le> 64 * j + i \<longleftrightarrow> a \<le> j" using assms by linarith
  show ?thesis
  proof (cases "a \<le> j")
    case True': True
    have "64 * j + i - (64 * a + s) = 64 * (j - a) + (i - s)" using True True' by simp
    then have "64 * j + i - (64 * a + s) \<in> members sums \<longleftrightarrow> bit (sums ! (j - a)) (i - s)"
      using member_word_iff [of "i - s" "j - a" sums] assms by (simp add: less_imp_diff_less)
    then show ?thesis
      using bit_shifted_word [of a j s i sums] True True' assms le by simp
  next
    case False
    with le show ?thesis by simp
  qed
next
  case False
  then have le: "64 * a + s \<le> 64 * j + i \<longleftrightarrow> a < j" using assms by linarith
  show ?thesis
  proof (cases "a < j")
    case True
    have "64 * j + i - (64 * a + s) = 64 * (j - a - 1) + (64 + i - s)" using False True assms by simp
    then have "64 * j + i - (64 * a + s) \<in> members sums
        \<longleftrightarrow> bit (sums ! (j - a - 1)) (64 + i - s)"
      using member_word_iff [of "64 + i - s" "j - a - 1" sums] False assms
      by (simp add: less_imp_diff_less)
    then show ?thesis
      using bit_shifted_word [of a j s i sums] False True assms le by simp
  next
    case False': False
    then show ?thesis
      using bit_shifted_word [of a j s i sums] False assms le by auto
  qed
qed

lemma members_add_subset_weight:
  "members (add_subset_weight sums weight) =
     members sums \<union> {n + weight | n. n \<in> members sums \<and> n + weight < 64 * length sums}"
  (is "?L = ?R")
proof (rule set_eqI)
  fix n :: nat
  obtain j i where n: "n = 64 * j + i" and i: "i < 64"
    by (metis mult_div_mod_eq mod_less_divisor zero_less_numeral)
  obtain a s where w: "weight = 64 * a + s" and s: "s < 64"
    by (metis mult_div_mod_eq mod_less_divisor zero_less_numeral)
  have div: "weight div 64 = a" "weight mod 64 = s" using w s by simp_all
  show "n \<in> ?L \<longleftrightarrow> n \<in> ?R"
  proof (cases "j < length sums")
    case False
    then show ?thesis using n by (auto simp: members_def)
  next
    case True
    have "n \<in> ?L \<longleftrightarrow> bit (sums ! j) i \<or> a \<le> j \<and> bit (shifted_word sums a s j) i"
      using True i by (auto simp: n member_word_iff add_subset_weight_nth div bit_or_iff)
    also have "\<dots> \<longleftrightarrow> n \<in> members sums \<or> weight \<le> n \<and> n - weight \<in> members sums"
      using True i by (simp add: bit_shifted_word_members [OF True i s] n w member_word_iff)
    also have "\<dots> \<longleftrightarrow> n \<in> ?R"
      using True i n by (auto intro: exI [of _ "n - weight"])
    finally show ?thesis .
  qed
qed

lemma trailing_zeros_nonzero:
  assumes "w \<noteq> 0"
  shows "trailing_zeros w < 64" and "bit w (trailing_zeros w)"
    and "i < trailing_zeros w \<Longrightarrow> \<not> bit w i"
proof -
  obtain b where "bit w b" using assms by (auto simp: bit_eq_iff)
  moreover from this have "b < 64" using bit_imp_le_length by fastforce
  ultimately have "find (bit w) [0..<64] \<noteq> None" by (auto simp: find_None_iff)
  then obtain j where j: "find (bit w) [0..<64] = Some j" by blast
  then have "j < 64" "bit w j" "\<forall>i < j. \<not> bit w i"
    by (auto simp: find_Some_iff)
  with j show "trailing_zeros w < 64" "bit w (trailing_zeros w)"
    "i < trailing_zeros w \<Longrightarrow> \<not> bit w i"
    by (simp_all add: trailing_zeros_def)
qed

lemma bit_push_bit_all_ones:
  "i < 64 \<Longrightarrow> bit (push_bit r (- 1 :: 64 word)) i \<longleftrightarrow> r \<le> i"
  by (simp only: bit_push_bit_iff bit_minus_1_iff) (auto simp: possible_bit_word)

text \<open>The bits of word \<open>k\<close> that the scan looks at.\<close>

lemma bit_scanned_word:
  fixes sums :: bitset
  assumes "q div 64 \<le> k" "i < 64"
  shows "bit (if k = q div 64 then sums ! k AND push_bit (q mod 64) (- 1) else sums ! k) i
    \<longleftrightarrow> bit (sums ! k) i \<and> q \<le> 64 * k + i"
proof -
  obtain f r where q: "q = 64 * f + r" and r: "r < 64"
    by (metis mult_div_mod_eq mod_less_divisor zero_less_numeral)
  have dm: "q div 64 = f" "q mod 64 = r" using q r by simp_all
  show ?thesis
  proof (cases "k = f")
    case True
    then show ?thesis
      unfolding dm using bit_push_bit_all_ones [OF assms(2), of r]
      by (simp only: if_True bit_and_iff q refl simp_thms add_le_cancel_left)
  next
    case False
    with assms dm r have "q \<le> 64 * k" by (simp add: q)
    with False dm show ?thesis by simp
  qed
qed

lemma find_from_spec:
  fixes sums :: bitset
  assumes "q div 64 \<le> k"
  shows "case find_from sums (q div 64) q [k..<length sums] of
      None \<Rightarrow> \<forall>m \<in> members sums. \<not> (q \<le> m \<and> 64 * k \<le> m)
    | Some n \<Rightarrow> n \<in> members sums \<and> q \<le> n \<and> (\<forall>m \<in> members sums. q \<le> m \<and> 64 * k \<le> m \<longrightarrow> n \<le> m)"
  using assms
proof (induction "length sums - k" arbitrary: k)
  case 0
  then show ?case by (auto simp: members_def)
next
  case (Suc l)
  then have k: "k < length sums" by simp
  define bits where
    "bits = (if k = q div 64 then sums ! k AND push_bit (q mod 64) (- 1) else sums ! k)"
  have bits: "bit bits i \<longleftrightarrow> bit (sums ! k) i \<and> q \<le> 64 * k + i" if "i < 64" for i
    unfolding bits_def using Suc.prems that by (rule bit_scanned_word)
  have word: "m \<in> members sums \<Longrightarrow> 64 * k \<le> m \<Longrightarrow> \<not> 64 * Suc k \<le> m \<Longrightarrow>
      \<exists>i<64. m = 64 * k + i \<and> bit (sums ! k) i" for m
  proof -
    assume m: "m \<in> members sums" "64 * k \<le> m" "\<not> 64 * Suc k \<le> m"
    then have "m = 64 * k + (m - 64 * k)" "m - 64 * k < 64" by simp_all
    then show ?thesis using m(1) member_word_iff [of "m - 64 * k" k sums] by metis
  qed
  have unfold: "find_from sums (q div 64) q [k..<length sums] =
      (if bits \<noteq> 0 then Some (k * 64 + trailing_zeros bits)
       else find_from sums (q div 64) q [Suc k..<length sums])"
    using k by (simp add: upt_conv_Cons bits_def Let_def)
  show ?case
  proof (cases "bits = 0")
    case True
    have none: "64 * Suc k \<le> m" if "m \<in> members sums" "q \<le> m" "64 * k \<le> m" for m
    proof (rule ccontr)
      assume "\<not> 64 * Suc k \<le> m"
      from word [OF that(1,3) this] obtain i where "i < 64" "m = 64 * k + i" "bit (sums ! k) i"
        by blast
      with that(2) have "bit bits i" using bits by simp
      with True show False by simp
    qed
    have "case find_from sums (q div 64) q [Suc k..<length sums] of
        None \<Rightarrow> \<forall>m \<in> members sums. \<not> (q \<le> m \<and> 64 * Suc k \<le> m)
      | Some n \<Rightarrow> n \<in> members sums \<and> q \<le> n \<and>
          (\<forall>m \<in> members sums. q \<le> m \<and> 64 * Suc k \<le> m \<longrightarrow> n \<le> m)"
      by (rule Suc.hyps(1)) (use Suc.hyps(2) Suc.prems in simp_all)
    moreover have "find_from sums (q div 64) q [k..<length sums] =
        find_from sums (q div 64) q [Suc k..<length sums]"
      using True by (simp only: unfold if_False simp_thms)
    ultimately show ?thesis using none by (cases "find_from sums (q div 64) q [Suc k..<length sums]") auto
  next
    case False
    let ?t = "trailing_zeros bits"
    have t: "?t < 64" "bit bits ?t" "\<And>i. i < ?t \<Longrightarrow> \<not> bit bits i"
      using trailing_zeros_nonzero [OF False] by blast+
    have "64 * k + ?t \<in> members sums" "q \<le> 64 * k + ?t"
      using bits [of ?t] t k by (simp_all add: member_word_iff)
    moreover have "64 * k + ?t \<le> m" if "m \<in> members sums" "q \<le> m" "64 * k \<le> m" for m
    proof (cases "64 * Suc k \<le> m")
      case True
      then show ?thesis using t(1) by simp
    next
      case False
      from word [OF that(1,3) this]
      obtain i where "i < 64" "m = 64 * k + i" "bit (sums ! k) i" by blast
      with that(2) have "bit bits i" using bits by simp
      then have "?t \<le> i" using t(3) not_le by blast
      then show ?thesis using \<open>m = 64 * k + i\<close> by simp
    qed
    ultimately show ?thesis using False by (simp add: unfold mult.commute)
  qed
qed

lemma first_at_least_spec:
  "case first_at_least sums q of
      None \<Rightarrow> \<forall>m \<in> members sums. \<not> q \<le> m
    | Some n \<Rightarrow> n \<in> members sums \<and> q \<le> n \<and> (\<forall>m \<in> members sums. q \<le> m \<longrightarrow> n \<le> m)"
proof -
  have "64 * (q div 64) \<le> q" by simp
  then have "q \<le> m \<and> 64 * (q div 64) \<le> m \<longleftrightarrow> q \<le> m" for m by linarith
  with find_from_spec [of q "q div 64" sums] show ?thesis
    by (simp only: first_at_least_def Let_def order_refl simp_thms)
qed

lemma first_at_least_Some:
  assumes "first_at_least sums q = Some n"
  shows "n \<in> members sums" and "q \<le> n" and "m \<in> members sums \<Longrightarrow> q \<le> m \<Longrightarrow> n \<le> m"
  using first_at_least_spec [of sums q] unfolding assms by simp_all

lemma first_at_least_None:
  assumes "first_at_least sums q = None" "m \<in> members sums"
  shows "m < q"
  using first_at_least_spec [of sums q] assms(2) unfolding assms(1) by (simp add: not_le)


section \<open>Safe passing\<close>

definition MAX_BITS :: u64 where
  "MAX_BITS = 2 ^ 16"

text \<open>The two \<open>try_fold\<close>s: the rounded total below \<open>MAX_BITS\<close>, and the exact sum.\<close>

fun rounded_total :: "u64 \<Rightarrow> u64 list \<Rightarrow> u64 \<Rightarrow> u64 option" where
  "rounded_total unit [] acc = Some acc"
| "rounded_total unit (w # ws) acc =
     (case checked_add acc (div_ceil w unit) of
        None \<Rightarrow> None
      | Some t \<Rightarrow> if t < MAX_BITS then rounded_total unit ws t else None)"

fun checked_sum :: "u64 list \<Rightarrow> u64 \<Rightarrow> u64 option" where
  "checked_sum [] acc = Some acc"
| "checked_sum (w # ws) acc =
     (case checked_add acc w of None \<Rightarrow> None | Some t \<Rightarrow> checked_sum ws t)"

text \<open>
  The slack left for one older prefix: what remains free at once, or what the smallest
  sufficient completion leaves over, as a lower bound. \<open>None\<close> is an early return of
  \<open>false\<close>.
\<close>

definition prefix_slack ::
  "u64 \<Rightarrow> bitset \<Rightarrow> nat \<Rightarrow> u64 \<Rightarrow> u64 \<Rightarrow> u64 option" where
  "prefix_slack unit sums items free ahead =
     (if ahead \<le> free then Some (free - ahead)
      else let threshold = ahead - free in
        case first_at_least sums (div_ceil threshold unit) of
          None \<Rightarrow> None
        | Some lowest \<Rightarrow>
            (case checked_mul items (unit - 1) of
               None \<Rightarrow> None
             | Some error \<Rightarrow>
                 (case Option.bind (checked_mul lowest unit) (\<lambda>s. checked_sub s error) of
                    None \<Rightarrow> None
                  | Some lower \<Rightarrow> checked_sub lower threshold)))"

text \<open>
  The loop over the older waiters. The result pairs the answer with the \<open>(index, slack)\<close>
  calls made to the \<open>record\<close> callback, in order.
\<close>

fun pass_loop ::
  "u64 \<Rightarrow> u64 \<Rightarrow> u64 \<Rightarrow> nat \<Rightarrow> bitset \<Rightarrow> u64 \<Rightarrow> nat \<Rightarrow> u64 list \<Rightarrow> bool \<times> (nat \<times> u64) list" where
  "pass_loop unit free charge n_live sums ahead index [] = (True, [])"
| "pass_loop unit free charge n_live sums ahead index (h # hs) =
     (case checked_add ahead h of
        None \<Rightarrow> (False, [])
      | Some ahead' \<Rightarrow>
          (case prefix_slack unit sums (n_live + index) free ahead' of
             None \<Rightarrow> (False, [])
           | Some slack \<Rightarrow>
               if charge > slack then (False, [(index, slack)])
               else (let (ok, calls) = pass_loop unit free charge n_live
                           (add_subset_weight sums (div_ceil h unit)) ahead' (Suc index) hs
                     in (ok, (index, slack) # calls))))"

definition live_sums :: "u64 \<Rightarrow> nat \<Rightarrow> u64 list \<Rightarrow> bitset" where
  "live_sums unit n live =
     fold (\<lambda>w sums. add_subset_weight sums (div_ceil w unit)) live
       ((replicate (div_ceil (n + 1) 64) 0)[0 := 1])"

definition pass_quantized ::
  "u64 \<Rightarrow> u64 list \<Rightarrow> u64 list \<Rightarrow> u64 \<Rightarrow> u64 \<Rightarrow> bool \<times> (nat \<times> u64) list" where
  "pass_quantized capacity live older charge unit =
     (if older = [] then (True, [])
      else case rounded_total unit (live @ older) 0 of
        None \<Rightarrow> (False, [])
      | Some n \<Rightarrow>
          (case checked_sum live 0 of
             None \<Rightarrow> (False, [])
           | Some used \<Rightarrow>
               (case checked_sub capacity used of
                  None \<Rightarrow> (False, [])
                | Some free \<Rightarrow>
                    if charge > free then (False, [])
                    else pass_loop unit free charge (length live) (live_sums unit n live) 0 0 older)))"

subsection \<open>Subset sums\<close>

definition subset_sums :: "nat list \<Rightarrow> nat set" where
  "subset_sums xs = sum_list ` set (subseqs xs)"

lemma subset_sums_Nil [simp]: "subset_sums [] = {0}"
  by (simp add: subset_sums_def)

lemma subset_sums_Cons:
  "subset_sums (x # xs) = subset_sums xs \<union> {n + x | n. n \<in> subset_sums xs}"
  by (auto simp: subset_sums_def Let_def image_Un image_image add.commute)

lemma subset_sums_snoc:
  "subset_sums (xs @ [x]) = subset_sums xs \<union> {n + x | n. n \<in> subset_sums xs}"
proof (induction xs)
  case Nil
  show ?case by (simp add: subset_sums_Cons)
next
  case (Cons y ys)
  show ?case
    unfolding append_Cons subset_sums_Cons Cons.IH
    by (simp add: set_eq_iff) (metis add.assoc add.commute)
qed

lemma subset_sums_le: "n \<in> subset_sums xs \<Longrightarrow> n \<le> sum_list xs"
  by (induction xs arbitrary: n) (fastforce simp: subset_sums_Cons)+

lemma subset_sums_ceil:
  assumes "ys \<in> set (subseqs xs)"
  shows "sum_list (map f ys) \<in> subset_sums (map f xs)"
  using assms
proof (induction xs arbitrary: ys)
  case Nil
  then show ?case by simp
next
  case (Cons x xs)
  then show ?case by (auto simp: Let_def subset_sums_Cons add.commute)
qed

lemma subseqs_length: "ys \<in> set (subseqs xs) \<Longrightarrow> length ys \<le> length xs"
  by (simp add: in_set_subseqs list_emb_length)

subsection \<open>The vector holds exactly the rounded subset sums\<close>

definition rounded :: "u64 \<Rightarrow> u64 list \<Rightarrow> u64 list" where
  "rounded unit ws = map (\<lambda>w. div_ceil w unit) ws"

definition holds_sums :: "u64 \<Rightarrow> bitset \<Rightarrow> u64 list \<Rightarrow> u64 list \<Rightarrow> bool" where
  "holds_sums unit sums items todo \<longleftrightarrow>
     members sums = subset_sums (rounded unit items) \<and>
     sum_list (rounded unit (items @ todo)) < 64 * length sums"

lemma rounded_simps [simp]:
  "rounded unit [] = []" "rounded unit (w # ws) = div_ceil w unit # rounded unit ws"
  "rounded unit (xs @ ys) = rounded unit xs @ rounded unit ys"
  by (simp_all add: rounded_def)

lemma holds_sums_step:
  assumes "holds_sums unit sums items (h # todo)"
  shows "holds_sums unit (add_subset_weight sums (div_ceil h unit)) (items @ [h]) todo"
proof -
  let ?c = "div_ceil h unit"
  have m: "members sums = subset_sums (rounded unit items)"
    and b: "sum_list (rounded unit items) + (?c + sum_list (rounded unit todo)) < 64 * length sums"
    using assms by (simp_all add: holds_sums_def)
  have "n + ?c < 64 * length sums" if "n \<in> members sums" for n
    using subset_sums_le [of n "rounded unit items"] that m b by simp
  then have "members (add_subset_weight sums ?c) = subset_sums (rounded unit items @ [?c])"
    unfolding members_add_subset_weight subset_sums_snoc m [symmetric] by blast
  then show ?thesis using b by (simp add: holds_sums_def)
qed

lemma holds_sums_fold:
  "holds_sums unit sums items (live @ todo) \<Longrightarrow>
   holds_sums unit (fold (\<lambda>w sums. add_subset_weight sums (div_ceil w unit)) live sums)
     (items @ live) todo"
  by (induction live arbitrary: sums items) (simp, force dest: holds_sums_step)

lemma members_start: "0 < n \<Longrightarrow> members ((replicate n 0)[0 := 1]) = {0}"
  by (auto simp: members_def nth_list_update bit_1_iff split: if_splits)

lemma holds_sums_live:
  assumes "sum_list (rounded unit (live @ todo)) \<le> n"
  shows "holds_sums unit (live_sums unit n live) live todo"
proof -
  have enough: "n + 1 \<le> div_ceil (n + 1) 64 * 64" by (rule le_div_ceil_mult) simp
  then have pos: "0 < div_ceil (n + 1) 64" by (cases "div_ceil (n + 1) 64") simp_all
  from assms enough pos have
    "holds_sums unit ((replicate (div_ceil (n + 1) 64) 0)[0 := 1]) [] (live @ todo)"
    by (simp add: holds_sums_def members_start)
  from holds_sums_fold [OF this] show ?thesis by (simp add: live_sums_def)
qed

lemma rounded_total_Some:
  "rounded_total unit ws acc = Some n \<Longrightarrow> n = acc + sum_list (rounded unit ws)"
  by (induction ws arbitrary: acc)
    (simp, fastforce simp: checked_add_def add.assoc split: option.splits if_splits)

lemma rounded_total_iff:
  "acc < MAX_BITS \<Longrightarrow> rounded_total unit ws acc =
     (if acc + sum_list (rounded unit ws) < MAX_BITS then Some (acc + sum_list (rounded unit ws)) else None)"
proof (induction ws arbitrary: acc)
  case Nil
  then show ?case by simp
next
  case (Cons w ws)
  have "MAX_BITS \<le> u64_max" by (simp add: MAX_BITS_def u64_max_def)
  then show ?case
    using Cons by (auto simp: checked_add_def)
qed

lemma checked_sum_Some: "checked_sum ws acc = Some n \<Longrightarrow> n = acc + sum_list ws"
  by (induction ws arbitrary: acc)
    (simp, fastforce simp: checked_add_def add.assoc split: option.splits if_splits)

lemma checked_sum_fits: "acc + sum_list ws \<le> u64_max \<Longrightarrow> checked_sum ws acc = Some (acc + sum_list ws)"
  by (induction ws arbitrary: acc) (auto simp: checked_add_def)

subsection \<open>Soundness\<close>

text \<open>
  What safe passing promises: whatever set \<open>ys\<close> of running and already started older work
  completes, if that would have let the next older waiter start beside everything ahead of it,
  it still does with the newcomer's charge added.
\<close>

definition passing_safe :: "u64 \<Rightarrow> u64 list \<Rightarrow> u64 list \<Rightarrow> u64 \<Rightarrow> bool" where
  "passing_safe capacity live older charge \<longleftrightarrow>
     (\<forall>k < length older. \<forall>ys \<in> set (subseqs (live @ take k older)).
        sum_list live + sum_list (take (Suc k) older) \<le> capacity + sum_list ys \<longrightarrow>
        sum_list live + charge + sum_list (take (Suc k) older) \<le> capacity + sum_list ys)"

lemma prefix_slack_sound:
  assumes slack: "prefix_slack unit sums items_n free ahead = Some slack"
    and m: "members sums = subset_sums (rounded unit items)"
    and n: "length items \<le> items_n" and unit: "0 < unit"
    and ys: "ys \<in> set (subseqs items)" and enough: "ahead \<le> free + sum_list ys"
  shows "ahead + slack \<le> free + sum_list ys"
proof (cases "ahead \<le> free")
  case True
  with slack show ?thesis by (auto simp: prefix_slack_def)
next
  case False
  define thr where "thr = ahead - free"
  obtain low where low: "first_at_least sums (div_ceil thr unit) = Some low"
    and err: "items_n * (unit - 1) \<le> low * unit"
    and s: "slack = low * unit - items_n * (unit - 1) - thr" "thr \<le> low * unit - items_n * (unit - 1)"
    using slack False
    by (auto simp: prefix_slack_def thr_def Let_def checked_eq_Some bind_eq_Some_conv
        split: option.splits)
  let ?Q = "sum_list (rounded unit ys)"
  have "?Q \<in> members sums" unfolding m rounded_def by (rule subset_sums_ceil) (rule ys)
  moreover have "div_ceil thr unit \<le> ?Q"
  proof -
    have "div_ceil thr unit \<le> div_ceil (sum_list ys) unit"
      using enough unit by (intro div_ceil_mono) (auto simp: thr_def)
    also have "\<dots> \<le> ?Q" unfolding rounded_def by (rule sum_list_div_ceil) (rule unit)
    finally show ?thesis .
  qed
  ultimately have "low \<le> ?Q" by (rule first_at_least_Some(3) [OF low])
  then have "low * unit \<le> ?Q * unit" by simp
  also have "\<dots> \<le> sum_list ys + length ys * (unit - 1)"
    unfolding rounded_def by (rule sum_list_div_ceil_mult) (rule unit)
  also have "\<dots> \<le> sum_list ys + items_n * (unit - 1)"
    using subseqs_length [OF ys] n by simp
  finally have "low * unit - items_n * (unit - 1) \<le> sum_list ys" by simp
  with s False show ?thesis by (simp add: thr_def)
qed

lemma pass_loop_sound:
  assumes "fst (pass_loop unit free charge n_live sums ahead index hs)"
    and "holds_sums unit sums items hs" and "length items = n_live + index" and "0 < unit"
    and "k < length hs" and "ys \<in> set (subseqs (items @ take k hs))"
    and "ahead + sum_list (take (Suc k) hs) \<le> free + sum_list ys"
  shows "ahead + sum_list (take (Suc k) hs) + charge \<le> free + sum_list ys"
  using assms
proof (induction hs arbitrary: sums ahead index items k)
  case Nil
  then show ?case by simp
next
  case (Cons h hs)
  from Cons.prems(1) obtain slack where
    slack: "prefix_slack unit sums (n_live + index) free (ahead + h) = Some slack" and
    le: "charge \<le> slack" and
    rest: "fst (pass_loop unit free charge n_live (add_subset_weight sums (div_ceil h unit))
      (ahead + h) (Suc index) hs)"
    by (auto simp: checked_add_def split: option.splits if_splits prod.splits)
  show ?case
  proof (cases k)
    case 0
    then have "ahead + h + slack \<le> free + sum_list ys"
      using Cons.prems prefix_slack_sound [OF slack, of items ys]
      by (simp add: holds_sums_def)
    with le 0 show ?thesis by simp
  next
    case (Suc k')
    have "holds_sums unit (add_subset_weight sums (div_ceil h unit)) (items @ [h]) hs"
      using Cons.prems(2) by (rule holds_sums_step)
    from Cons.IH [OF rest this, of k'] Cons.prems Suc show ?thesis
      by (simp add: add.assoc)
  qed
qed

lemma pass_quantized_sound:
  assumes "fst (pass_quantized capacity live older charge unit)" and "0 < unit"
  shows "passing_safe capacity live older charge"
proof (cases "older = []")
  case True
  then show ?thesis by (simp add: passing_safe_def)
next
  case False
  with assms(1) obtain n where
    n: "rounded_total unit (live @ older) 0 = Some n" and
    used: "sum_list live \<le> capacity" and
    loop: "fst (pass_loop unit (capacity - sum_list live) charge (length live)
      (live_sums unit n live) 0 0 older)"
    by (auto simp: pass_quantized_def checked_eq_Some dest!: checked_sum_Some
        split: option.splits if_splits)
  have "holds_sums unit (live_sums unit n live) live older"
    using rounded_total_Some [OF n] by (intro holds_sums_live) simp
  from pass_loop_sound [OF loop this] used assms(2) show ?thesis
    by (fastforce simp: passing_safe_def)
qed

subsection \<open>Exactness for unit one\<close>

lemma subset_sums_witness:
  "n \<in> subset_sums (rounded 1 items) \<Longrightarrow> \<exists>ys \<in> set (subseqs items). n = sum_list ys"
proof -
  have "rounded 1 items = items" by (simp add: rounded_def)
  then show "n \<in> subset_sums (rounded 1 items) \<Longrightarrow> ?thesis" by (auto simp: subset_sums_def)
qed

lemma prefix_slack_exact:
  assumes m: "members sums = subset_sums (rounded 1 items)"
    and bound: "sum_list items \<le> u64_max"
  shows "(\<exists>slack. prefix_slack 1 sums items_n free ahead = Some slack \<and> charge \<le> slack) \<longleftrightarrow>
    (\<exists>ys \<in> set (subseqs items). ahead \<le> free + sum_list ys) \<and>
    (\<forall>ys \<in> set (subseqs items). ahead \<le> free + sum_list ys \<longrightarrow> ahead + charge \<le> free + sum_list ys)"
    (is "?L \<longleftrightarrow> ?E \<and> ?A")
proof (cases "ahead \<le> free")
  case True
  have "[] \<in> set (subseqs items)" by (simp add: in_set_subseqs)
  with True show ?thesis by (fastforce simp: prefix_slack_def)
next
  case False
  define thr where "thr = ahead - free"
  have thr: "ahead \<le> free + s \<longleftrightarrow> thr \<le> s" for s using False by (auto simp: thr_def)
  have sums: "sum_list ys \<in> members sums" if "ys \<in> set (subseqs items)" for ys
    using that by (auto simp: m rounded_def subset_sums_def)
  show ?thesis
  proof (cases "first_at_least sums thr")
    case None
    then have "\<not> ?E" using first_at_least_None [OF None] sums thr by fastforce
    with None False show ?thesis by (auto simp: prefix_slack_def thr_def)
  next
    case (Some low)
    note low = first_at_least_Some [OF Some]
    obtain ys where ys: "ys \<in> set (subseqs items)" "low = sum_list ys"
      using subset_sums_witness low(1) m by blast
    have "low \<le> u64_max"
      using subset_sums_le [of low "rounded 1 items"] low(1) m bound by (simp add: rounded_def)
    then have "prefix_slack 1 sums items_n free ahead = Some (low - thr)"
      using False Some low(2) by (simp add: prefix_slack_def thr_def checked_mul_def checked_sub_def)
    then have "?L \<longleftrightarrow> charge \<le> low - thr" by simp
    also have "\<dots> \<longleftrightarrow> ?E \<and> ?A"
    proof
      assume c: "charge \<le> low - thr"
      have "ahead + charge \<le> free + sum_list zs" if "zs \<in> set (subseqs items)"
        "ahead \<le> free + sum_list zs" for zs
        using low(3) [OF sums [OF that(1)]] that(2) thr c low(2) False by (simp add: thr_def)
      with ys thr low(2) show "?E \<and> ?A" by blast
    next
      assume "?E \<and> ?A"
      then have "ahead + charge \<le> free + low" using ys thr low(2) by blast
      then show "charge \<le> low - thr" using False by (simp add: thr_def)
    qed
    finally show ?thesis .
  qed
qed

text \<open>Some set of completions lets each older waiter start.\<close>

definition older_startable :: "u64 \<Rightarrow> u64 list \<Rightarrow> u64 list \<Rightarrow> bool" where
  "older_startable capacity live older \<longleftrightarrow>
     (\<forall>k < length older. \<exists>ys \<in> set (subseqs (live @ take k older)).
        sum_list live + sum_list (take (Suc k) older) \<le> capacity + sum_list ys)"

lemma all_less_Suc_Cons:
  "(\<forall>k < length (h # hs). P k) \<longleftrightarrow> P 0 \<and> (\<forall>k < length hs. P (Suc k))"
  by (auto simp: less_Suc_eq_0_disj)

lemma pass_loop_exact:
  assumes "holds_sums 1 sums items hs" and "sum_list (items @ hs) \<le> u64_max"
    and "ahead + sum_list hs \<le> u64_max"
  shows "fst (pass_loop 1 free charge n_live sums ahead index hs) \<longleftrightarrow>
    (\<forall>k < length hs.
       (\<exists>ys \<in> set (subseqs (items @ take k hs)). ahead + sum_list (take (Suc k) hs) \<le> free + sum_list ys) \<and>
       (\<forall>ys \<in> set (subseqs (items @ take k hs)). ahead + sum_list (take (Suc k) hs) \<le> free + sum_list ys \<longrightarrow>
          ahead + sum_list (take (Suc k) hs) + charge \<le> free + sum_list ys))"
  using assms
proof (induction hs arbitrary: sums ahead index items)
  case Nil
  then show ?case by simp
next
  case (Cons h hs)
  let ?next = "pass_loop 1 free charge n_live (add_subset_weight sums h) (ahead + h) (Suc index) hs"
  have step: "holds_sums 1 (add_subset_weight sums h) (items @ [h]) hs"
    using holds_sums_step [OF Cons.prems(1)] by simp
  have "fst (pass_loop 1 free charge n_live sums ahead index (h # hs)) \<longleftrightarrow>
    (\<exists>slack. prefix_slack 1 sums (n_live + index) free (ahead + h) = Some slack \<and> charge \<le> slack) \<and>
    fst ?next"
    using Cons.prems(3) by (auto simp: checked_add_def split: option.splits prod.splits)
  also have "(\<exists>slack. prefix_slack 1 sums (n_live + index) free (ahead + h) = Some slack \<and> charge \<le> slack)
    \<longleftrightarrow> (\<exists>ys \<in> set (subseqs items). ahead + h \<le> free + sum_list ys) \<and>
      (\<forall>ys \<in> set (subseqs items). ahead + h \<le> free + sum_list ys \<longrightarrow> ahead + h + charge \<le> free + sum_list ys)"
    using Cons.prems(1,2) by (intro prefix_slack_exact) (simp_all add: holds_sums_def)
  also note Cons.IH [OF step, of "ahead + h" "Suc index"]
  finally show ?case
    using Cons.prems unfolding all_less_Suc_Cons by (simp add: add.assoc)
qed

lemma pass_quantized_exact:
  assumes "capacity \<le> u64_max"
  shows "fst (pass_quantized capacity live older charge 1) \<longleftrightarrow>
    older = [] \<or>
    sum_list (live @ older) < MAX_BITS \<and> sum_list live + charge \<le> capacity \<and>
    older_startable capacity live older \<and> passing_safe capacity live older charge"
proof (cases "older = [] \<or> \<not> sum_list (live @ older) < MAX_BITS")
  case True
  have "rounded 1 ws = ws" for ws by (simp add: rounded_def)
  with True show ?thesis
    by (auto simp: pass_quantized_def rounded_total_iff MAX_BITS_def simp del: rounded_simps)
next
  case False
  let ?n = "sum_list (live @ older)"
  have r: "rounded 1 ws = ws" for ws by (simp add: rounded_def)
  have max: "?n \<le> u64_max" using False by (simp add: MAX_BITS_def u64_max_def)
  have n: "rounded_total 1 (live @ older) 0 = Some ?n"
    using False rounded_total_iff [of 0 1 "live @ older"] r by (simp add: MAX_BITS_def)
  have u: "checked_sum live 0 = Some (sum_list live)"
    using max checked_sum_fits [of 0 live] by simp
  have "holds_sums 1 (live_sums 1 ?n live) live older"
    by (rule holds_sums_live) (simp only: r order_refl)
  from pass_loop_exact [OF this max, of 0 "capacity - sum_list live" charge "length live" 0] max
  have loop: "sum_list live + charge \<le> capacity \<Longrightarrow>
    fst (pass_loop 1 (capacity - sum_list live) charge (length live) (live_sums 1 ?n live) 0 0 older) \<longleftrightarrow>
    older_startable capacity live older \<and> passing_safe capacity live older charge"
    unfolding older_startable_def passing_safe_def
    by (simp add: le_diff_conv2 add.commute add.left_commute) (safe; fastforce)
  have "fst (pass_quantized capacity live older charge 1) \<longleftrightarrow> sum_list live + charge \<le> capacity \<and>
    fst (pass_loop 1 (capacity - sum_list live) charge (length live) (live_sums 1 ?n live) 0 0 older)"
    unfolding pass_quantized_def n u using False by (auto simp: checked_sub_def)
  with False loop show ?thesis by blast
qed


section \<open>Properties\<close>

lemmas pass_eval =
  pass_quantized_def checked_add_def checked_sub_def checked_mul_def u64_max_def MAX_BITS_def
  div_ceil_def live_sums_def add_subset_weight_def upt_rec shifted_word_def prefix_slack_def
  first_at_least_def trailing_zeros_def Let_def mask_numeral

text \<open>
  C2. Safe passing is sound for every rounding unit. When \<open>pass_quantized\<close> answers yes, take
  any prefix of the older waiters and any subset of the running items and earlier waiters whose
  completion would make room for that prefix: the same completions still make room once the
  newcomer's charge is held as well. The saturation guards, the word-wise bit set and the rounding
  error bound of the code are all part of the model.
\<close>

theorem passing_never_delays_older:
  assumes "fst (pass_quantized capacity live older charge unit)" and "0 < unit"
    and "k < length older" and "finished \<in> set (subseqs (live @ take k older))"
    and "sum_list live + sum_list (take (Suc k) older) \<le> capacity + sum_list finished"
  shows "sum_list live + charge + sum_list (take (Suc k) older) \<le> capacity + sum_list finished"
  using pass_quantized_sound [OF assms(1,2)] assms(3-5) by (auto simp: passing_safe_def)

theorem passing_never_delays_older_witness:
  "fst (pass_quantized 167772160 [67108864] [100663301] 16777216 16777216) \<and>
   67108864 + 16777216 + 100663301 \<le> 167772160 + (67108864 :: nat)"
proof
  show yes: "fst (pass_quantized 167772160 [67108864] [100663301] 16777216 16777216)"
    by (simp add: pass_eval)
  show "67108864 + 16777216 + 100663301 \<le> 167772160 + (67108864 :: nat)"
    using passing_never_delays_older [OF yes, of 0 "[67108864]"] by (simp add: Let_def)
qed

text \<open>
  C3. With unit one (the CPU axis and the scalar axis) the rule is exact: below the bit-set limit,
  \<open>pass_quantized\<close> says yes exactly when the charge fits now, every older prefix can start
  after some completions, and no such completions are made insufficient.
\<close>

theorem passing_exact_for_unit_one:
  assumes "capacity \<le> u64_max"
  shows "fst (pass_quantized capacity live older charge 1) \<longleftrightarrow>
    older = [] \<or> sum_list (live @ older) < MAX_BITS \<and> sum_list live + charge \<le> capacity \<and>
    older_startable capacity live older \<and> passing_safe capacity live older charge"
  using assms by (rule pass_quantized_exact)

theorem passing_exact_for_unit_one_witness:
  "fst (pass_quantized 4 [2] [3] 1 1) \<and> older_startable 4 [2] [3] \<and> \<not> fst (pass_quantized 4 [2] [3] 2 1)"
proof -
  have "fst (pass_quantized 4 [2] [3] 1 1)" "\<not> fst (pass_quantized 4 [2] [3] 2 1)"
    by (simp_all add: pass_eval)
  then show ?thesis
    using passing_exact_for_unit_one [of 4 "[2]" "[3]" 1] by (simp add: u64_max_def)
qed

end
