(* ===== verification/Admission.thy ===== *)
theory Admission
  imports Safe_Passing
begin

text \<open>
  The scheduler's admission decision (\<open>scheduler.rs\<close>: \<open>Lease\<close>, \<open>Waiting\<close>,
  \<open>Resources\<close>, the budgets, the exceptions that let a request ignore an older waiter, and
  \<open>admission_decision_traced\<close>). The decision's trace argument only records which predicates
  and slacks were seen, and both of its branches compute the same list of older waiters, so it is
  not part of the model.
\<close>

section \<open>Records\<close>

record resources =
  cpu :: u64
  memory_bytes :: u64

record lease =
  lease_version :: nat
  lease_name :: "string option"
  lease_mode_key :: "string option"
  lease_weight :: u64
  lease_cpu :: "u64 option"
  lease_memory_bytes :: "u64 option"
  lease_priority :: string
  lease_build_id :: "string option"
  lease_domain :: "string option"
  lease_bytes_per_permit :: u64

record waiting =
  pid :: "nat option"
  first_arrival_ms :: "u64 option"
  waiting_name :: "string option"
  waiting_mode_key :: "string option"
  ticket :: u64
  waiting_weight :: u64
  waiting_cpu :: "u64 option"
  waiting_memory_bytes :: "u64 option"
  waiting_priority :: string
  waiting_domain :: string
  domain_capacity :: u64
  global_capacity :: "u64 option"
  cpu_cap :: "u64 option"
  mem_cap :: "u64 option"
  domain_memory_cap :: "u64 option"
  domain_cpu_cap :: "u64 option"
  waiting_bytes_per_permit :: u64
  waiting_build :: "(string \<times> u64) option"

section \<open>Charges and budgets\<close>

definition resources_fits :: "resources \<Rightarrow> resources \<Rightarrow> resources \<Rightarrow> bool" where
  "resources_fits budget used request \<longleftrightarrow>
     fits (cpu used) (cpu request) (cpu budget) \<and>
     (memory_bytes budget = 0 \<or>
      fits (memory_bytes used) (memory_bytes request) (memory_bytes budget))"

definition record_resources :: "u64 option \<Rightarrow> u64 option \<Rightarrow> u64 \<Rightarrow> u64 \<Rightarrow> resources" where
  "record_resources c memory weight unit =
     \<lparr>cpu = unwrap_or c weight, memory_bytes = unwrap_or memory (saturating_mul weight unit)\<rparr>"

definition lease_resources :: "lease \<Rightarrow> resources" where
  "lease_resources l =
     record_resources (lease_cpu l) (lease_memory_bytes l) (lease_weight l) (lease_bytes_per_permit l)"

definition waiting_resources :: "waiting \<Rightarrow> resources" where
  "waiting_resources w =
     record_resources (waiting_cpu w) (waiting_memory_bytes w) (waiting_weight w)
       (waiting_bytes_per_permit w)"

definition global_budget :: "waiting \<Rightarrow> resources \<Rightarrow> resources" where
  "global_budget w fallback =
     \<lparr>cpu = (case cpu_cap w of Some c \<Rightarrow> c | None \<Rightarrow> unwrap_or (global_capacity w) (cpu fallback)),
      memory_bytes =
        (case mem_cap w of Some m \<Rightarrow> m
         | None \<Rightarrow> (case global_capacity w of
               None \<Rightarrow> memory_bytes fallback
             | Some cap \<Rightarrow> saturating_mul cap (waiting_bytes_per_permit w)))\<rparr>"

definition domain_budget :: "waiting \<Rightarrow> resources" where
  "domain_budget w =
     \<lparr>cpu = unwrap_or (domain_cpu_cap w) (domain_capacity w),
      memory_bytes = unwrap_or (domain_memory_cap w)
        (saturating_mul (domain_capacity w) (waiting_bytes_per_permit w))\<rparr>"

definition MEMORY_QUANTUM :: u64 where
  "MEMORY_QUANTUM = 16 * 1024 * 1024"

definition weight_in_units :: "u64 \<Rightarrow> u64 \<Rightarrow> u64 \<Rightarrow> u64" where
  "weight_in_units weight original_unit unit =
     (if unit = 0 then weight
      else max weight (div_ceil (saturating_mul weight original_unit) unit))"

definition add_charge :: "resources \<Rightarrow> lease \<Rightarrow> resources" where
  "add_charge used l =
     \<lparr>cpu = saturating_add (cpu used) (cpu (lease_resources l)),
      memory_bytes = saturating_add (memory_bytes used) (memory_bytes (lease_resources l))\<rparr>"

definition scope_used :: "lease list \<Rightarrow> resources" where
  "scope_used leases = foldl add_charge \<lparr>cpu = 0, memory_bytes = 0\<rparr> leases"

text \<open>A lease counts in a domain when it names none (an old record) or names that one.\<close>

definition in_domain :: "string \<Rightarrow> lease \<Rightarrow> bool" where
  "in_domain d l = (case lease_domain l of None \<Rightarrow> True | Some i \<Rightarrow> i = d)"

definition domain_used :: "lease list \<Rightarrow> string \<Rightarrow> resources" where
  "domain_used live d = scope_used (filter (in_domain d) live)"

definition build_fits :: "lease list \<Rightarrow> (string \<times> u64) option \<Rightarrow> u64 \<Rightarrow> bool" where
  "build_fits live build c =
     (case build of
        None \<Rightarrow> True
      | Some (i, capacity) \<Rightarrow>
          fits (cpu (scope_used (filter (\<lambda>l. lease_build_id l = Some i) live))) c capacity)"

section \<open>Exceptions to queue order\<close>

definition priority_exception :: "waiting \<Rightarrow> waiting \<Rightarrow> bool" where
  "priority_exception older request \<longleftrightarrow>
     waiting_priority older = ''low'' \<and> waiting_priority request = ''normal''"

definition older_exception :: "lease list \<Rightarrow> waiting \<Rightarrow> waiting \<Rightarrow> string option" where
  "older_exception live older request =
     (if priority_exception older request then Some ''exception:priority''
      else if \<not> build_fits live (waiting_build older) (cpu (waiting_resources older)) then
        (if map_option fst (waiting_build older) \<noteq> map_option fst (waiting_build request)
         then Some ''exception:build'' else None)
      else if \<not> resources_fits (domain_budget older) (domain_used live (waiting_domain older))
                  (waiting_resources older) then
        (if waiting_domain older \<noteq> waiting_domain request then Some ''exception:domain'' else None)
      else None)"

section \<open>Scopes\<close>

text \<open>The leases and the older waiters that share one build or one domain scope.\<close>

definition scope_live :: "string option \<Rightarrow> string option \<Rightarrow> lease list \<Rightarrow> lease list" where
  "scope_live build domain live =
     filter (\<lambda>l. (case build of None \<Rightarrow> True | Some i \<Rightarrow> lease_build_id l = Some i) \<and>
                 (case domain of None \<Rightarrow> True | Some i \<Rightarrow> in_domain i l)) live"

definition scope_heads :: "string option \<Rightarrow> string option \<Rightarrow> waiting list \<Rightarrow> waiting list" where
  "scope_heads build domain older =
     filter (\<lambda>w. (case build of None \<Rightarrow> True | Some i \<Rightarrow> map_option fst (waiting_build w) = Some i) \<and>
                 (case domain of None \<Rightarrow> True | Some i \<Rightarrow> waiting_domain w = i)) older"

definition scope_allows ::
  "lease list \<Rightarrow> waiting list \<Rightarrow> resources \<Rightarrow> resources \<Rightarrow> string option \<Rightarrow> string option \<Rightarrow> bool" where
  "scope_allows live older charge budget build domain =
     (let running = map lease_resources (scope_live build domain live);
          heads = map waiting_resources (scope_heads build domain older)
      in fst (pass_quantized (cpu budget) (map cpu running) (map cpu heads) (cpu charge) 1) \<and>
         (memory_bytes budget = 0 \<or>
          fst (pass_quantized (memory_bytes budget) (map memory_bytes running)
                 (map memory_bytes heads) (memory_bytes charge) MEMORY_QUANTUM)))"

definition scalar_scope_allows ::
  "lease list \<Rightarrow> waiting list \<Rightarrow> waiting \<Rightarrow> u64 \<Rightarrow> u64 \<Rightarrow> string option \<Rightarrow> string option \<Rightarrow> bool" where
  "scalar_scope_allows live older request capacity unit build domain =
     fst (pass_quantized capacity
       (map (\<lambda>l. weight_in_units (lease_weight l) (lease_bytes_per_permit l) unit)
          (scope_live build domain live))
       (map (\<lambda>w. weight_in_units (waiting_weight w) (waiting_bytes_per_permit w) unit)
          (scope_heads build domain older))
       (weight_in_units (waiting_weight request) (waiting_bytes_per_permit request) unit) 1)"

section \<open>The decision\<close>

datatype admission_verdict = Ordered | Passing | Waiting

text \<open>
  One use of a \<open>BTreeSet\<close> of ceilings already checked,
  \<open>checked.insert(key) && !allows(..)\<close>: the check runs only for a new key, \<open>None\<close> is
  the early return of \<open>Waiting\<close>.
\<close>

definition check_once :: "'k \<Rightarrow> 'k set \<Rightarrow> bool \<Rightarrow> 'k set option" where
  "check_once key checked allowed =
     (if key \<notin> checked \<and> \<not> allowed then None else Some (insert key checked))"

text \<open>The first loop over the older waiters. \<open>False\<close> is an early return of \<open>Waiting\<close>.\<close>

fun vector_loop ::
  "(resources \<Rightarrow> string option \<Rightarrow> string option \<Rightarrow> bool) \<Rightarrow> waiting \<Rightarrow> resources \<Rightarrow>
   (u64 \<times> u64) set \<Rightarrow> (bool \<times> u64 \<times> u64) set \<Rightarrow> waiting list \<Rightarrow> bool" where
  "vector_loop allows request budget checked_global checked [] = True"
| "vector_loop allows request budget checked_global checked (waiter # rest) =
     (let global = global_budget waiter budget;
          domain = domain_budget waiter
      in case check_once (cpu global, memory_bytes global) checked_global (allows global None None) of
           None \<Rightarrow> False
         | Some checked_global' \<Rightarrow>
        (case (if waiting_domain waiter = waiting_domain request
               then check_once (False, cpu domain, memory_bytes domain) checked
                      (allows domain None (Some (waiting_domain waiter)))
               else Some checked) of
           None \<Rightarrow> False
         | Some checked' \<Rightarrow>
        (case (case (waiting_build waiter, waiting_build request) of
                 (Some (i, ceiling), Some (request_id, _)) \<Rightarrow>
                   if i = request_id
                   then check_once (True, ceiling, 0) checked'
                          (allows \<lparr>cpu = ceiling, memory_bytes = 0\<rparr> (Some i) None)
                   else Some checked'
               | _ \<Rightarrow> Some checked') of
           None \<Rightarrow> False
         | Some checked'' \<Rightarrow> vector_loop allows request budget checked_global' checked'' rest)))"

text \<open>
  The second loop: waiters written without the two resource fields still decide for themselves
  with scalar weights, so a pass must also be safe in their units.
\<close>

fun scalar_loop ::
  "(u64 \<Rightarrow> u64 \<Rightarrow> string option \<Rightarrow> string option \<Rightarrow> bool) \<Rightarrow> waiting \<Rightarrow> u64 \<Rightarrow>
   (nat \<times> u64 \<times> u64) set \<Rightarrow> waiting list \<Rightarrow> bool" where
  "scalar_loop allows request capacity checked [] = True"
| "scalar_loop allows request capacity checked (waiter # rest) =
     (if waiting_cpu waiter \<noteq> None \<and> waiting_memory_bytes waiter \<noteq> None
      then scalar_loop allows request capacity checked rest
      else
        (let unit = waiting_bytes_per_permit waiter;
             global = unwrap_or (global_capacity waiter) capacity
         in case check_once (0, global, unit) checked (allows global unit None None) of
              None \<Rightarrow> False
            | Some checked1 \<Rightarrow>
           (case (if waiting_domain waiter = waiting_domain request
                  then check_once (1, domain_capacity waiter, unit) checked1
                         (allows (domain_capacity waiter) unit None (Some (waiting_domain waiter)))
                  else Some checked1) of
              None \<Rightarrow> False
            | Some checked2 \<Rightarrow>
           (case (case (waiting_build waiter, waiting_build request) of
                    (Some (i, ceiling), Some (request_id, _)) \<Rightarrow>
                      if i = request_id
                      then check_once (2, ceiling, unit) checked2 (allows ceiling unit (Some i) None)
                      else Some checked2
                  | _ \<Rightarrow> Some checked2) of
              None \<Rightarrow> False
            | Some checked3 \<Rightarrow> scalar_loop allows request capacity checked3 rest))))"

text \<open>
  The waiters ahead of a request, oldest first. Tickets are distinct (they are drawn above every
  waiting ticket under the registrar lock), so the order the unstable sort leaves equal keys in
  does not arise.
\<close>

definition older_waiters :: "waiting list \<Rightarrow> waiting \<Rightarrow> waiting list" where
  "older_waiters waiters request =
     sort_key ticket (filter (\<lambda>older. ticket older < ticket request \<and>
       \<not> priority_exception older request) waiters)"

definition request_fallback :: "u64 \<Rightarrow> waiting \<Rightarrow> resources" where
  "request_fallback capacity request =
     \<lparr>cpu = capacity, memory_bytes = saturating_mul capacity (waiting_bytes_per_permit request)\<rparr>"

definition request_budget :: "u64 \<Rightarrow> waiting \<Rightarrow> resources" where
  "request_budget capacity request = global_budget request (request_fallback capacity request)"

definition admission_decision ::
  "u64 \<Rightarrow> lease list \<Rightarrow> waiting list \<Rightarrow> waiting \<Rightarrow> admission_verdict" where
  "admission_decision capacity live waiters request =
     (let budget = request_budget capacity request;
          charge = waiting_resources request
      in if \<not> build_fits live (waiting_build request) (cpu charge) \<or>
            \<not> resources_fits (domain_budget request) (domain_used live (waiting_domain request)) charge \<or>
            \<not> resources_fits budget (scope_used live) charge
         then Waiting
         else
           (let older = older_waiters waiters request
            in if \<not> (\<exists>w \<in> set older. older_exception live w request = None) then Ordered
               else if \<not> scope_allows live older charge budget None None then Waiting
               else if \<not> vector_loop (scope_allows live older charge) request budget
                           {(cpu budget, memory_bytes budget)} {} older then Waiting
               else if \<not> scalar_loop (scalar_scope_allows live older request) request capacity {} older
                 then Waiting
               else Passing))"

section \<open>Totals\<close>

text \<open>The saturating totals are the true totals clamped to the width.\<close>

lemma foldl_add_charge_eq:
  "cpu acc \<le> u64_max \<Longrightarrow> memory_bytes acc \<le> u64_max \<Longrightarrow>
   cpu (foldl add_charge acc ls) =
     min u64_max (cpu acc + sum_list (map (cpu \<circ> lease_resources) ls)) \<and>
   memory_bytes (foldl add_charge acc ls) =
     min u64_max (memory_bytes acc + sum_list (map (memory_bytes \<circ> lease_resources) ls))"
proof (induction ls arbitrary: acc)
  case (Cons l ls)
  have "cpu (add_charge acc l) \<le> u64_max" "memory_bytes (add_charge acc l) \<le> u64_max"
    by (auto simp: add_charge_def saturating_add_def)
  from Cons.IH [OF this] show ?case
    by (simp add: saturating_add_def add_charge_def [of acc l]) (simp add: min_def)
qed simp

lemma scope_used_eq:
  "cpu (scope_used ls) = min u64_max (sum_list (map (cpu \<circ> lease_resources) ls))"
  "memory_bytes (scope_used ls) = min u64_max (sum_list (map (memory_bytes \<circ> lease_resources) ls))"
  by (simp_all add: scope_used_def foldl_add_charge_eq)

lemma scope_used_Nil [simp]: "scope_used [] = \<lparr>cpu = 0, memory_bytes = 0\<rparr>"
  by (simp add: scope_used_def)

lemma resources_fits_idle [simp]: "resources_fits budget \<lparr>cpu = 0, memory_bytes = 0\<rparr> charge"
  by (simp add: resources_fits_def fits_def)

lemma domain_used_Nil [simp]: "domain_used [] d = \<lparr>cpu = 0, memory_bytes = 0\<rparr>"
  by (simp add: domain_used_def)

lemma build_fits_Nil [simp]: "build_fits [] build c"
  by (simp add: build_fits_def fits_def split: option.split)

section \<open>What the loops check\<close>

text \<open>
  The checks one older waiter asks for, without the sets that remember the ceilings already
  checked. The loops below are the code's; the two lemmas say that remembering changes nothing.
\<close>

definition vector_checks ::
  "(resources \<Rightarrow> string option \<Rightarrow> string option \<Rightarrow> bool) \<Rightarrow> waiting \<Rightarrow> resources \<Rightarrow> waiting \<Rightarrow> bool" where
  "vector_checks allows request budget w \<longleftrightarrow>
     allows (global_budget w budget) None None \<and>
     (waiting_domain w = waiting_domain request \<longrightarrow>
        allows (domain_budget w) None (Some (waiting_domain request))) \<and>
     (\<forall>i ceiling c. waiting_build w = Some (i, ceiling) \<longrightarrow> waiting_build request = Some (i, c) \<longrightarrow>
        allows \<lparr>cpu = ceiling, memory_bytes = 0\<rparr> (Some i) None)"

definition scalar_checks ::
  "(u64 \<Rightarrow> u64 \<Rightarrow> string option \<Rightarrow> string option \<Rightarrow> bool) \<Rightarrow> waiting \<Rightarrow> u64 \<Rightarrow> waiting \<Rightarrow> bool" where
  "scalar_checks allows request capacity w \<longleftrightarrow>
     waiting_cpu w \<noteq> None \<and> waiting_memory_bytes w \<noteq> None \<or>
     allows (unwrap_or (global_capacity w) capacity) (waiting_bytes_per_permit w) None None \<and>
     (waiting_domain w = waiting_domain request \<longrightarrow>
        allows (domain_capacity w) (waiting_bytes_per_permit w) None (Some (waiting_domain request))) \<and>
     (\<forall>i ceiling c. waiting_build w = Some (i, ceiling) \<longrightarrow> waiting_build request = Some (i, c) \<longrightarrow>
        allows ceiling (waiting_bytes_per_permit w) (Some i) None)"

definition vector_key ::
  "(resources \<Rightarrow> string option \<Rightarrow> string option \<Rightarrow> bool) \<Rightarrow> waiting \<Rightarrow> bool \<times> u64 \<times> u64 \<Rightarrow> bool" where
  "vector_key allows request = (\<lambda>(build, c, m).
     if build
     then (case waiting_build request of None \<Rightarrow> False
           | Some (i, _) \<Rightarrow> allows \<lparr>cpu = c, memory_bytes = m\<rparr> (Some i) None)
     else allows \<lparr>cpu = c, memory_bytes = m\<rparr> None (Some (waiting_domain request)))"

definition scalar_key ::
  "(u64 \<Rightarrow> u64 \<Rightarrow> string option \<Rightarrow> string option \<Rightarrow> bool) \<Rightarrow> waiting \<Rightarrow> nat \<times> u64 \<times> u64 \<Rightarrow> bool" where
  "scalar_key allows request = (\<lambda>(kind, c, unit).
     if kind = 0 then allows c unit None None
     else if kind = 1 then allows c unit None (Some (waiting_domain request))
     else (case waiting_build request of None \<Rightarrow> False
           | Some (i, _) \<Rightarrow> allows c unit (Some i) None))"

lemma resources_eta [simp]: "\<lparr>cpu = cpu r, memory_bytes = memory_bytes r\<rparr> = (r :: resources)"
  by simp

lemma key_simps [simp]:
  "vector_key allows request (False, c, m) =
     allows \<lparr>cpu = c, memory_bytes = m\<rparr> None (Some (waiting_domain request))"
  "waiting_build request = Some (i, k) \<Longrightarrow>
     vector_key allows request (True, c, m) = allows \<lparr>cpu = c, memory_bytes = m\<rparr> (Some i) None"
  "scalar_key allows' request (0, c, unit) = allows' c unit None None"
  "scalar_key allows' request (Suc 0, c, unit) = allows' c unit None (Some (waiting_domain request))"
  "waiting_build request = Some (i, k) \<Longrightarrow>
     scalar_key allows' request (2, c, unit) = allows' c unit (Some i) None"
  by (simp_all add: vector_key_def scalar_key_def)

lemma check_once_remembered:
  "(\<forall>k \<in> checked. P k) \<Longrightarrow> allowed = P key \<Longrightarrow>
   check_once key checked allowed = (if P key then Some (insert key checked) else None)"
  by (auto simp: check_once_def)

lemma vector_loop_iff:
  "\<forall>(c, m) \<in> checked_global. allows \<lparr>cpu = c, memory_bytes = m\<rparr> None None \<Longrightarrow>
   \<forall>k \<in> checked. vector_key allows request k \<Longrightarrow>
   vector_loop allows request budget checked_global checked ws \<longleftrightarrow>
     (\<forall>w \<in> set ws. vector_checks allows request budget w)"
proof (induction ws arbitrary: checked_global checked)
  case (Cons w ws)
  let ?g = "global_budget w budget" and ?d = "domain_budget w"
  note once = check_once_remembered [where P = "vector_key allows request"]
  have global: "check_once (cpu ?g, memory_bytes ?g) checked_global (allows ?g None None) =
      (if allows ?g None None then Some (insert (cpu ?g, memory_bytes ?g) checked_global) else None)"
    using Cons.prems(1)
    by (subst check_once_remembered [where P = "\<lambda>(c, m). allows \<lparr>cpu = c, memory_bytes = m\<rparr> None None"])
      auto
  show ?case
    using Cons.prems
    by (cases "waiting_build w"; cases "waiting_build request")
      (auto simp: Let_def vector_checks_def global once Cons.IH split: if_splits)
qed simp

lemma option_pair_exhaust:
  obtains "x = None" | a b where "x = Some (a, b)"
  by (cases x) auto

lemma scalar_loop_iff:
  "\<forall>k \<in> checked. scalar_key allows request k \<Longrightarrow>
   scalar_loop allows request capacity checked ws \<longleftrightarrow>
     (\<forall>w \<in> set ws. scalar_checks allows request capacity w)"
proof (induction ws arbitrary: checked)
  case (Cons w ws)
  note once = check_once_remembered [where P = "scalar_key allows request"]
  show ?case
  proof (cases "waiting_cpu w \<noteq> None \<and> waiting_memory_bytes w \<noteq> None")
    case True
    then have "scalar_checks allows request capacity w" by (simp add: scalar_checks_def)
    with True Cons show ?thesis by simp
  next
    case False
    then have checks: "scalar_checks allows request capacity w \<longleftrightarrow>
      allows (unwrap_or (global_capacity w) capacity) (waiting_bytes_per_permit w) None None \<and>
      (waiting_domain w = waiting_domain request \<longrightarrow>
         allows (domain_capacity w) (waiting_bytes_per_permit w) None (Some (waiting_domain request))) \<and>
      (\<forall>i ceiling c. waiting_build w = Some (i, ceiling) \<longrightarrow> waiting_build request = Some (i, c) \<longrightarrow>
         allows ceiling (waiting_bytes_per_permit w) (Some i) None)"
      unfolding scalar_checks_def by (simp only: False simp_thms)
    from False have skip: "\<not> ((\<exists>y. waiting_cpu w = Some y) \<and> (\<exists>y. waiting_memory_bytes w = Some y))"
      by simp
    show ?thesis
      using Cons.prems
      by (cases "waiting_build w" rule: option_pair_exhaust;
          cases "waiting_build request" rule: option_pair_exhaust)
        (simp_all add: skip Let_def checks once Cons.IH split: if_splits)
  qed
qed simp

section \<open>The two axes together\<close>

text \<open>
  \<open>starts_after budget live ahead finished extra\<close>: once the items of \<open>finished\<close> have
  completed, the older requests \<open>ahead\<close> fit on both axes beside what is left of \<open>live\<close>
  and the earlier starts, with \<open>extra\<close> also held.
\<close>

definition starts_after ::
  "resources \<Rightarrow> resources list \<Rightarrow> resources list \<Rightarrow> resources list \<Rightarrow> resources \<Rightarrow> bool" where
  "starts_after budget live ahead finished extra \<longleftrightarrow>
     sum_list (map cpu live) + cpu extra + sum_list (map cpu ahead)
       \<le> cpu budget + sum_list (map cpu finished) \<and>
     (memory_bytes budget = 0 \<or>
      sum_list (map memory_bytes live) + memory_bytes extra + sum_list (map memory_bytes ahead)
       \<le> memory_bytes budget + sum_list (map memory_bytes finished))"

text \<open>No set of completions that starts an older prefix is made insufficient by the charge.\<close>

definition joint_safe :: "resources \<Rightarrow> resources list \<Rightarrow> resources list \<Rightarrow> resources \<Rightarrow> bool" where
  "joint_safe budget live older charge \<longleftrightarrow>
     (\<forall>k < length older. \<forall>finished \<in> set (subseqs (live @ take k older)).
        starts_after budget live (take (Suc k) older) finished \<lparr>cpu = 0, memory_bytes = 0\<rparr> \<longrightarrow>
        starts_after budget live (take (Suc k) older) finished charge)"

lemma map_in_subseqs: "ys \<in> set (subseqs xs) \<Longrightarrow> map f ys \<in> set (subseqs (map f xs))"
  by (induction xs arbitrary: ys) (auto simp: Let_def)

lemma joint_safeI:
  assumes "passing_safe (cpu budget) (map cpu live) (map cpu older) (cpu charge)"
    and "memory_bytes budget = 0 \<or>
      passing_safe (memory_bytes budget) (map memory_bytes live) (map memory_bytes older)
        (memory_bytes charge)"
  shows "joint_safe budget live older charge"
  unfolding joint_safe_def starts_after_def
proof (intro allI ballI impI, elim conjE, intro conjI)
  fix k finished
  assume k: "k < length older" and f: "finished \<in> set (subseqs (live @ take k older))"
  have axis: "map g finished \<in> set (subseqs (map g live @ take k (map g older)))" for g
    using map_in_subseqs [OF f, of g] by (simp add: take_map)
  let ?hd = "take (Suc k) older"
  assume c: "sum_list (map cpu live) + cpu \<lparr>cpu = 0, memory_bytes = 0\<rparr> + sum_list (map cpu ?hd)
      \<le> cpu budget + sum_list (map cpu finished)"
  from assms(1) k axis [of cpu] c
  show "sum_list (map cpu live) + cpu charge + sum_list (map cpu ?hd)
      \<le> cpu budget + sum_list (map cpu finished)"
    by (auto simp: passing_safe_def take_map)
  assume m: "memory_bytes budget = 0 \<or>
      sum_list (map memory_bytes live) + memory_bytes \<lparr>cpu = 0, memory_bytes = 0\<rparr>
        + sum_list (map memory_bytes ?hd) \<le> memory_bytes budget + sum_list (map memory_bytes finished)"
  from assms(2) k axis [of memory_bytes] m
  show "memory_bytes budget = 0 \<or>
      sum_list (map memory_bytes live) + memory_bytes charge + sum_list (map memory_bytes ?hd)
        \<le> memory_bytes budget + sum_list (map memory_bytes finished)"
    by (auto simp: passing_safe_def take_map)
qed

definition scope_safe ::
  "lease list \<Rightarrow> waiting list \<Rightarrow> resources \<Rightarrow> resources \<Rightarrow> string option \<Rightarrow> string option \<Rightarrow> bool" where
  "scope_safe live older charge budget build domain =
     joint_safe budget (map lease_resources (scope_live build domain live))
       (map waiting_resources (scope_heads build domain older)) charge"

definition scalar_scope_safe ::
  "lease list \<Rightarrow> waiting list \<Rightarrow> waiting \<Rightarrow> u64 \<Rightarrow> u64 \<Rightarrow> string option \<Rightarrow> string option \<Rightarrow> bool" where
  "scalar_scope_safe live older request capacity unit build domain =
     passing_safe capacity
       (map (\<lambda>l. weight_in_units (lease_weight l) (lease_bytes_per_permit l) unit)
          (scope_live build domain live))
       (map (\<lambda>w. weight_in_units (waiting_weight w) (waiting_bytes_per_permit w) unit)
          (scope_heads build domain older))
       (weight_in_units (waiting_weight request) (waiting_bytes_per_permit request) unit)"

lemma scope_allows_safe: "scope_allows live older charge budget build domain \<Longrightarrow>
  scope_safe live older charge budget build domain"
  unfolding scope_safe_def
  by (rule joint_safeI)
    (auto simp: scope_allows_def Let_def MEMORY_QUANTUM_def intro: pass_quantized_sound)

lemma scalar_scope_allows_safe: "scalar_scope_allows live older request capacity unit build domain \<Longrightarrow>
  scalar_scope_safe live older request capacity unit build domain"
  unfolding scalar_scope_safe_def scalar_scope_allows_def
  by (rule pass_quantized_sound [where unit = 1]) simp_all

lemma vector_checks_mono:
  assumes "vector_checks allows request budget w" "\<And>b i d. allows b i d \<Longrightarrow> safe b i d"
  shows "vector_checks safe request budget w"
  using assms unfolding vector_checks_def by blast

lemma scalar_checks_mono:
  assumes "scalar_checks allows request capacity w" "\<And>c u i d. allows c u i d \<Longrightarrow> safe c u i d"
  shows "scalar_checks safe request capacity w"
  using assms unfolding scalar_checks_def by blast

section \<open>The decision's contract\<close>

definition request_fits :: "u64 \<Rightarrow> lease list \<Rightarrow> waiting \<Rightarrow> bool" where
  "request_fits capacity live request \<longleftrightarrow>
     build_fits live (waiting_build request) (cpu (waiting_resources request)) \<and>
     resources_fits (domain_budget request) (domain_used live (waiting_domain request))
       (waiting_resources request) \<and>
     resources_fits (request_budget capacity request) (scope_used live) (waiting_resources request)"

lemma older_exception_priority: "priority_exception w request \<Longrightarrow> older_exception live w request \<noteq> None"
  by (simp add: older_exception_def)

lemma set_older_waiters:
  "set (older_waiters waiters request) =
     {w \<in> set waiters. ticket w < ticket request \<and> \<not> priority_exception w request}"
  by (auto simp: older_waiters_def)

lemma admission_not_Waiting:
  "admission_decision capacity live waiters request \<noteq> Waiting \<Longrightarrow> request_fits capacity live request"
  by (auto simp: admission_decision_def request_fits_def Let_def split: if_splits)

lemma admission_Ordered_iff:
  "admission_decision capacity live waiters request = Ordered \<longleftrightarrow>
     request_fits capacity live request \<and>
     (\<forall>w \<in> set waiters. ticket w < ticket request \<longrightarrow> older_exception live w request \<noteq> None)"
  using older_exception_priority
  by (auto simp: admission_decision_def request_fits_def Let_def set_older_waiters)

lemma admission_Passing_iff:
  "admission_decision capacity live waiters request = Passing \<longleftrightarrow>
     (let older = older_waiters waiters request;
          budget = request_budget capacity request;
          allows = scope_allows live older (waiting_resources request)
      in request_fits capacity live request \<and>
         (\<exists>w \<in> set older. older_exception live w request = None) \<and>
         allows budget None None \<and>
         (\<forall>w \<in> set older. vector_checks allows request budget w \<and>
            scalar_checks (scalar_scope_allows live older request) request capacity w))"
proof -
  let ?older = "older_waiters waiters request"
  let ?budget = "request_budget capacity request"
  let ?allows = "scope_allows live ?older (waiting_resources request)"
  have v: "vector_loop ?allows request ?budget {(cpu ?budget, memory_bytes ?budget)} {} ?older \<longleftrightarrow>
      (\<forall>w \<in> set ?older. vector_checks ?allows request ?budget w)" if "?allows ?budget None None"
    using that by (intro vector_loop_iff) simp_all
  have s: "scalar_loop (scalar_scope_allows live ?older request) request capacity {} ?older \<longleftrightarrow>
      (\<forall>w \<in> set ?older. scalar_checks (scalar_scope_allows live ?older request) request capacity w)"
    by (intro scalar_loop_iff) simp
  show ?thesis
    unfolding admission_decision_def Let_def s request_fits_def using v by auto
qed

section \<open>Properties\<close>

text \<open>
  The charge of a request on a ceiling, over exact totals: an idle axis admits anything, a busy
  one only what fits beside what is held, and a memory ceiling of zero is no ceiling.
\<close>

definition within_budget :: "resources \<Rightarrow> lease list \<Rightarrow> resources \<Rightarrow> bool" where
  "within_budget budget ls charge \<longleftrightarrow>
     (let c = sum_list (map (cpu \<circ> lease_resources) ls);
          m = sum_list (map (memory_bytes \<circ> lease_resources) ls)
      in (c = 0 \<or> c + cpu charge \<le> cpu budget) \<and>
         (memory_bytes budget = 0 \<or> m = 0 \<or> m + memory_bytes charge \<le> memory_bytes budget))"

lemma fits_exact:
  assumes "fits (min u64_max n) charge capacity" "capacity < u64_max"
  shows "n = 0 \<or> n + charge \<le> capacity"
  using fits_cases [OF assms(1)] assms(2) by (auto simp: min_def split: if_splits)

lemma resources_fits_exact:
  assumes "resources_fits budget (scope_used ls) charge"
    and "cpu budget < u64_max" "memory_bytes budget < u64_max"
  shows "within_budget budget ls charge"
  using assms
    fits_exact [of "sum_list (map (cpu \<circ> lease_resources) ls)" "cpu charge" "cpu budget"]
    fits_exact [of "sum_list (map (memory_bytes \<circ> lease_resources) ls)" "memory_bytes charge"
      "memory_bytes budget"]
  unfolding resources_fits_def within_budget_def scope_used_eq Let_def by blast

text \<open>
  C1. A request that passes older waiters takes nothing from them. When the decision is
  \<open>Passing\<close>, then in every scope the request shares with an older waiter -- the request's own
  global ceiling, the waiter's global ceiling, the shared domain, the shared build -- no set of
  completions that starts a prefix of the older waiters on both axes at once becomes insufficient
  when the request is admitted. A waiter with a record of the scalar format is protected in its
  own units as well.
\<close>

theorem passing_protects_older_waiters:
  assumes "admission_decision capacity live waiters request = Passing"
  defines "older \<equiv> older_waiters waiters request"
    and "charge \<equiv> waiting_resources request"
    and "budget \<equiv> request_budget capacity request"
  shows "scope_safe live older charge budget None None \<and>
    (\<forall>w \<in> set waiters. ticket w < ticket request \<longrightarrow>
       priority_exception w request \<or>
       vector_checks (scope_safe live older charge) request budget w \<and>
       scalar_checks (scalar_scope_safe live older request) request capacity w)"
proof -
  from assms(1) have
    own: "scope_allows live older charge budget None None" and
    each: "\<And>w. w \<in> set older \<Longrightarrow> vector_checks (scope_allows live older charge) request budget w \<and>
       scalar_checks (scalar_scope_allows live older request) request capacity w"
    unfolding admission_Passing_iff Let_def older_def charge_def budget_def by blast+
  have "vector_checks (scope_safe live older charge) request budget w"
    "scalar_checks (scalar_scope_safe live older request) request capacity w" if "w \<in> set older" for w
    using each [OF that] scope_allows_safe scalar_scope_allows_safe
    by (blast intro: vector_checks_mono scalar_checks_mono)+
  with scope_allows_safe [OF own] show ?thesis
    unfolding older_def by (auto simp: set_older_waiters)
qed

definition sample_waiting :: "u64 \<Rightarrow> u64 \<Rightarrow> waiting" where
  "sample_waiting t c =
     \<lparr>pid = None, first_arrival_ms = None, waiting_name = None, waiting_mode_key = None, ticket = t,
      waiting_weight = c, waiting_cpu = Some c, waiting_memory_bytes = Some 0,
      waiting_priority = ''normal'', waiting_domain = ''d'', domain_capacity = 8,
      global_capacity = None, cpu_cap = Some 8, mem_cap = Some 0, domain_memory_cap = Some 0,
      domain_cpu_cap = Some 8, waiting_bytes_per_permit = 0, waiting_build = Some (''b'', 8)\<rparr>"

definition sample_lease :: "u64 \<Rightarrow> lease" where
  "sample_lease c =
     \<lparr>lease_version = 2, lease_name = None, lease_mode_key = None, lease_weight = c,
      lease_cpu = Some c, lease_memory_bytes = Some 0, lease_priority = ''normal'',
      lease_build_id = Some ''b'', lease_domain = Some ''d'', lease_bytes_per_permit = 0\<rparr>"

lemmas admission_eval =
  admission_decision_def request_budget_def request_fallback_def older_waiters_def
  older_exception_def priority_exception_def domain_used_def scope_used_def add_charge_def in_domain_def
  build_fits_def resources_fits_def fits_def lease_resources_def waiting_resources_def
  record_resources_def global_budget_def domain_budget_def saturating_add_def saturating_mul_def
  scope_allows_def scope_live_def scope_heads_def check_once_def sample_waiting_def sample_lease_def

theorem passing_protects_older_waiters_witness:
  "admission_decision 8 [sample_lease 4] [sample_waiting 5 6] (sample_waiting 6 2) = Passing \<and>
   scope_safe [sample_lease 4] [sample_waiting 5 6] \<lparr>cpu = 2, memory_bytes = 0\<rparr>
     \<lparr>cpu = 8, memory_bytes = 0\<rparr> None None"
proof
  show decision: "admission_decision 8 [sample_lease 4] [sample_waiting 5 6] (sample_waiting 6 2) = Passing"
    by (simp add: admission_eval pass_eval)
  have "older_waiters [sample_waiting 5 6] (sample_waiting 6 2) = [sample_waiting 5 6]"
    "waiting_resources (sample_waiting 6 2) = \<lparr>cpu = 2, memory_bytes = 0\<rparr>"
    "request_budget 8 (sample_waiting 6 2) = \<lparr>cpu = 8, memory_bytes = 0\<rparr>"
    by (simp_all add: admission_eval)
  with passing_protects_older_waiters [OF decision]
  show "scope_safe [sample_lease 4] [sample_waiting 5 6] \<lparr>cpu = 2, memory_bytes = 0\<rparr>
     \<lparr>cpu = 8, memory_bytes = 0\<rparr> None None"
    by simp
qed





text \<open>
  C6. Progress: with nothing running, a request with no older waiter of its own or higher priority
  is admitted in order whatever its size, so an oversize request can never block the pool.
\<close>

theorem idle_pool_admits_head:
  assumes "\<forall>w \<in> set waiters. ticket w < ticket request \<longrightarrow> priority_exception w request"
  shows "admission_decision capacity [] waiters request = Ordered"
  using assms older_exception_priority
  unfolding admission_Ordered_iff request_fits_def by auto

theorem idle_pool_admits_head_witness:
  "admission_decision 8 [] [sample_waiting 8 1, sample_waiting 9 2] (sample_waiting 7 100) = Ordered"
  by (rule idle_pool_admits_head) (simp add: sample_waiting_def)

end
