(* ===== verification/Pressure.thy ===== *)
theory Pressure
  imports Complex_Main Ordered_Map Text
begin

text \<open>
  Advisory memory-pressure sampling (\<open>pressure.rs\<close>): the hysteresis state machine
  \<open>State::update\<close>, the rate-limited \<open>sample\<close> with its in-process copy of a state that
  could not be saved, and the parser of the kernel's stall counters. Ratios are exact rationals:
  the code's \<open>f64\<close> quotients are only compared with fixed thresholds, and for the elapsed
  times the code admits and memory sizes below \<open>2^48\<close> bytes the rounded comparison has the same
  answer. What the probe reads and whether a write succeeds are inputs.
\<close>

section \<open>State\<close>

definition INTERVAL_MS :: u64 where "INTERVAL_MS = 500"
definition STALE_MS :: u64 where "STALE_MS = 3000"
definition PRESSURE_VERSION :: nat where "PRESSURE_VERSION = 1"

record reading =
  total_bytes :: "u64 option"
  available_bytes :: "u64 option"
  stalls :: "(string, u64) btree_map"

record pressure_state =
  version :: nat
  sampled_ms :: u64
  last_reading :: reading
  bad_samples :: nat
  healthy_since :: "u64 option"
  pressured :: bool
  valid :: bool
  recovered_ms :: "u64 option"
  last_admission_ms :: "u64 option"

definition default_reading :: reading where
  "default_reading = \<lparr>total_bytes = None, available_bytes = None, stalls = []\<rparr>"

definition default_state :: pressure_state where
  "default_state = \<lparr>version = 0, sampled_ms = 0, last_reading = default_reading, bad_samples = 0,
     healthy_since = None, pressured = False, valid = False, recovered_ms = None,
     last_admission_ms = None\<rparr>"

text \<open>The first line whose first field is \<open>full\<close> and that has a readable total.\<close>

definition full_total :: "string \<Rightarrow> u64 option" where
  "full_total text = find_map (\<lambda>line.
     case split_whitespace line of
       [] \<Rightarrow> None
     | f # rest \<Rightarrow>
         if f = ''full''
         then find_map (\<lambda>field. Option.bind (strip_prefix ''total='' field) parse_u64) rest
         else None) (lines_of text)"

section \<open>One update\<close>

definition elapsed_since :: "pressure_state \<Rightarrow> u64 \<Rightarrow> u64 option" where
  "elapsed_since s now =
     (case checked_sub now (sampled_ms s) of
        Some n \<Rightarrow> if n > 0 \<and> n \<le> STALE_MS then Some n else None
      | None \<Rightarrow> None)"

definition comparable :: "pressure_state \<Rightarrow> u64 \<Rightarrow> bool" where
  "comparable s now \<longleftrightarrow> version s = PRESSURE_VERSION \<and> elapsed_since s now \<noteq> None"

text \<open>\<open>reduce(f64::max)\<close>.\<close>

fun reduce_max :: "rat list \<Rightarrow> rat option" where
  "reduce_max [] = None"
| "reduce_max (x # xs) = Some (foldl max x xs)"

definition stall_deltas :: "pressure_state \<Rightarrow> reading \<Rightarrow> u64 list" where
  "stall_deltas s r =
     List.map_filter (\<lambda>(source, value).
       Option.bind (bt_get (stalls (last_reading s)) source) (checked_sub value)) (stalls r)"

definition stall_percent :: "pressure_state \<Rightarrow> u64 \<Rightarrow> reading \<Rightarrow> rat option" where
  "stall_percent s now r =
     (if comparable s now
      then reduce_max (map (\<lambda>delta. of_nat delta / (of_nat (the (elapsed_since s now)) * 10))
             (stall_deltas s r))
      else None)"

definition headroom :: "reading \<Rightarrow> rat option" where
  "headroom r =
     (case (total_bytes r, available_bytes r) of
        (Some t, Some a) \<Rightarrow> if t > 0 then Some (of_nat a / of_nat t) else None
      | _ \<Rightarrow> None)"

definition has_evidence :: "pressure_state \<Rightarrow> u64 \<Rightarrow> reading \<Rightarrow> bool" where
  "has_evidence s now r \<longleftrightarrow> headroom r \<noteq> None \<or> stall_percent s now r \<noteq> None"

definition is_bad :: "pressure_state \<Rightarrow> u64 \<Rightarrow> reading \<Rightarrow> bool" where
  "is_bad s now r \<longleftrightarrow>
     (case headroom r of Some v \<Rightarrow> v < 5 / 100 | None \<Rightarrow> False) \<or>
     (case stall_percent s now r of Some v \<Rightarrow> v \<ge> 10 | None \<Rightarrow> False)"

definition is_healthy :: "pressure_state \<Rightarrow> u64 \<Rightarrow> reading \<Rightarrow> bool" where
  "is_healthy s now r \<longleftrightarrow>
     has_evidence s now r \<and>
     (case headroom r of Some v \<Rightarrow> v > 10 / 100 | None \<Rightarrow> True) \<and>
     (case stall_percent s now r of Some v \<Rightarrow> v < 2 | None \<Rightarrow> True)"

text \<open>A stale or foreign state is discarded; a forward gap keeps the recovery spacing.\<close>

definition discard_stale :: "pressure_state \<Rightarrow> u64 \<Rightarrow> pressure_state" where
  "discard_stale s now =
     (if comparable s now then s
      else if version s = PRESSURE_VERSION \<and> now > sampled_ms s
      then default_state\<lparr>recovered_ms := recovered_ms s, last_admission_ms := last_admission_ms s\<rparr>
      else default_state)"

definition judge :: "bool \<Rightarrow> bool \<Rightarrow> bool \<Rightarrow> u64 \<Rightarrow> pressure_state \<Rightarrow> pressure_state" where
  "judge evidence bad healthy now s =
     (let s = s\<lparr>valid := evidence\<rparr>
      in if \<not> evidence
         then s\<lparr>pressured := False, bad_samples := 0, healthy_since := None, recovered_ms := None\<rparr>
         else if bad
         then (let s = s\<lparr>bad_samples := min 255 (bad_samples s + 1), healthy_since := None\<rparr>
               in if bad_samples s \<ge> 2 then s\<lparr>pressured := True, recovered_ms := None\<rparr> else s)
         else (let s = s\<lparr>bad_samples := 0\<rparr>
               in if pressured s \<and> healthy
                  then (let start = unwrap_or (healthy_since s) now;
                            s = s\<lparr>healthy_since := Some start\<rparr>
                        in if saturating_sub now start \<ge> 5000
                           then s\<lparr>pressured := False, recovered_ms := Some now, healthy_since := None\<rparr>
                           else s)
                  else s\<lparr>healthy_since := None\<rparr>))"

definition expire_recovery :: "u64 \<Rightarrow> pressure_state \<Rightarrow> pressure_state" where
  "expire_recovery now s =
     (case recovered_ms s of
        Some start \<Rightarrow> if saturating_sub now start \<ge> 5000 then s\<lparr>recovered_ms := None\<rparr> else s
      | None \<Rightarrow> s)"

definition update :: "pressure_state \<Rightarrow> u64 \<Rightarrow> reading \<Rightarrow> pressure_state" where
  "update s now r =
     (let judged = judge (has_evidence s now r) (is_bad s now r) (is_healthy s now r) now
                     (discard_stale s now)
      in (expire_recovery now judged)
           \<lparr>version := PRESSURE_VERSION, sampled_ms := now, last_reading := r\<rparr>)"

section \<open>Sampling\<close>

text \<open>
  The state file as its reader sees it (\<open>None\<close> when missing or unreadable) and the process's
  copy of a state it could not save, with the path it belongs to.
\<close>

record sampler =
  state_file :: "string \<Rightarrow> pressure_state option"
  unsaved :: "(string \<times> pressure_state) option"

definition known_state :: "sampler \<Rightarrow> string \<Rightarrow> pressure_state" where
  "known_state m path =
     (let state = (case state_file m path of Some s \<Rightarrow> s | None \<Rightarrow> default_state)
      in case unsaved m of
           Some (kept_path, kept) \<Rightarrow>
             if kept_path = path \<and>
                (version state \<noteq> PRESSURE_VERSION \<or> sampled_ms kept > sampled_ms state)
             then kept else state
         | None \<Rightarrow> state)"

definition recently_sampled :: "pressure_state \<Rightarrow> u64 \<Rightarrow> bool" where
  "recently_sampled s now \<longleftrightarrow>
     version s = PRESSURE_VERSION \<and>
     (case checked_sub now (sampled_ms s) of Some age \<Rightarrow> age < INTERVAL_MS | None \<Rightarrow> False)"

text \<open>The result is \<open>None\<close> when the write failed; the last component says whether the probe ran.\<close>

definition sample ::
  "sampler \<Rightarrow> string \<Rightarrow> u64 \<Rightarrow> reading \<Rightarrow> bool \<Rightarrow> pressure_state option \<times> sampler \<times> bool" where
  "sample m path now probe save_ok =
     (let state = known_state m path
      in if recently_sampled state now then (Some state, m, False)
         else (let state = update state now probe
               in if save_ok
                  then (Some state,
                        m\<lparr>state_file := (state_file m)(path \<mapsto> state),
                          unsaved := (case unsaved m of
                              Some (kept_path, _) \<Rightarrow> if kept_path = path then None else unsaved m
                            | None \<Rightarrow> None)\<rparr>, True)
                  else (None, m\<lparr>unsaved := Some (path, state)\<rparr>, True)))"

section \<open>Invariant\<close>

text \<open>
  A closed gate always rests on evidence and never coexists with recovery spacing; the count of bad
  samples stays in its byte; a healthy run is only timed while the gate is closed.
\<close>

definition pressure_inv :: "pressure_state \<Rightarrow> bool" where
  "pressure_inv s \<longleftrightarrow>
     (pressured s \<longrightarrow> valid s \<and> recovered_ms s = None) \<and>
     (healthy_since s \<noteq> None \<longrightarrow> pressured s \<and> bad_samples s = 0) \<and>
     bad_samples s \<le> 255"

lemmas update_defs = update_def judge_def discard_stale_def expire_recovery_def Let_def

lemma pressure_inv_default [simp]: "pressure_inv default_state"
  by (simp add: pressure_inv_def default_state_def)

lemma pressure_inv_update: "pressure_inv s \<Longrightarrow> pressure_inv (update s now r)"
  by (auto simp: pressure_inv_def update_defs default_state_def split: option.splits)

lemma not_comparable_fresh:
  "\<not> comparable s now \<Longrightarrow> pressured (discard_stale s now) = False \<and> bad_samples (discard_stale s now) = 0
     \<and> healthy_since (discard_stale s now) = None"
  by (simp add: discard_stale_def default_state_def)

lemma update_bookkeeping [simp]:
  "version (update s now r) = PRESSURE_VERSION" "sampled_ms (update s now r) = now"
  "last_reading (update s now r) = r"
  by (simp_all add: update_def Let_def)

lemma comparable_update:
  "comparable (update s now r) now' \<longleftrightarrow> now < now' \<and> now' - now \<le> STALE_MS"
  by (auto simp: comparable_def elapsed_since_def checked_sub_def)

lemma closes_iff:
  "\<not> pressured s \<Longrightarrow> pressured (update s now r) \<longleftrightarrow>
     has_evidence s now r \<and> is_bad s now r \<and> comparable s now \<and> bad_samples s \<ge> 1"
  by (auto simp: update_defs default_state_def split: option.splits)

lemma opens_iff:
  "pressured s \<Longrightarrow> comparable s now \<Longrightarrow> has_evidence s now r \<Longrightarrow> \<not> pressured (update s now r) \<longleftrightarrow>
     \<not> is_bad s now r \<and> is_healthy s now r \<and>
     (\<exists>start. healthy_since s = Some start \<and> 5000 \<le> now - start)"
  by (cases "healthy_since s") (auto simp: update_defs split: option.splits)

lemma healthy_since_update:
  "comparable s now \<Longrightarrow> has_evidence s now r \<Longrightarrow> healthy_since (update s now r) = Some start \<Longrightarrow>
     \<not> is_bad s now r \<and> is_healthy s now r \<and> pressured s \<and>
     (healthy_since s = Some start \<or> healthy_since s = None \<and> start = now)"
  by (cases "healthy_since s") (auto simp: update_defs split: option.splits if_splits)

lemma bad_samples_update:
  "bad_samples (update s now r) \<ge> 1 \<longleftrightarrow> has_evidence s now r \<and> is_bad s now r"
  by (auto simp: update_defs default_state_def split: option.splits)

lemma still_pressured:
  "pressured (update s now r) \<Longrightarrow> \<not> pressured s \<Longrightarrow> healthy_since (update s now r) = None"
  by (auto simp: update_defs default_state_def split: option.splits if_splits)

section \<open>Runs of samples\<close>

type_synonym timed_reading = "u64 \<times> reading"

definition run :: "pressure_state \<Rightarrow> timed_reading list \<Rightarrow> pressure_state" where
  "run s samples = foldl (\<lambda>s (now, r). update s now r) s samples"

lemma run_simps [simp]:
  "run s [] = s" "run s (samples @ [(now, r)]) = update (run s samples) now r"
  by (simp_all add: run_def)

lemma pressure_inv_run: "pressure_inv s \<Longrightarrow> pressure_inv (run s samples)"
  by (induction samples rule: rev_induct) (auto simp: pressure_inv_update)

text \<open>Every sample of a run is comparable with the one before it and carries evidence.\<close>

definition steady :: "pressure_state \<Rightarrow> timed_reading list \<Rightarrow> bool" where
  "steady s samples \<longleftrightarrow>
     (\<forall>i < length samples. comparable (run s (take i samples)) (fst (samples ! i)) \<and>
        has_evidence (run s (take i samples)) (fst (samples ! i)) (snd (samples ! i)))"

definition sample_healthy :: "pressure_state \<Rightarrow> timed_reading list \<Rightarrow> nat \<Rightarrow> bool" where
  "sample_healthy s samples i \<longleftrightarrow>
     \<not> is_bad (run s (take i samples)) (fst (samples ! i)) (snd (samples ! i)) \<and>
     is_healthy (run s (take i samples)) (fst (samples ! i)) (snd (samples ! i))"

lemma steady_snoc: "steady s (samples @ [x]) \<longleftrightarrow>
  steady s samples \<and> comparable (run s samples) (fst x) \<and> has_evidence (run s samples) (fst x) (snd x)"
  by (auto simp: steady_def less_Suc_eq nth_append)

lemma sample_healthy_append: "i < length samples \<Longrightarrow>
  sample_healthy s (samples @ ys) i = sample_healthy s samples i"
  by (simp add: sample_healthy_def nth_append)

text \<open>The timed healthy run: it started at a sample, and every sample since was healthy.\<close>

lemma healthy_since_run:
  assumes "pressure_inv s" "healthy_since s = None" "steady s samples"
    and "healthy_since (run s samples) = Some start"
  shows "\<exists>i < length samples. fst (samples ! i) = start \<and> (\<forall>j. i \<le> j \<longrightarrow> j < length samples \<longrightarrow> sample_healthy s samples j)"
  using assms(3,4)
proof (induction samples rule: rev_induct)
  case Nil
  with assms(2) show ?case by simp
next
  case (snoc x samples)
  obtain now r where x: "x = (now, r)" by (cases x)
  let ?s = "run s samples"
  from snoc.prems(1) have st: "steady s samples" "comparable ?s now" "has_evidence ?s now r"
    by (auto simp: steady_snoc x)
  from healthy_since_update [OF st(2,3)] snoc.prems(2) have
    h: "\<not> is_bad ?s now r" "is_healthy ?s now r" and
    start: "healthy_since ?s = Some start \<or> healthy_since ?s = None \<and> start = now"
    by (auto simp: x)
  have last: "sample_healthy s (samples @ [x]) (length samples)"
    using h by (simp add: sample_healthy_def x)
  show ?case
  proof (cases "healthy_since ?s = Some start")
    case True
    from snoc.IH [OF st(1) this] obtain i where
      i: "i < length samples" "fst (samples ! i) = start"
        "\<forall>j. i \<le> j \<longrightarrow> j < length samples \<longrightarrow> sample_healthy s samples j" by blast
    then show ?thesis
      using last by (intro exI [of _ i]) (auto simp: nth_append less_Suc_eq sample_healthy_append)
  next
    case False
    then show ?thesis
      using start last by (intro exI [of _ "length samples"]) (auto simp: x less_Suc_eq)
  qed
qed

lemma gate_opened_at:
  assumes "pressured s" "\<not> pressured (run s samples)"
  shows "\<exists>k < length samples. pressured (run s (take k samples)) \<and> \<not> pressured (run s (take (Suc k) samples))"
  using assms
proof (induction samples rule: rev_induct)
  case (snoc x samples)
  show ?case
  proof (cases "pressured (run s samples)")
    case True
    with snoc.prems show ?thesis by (intro exI [of _ "length samples"]) simp
  next
    case False
    with snoc.IH [OF snoc.prems(1)] obtain k where "k < length samples"
      "pressured (run s (take k samples))" "\<not> pressured (run s (take (Suc k) samples))" by blast
    then show ?thesis by (intro exI [of _ k]) simp
  qed
qed simp

section \<open>Properties\<close>

text \<open>
  C7. Hysteresis on closing: the admission gate closes only on the second of two bad samples in a
  row. If an update closes an open gate, this sample shows less than five percent headroom or a
  stall of ten percent or more, and the previous comparable sample was bad as well.
\<close>

theorem gate_closes_on_second_bad_sample:
  assumes "\<not> pressured (update s now r)" and "pressured (update (update s now r) now' r')"
  shows "is_bad (update s now r) now' r' \<and> has_evidence s now r \<and> is_bad s now r \<and>
    now < now' \<and> now' - now \<le> STALE_MS"
  using assms closes_iff [OF assms(1), of now' r'] bad_samples_update [of s now r]
  by (auto simp: comparable_update)

definition low_memory :: reading where
  "low_memory = \<lparr>total_bytes = Some 100, available_bytes = Some 4, stalls = []\<rparr>"

lemmas pressure_eval =
  low_memory_def default_state_def default_reading_def update_defs is_bad_def is_healthy_def
  has_evidence_def headroom_def stall_percent_def stall_deltas_def comparable_def elapsed_since_def
  checked_sub_def PRESSURE_VERSION_def STALE_MS_def map_filter_def

theorem gate_closes_on_second_bad_sample_witness:
  "pressured (update (update default_state 1000 low_memory) 1500 low_memory) \<and>
   is_bad default_state 1000 low_memory"
proof -
  have "\<not> pressured (update default_state 1000 low_memory)"
    "pressured (update (update default_state 1000 low_memory) 1500 low_memory)"
    by (simp_all add: pressure_eval)
  with gate_closes_on_second_bad_sample [OF this] show ?thesis by simp
qed


text \<open>The samples of the code's own recovery test: closed, then eleven percent headroom throughout.\<close>

definition good_memory :: reading where
  "good_memory = \<lparr>total_bytes = Some 100, available_bytes = Some 11, stalls = []\<rparr>"

definition closed_gate :: pressure_state where
  "closed_gate = update (update default_state 1000 low_memory) 1500 low_memory"

lemma closed_gate_eq: "closed_gate = \<lparr>version = 1, sampled_ms = 1500, last_reading = low_memory,
  bad_samples = 2, healthy_since = None, pressured = True, valid = True, recovered_ms = None,
  last_admission_ms = None\<rparr>"
  by (simp add: closed_gate_def pressure_eval)

lemma all_less_three: "(\<forall>i < Suc (Suc (Suc 0)). P i) \<longleftrightarrow> P 0 \<and> P 1 \<and> P (2::nat)"
  by (auto simp: less_Suc_eq numeral_2_eq_2)

definition healthy_gate :: "u64 \<Rightarrow> pressure_state" where
  "healthy_gate t = \<lparr>version = 1, sampled_ms = t, last_reading = good_memory, bad_samples = 0,
     healthy_since = Some 2000, pressured = True, valid = True, recovered_ms = None,
     last_admission_ms = None\<rparr>"

lemma good_samples:
  "update closed_gate 2000 good_memory = healthy_gate 2000"
  "update (healthy_gate 2000) 4500 good_memory = healthy_gate 4500"
  "\<not> pressured (update (healthy_gate 4500) 7000 good_memory)"
  by (simp_all add: closed_gate_eq healthy_gate_def good_memory_def pressure_eval)

lemma good_evidence: "has_evidence s now good_memory"
  by (simp add: has_evidence_def headroom_def good_memory_def)

lemma good_comparable:
  "comparable closed_gate 2000" "comparable (healthy_gate 2000) 4500" "comparable (healthy_gate 4500) 7000"
  by (simp_all add: closed_gate_eq healthy_gate_def comparable_def elapsed_since_def checked_sub_def
      PRESSURE_VERSION_def STALE_MS_def)

definition good_run :: "timed_reading list" where
  "good_run = [(2000, good_memory), (4500, good_memory), (7000, good_memory)]"


text \<open>
  Sampling is rate limited even when the state cannot be written. After a sample at some time,
  any sample of the same file within the interval returns a state without probing again, changes
  nothing, and that state is the one just computed, whether or not the write succeeded.
\<close>

theorem sample_probes_once_per_interval:
  assumes "sample m path now probe ok = (result, m', True)"
    and "now \<le> now'" and "now' - now < INTERVAL_MS"
    and "\<And>s. state_file m path = Some s \<Longrightarrow> version s = PRESSURE_VERSION \<Longrightarrow> sampled_ms s < now"
  shows "sample m' path now' probe' ok' = (Some (update (known_state m path) now probe), m', False)"
proof -
  let ?u = "update (known_state m path) now probe"
  have "known_state m' path = ?u"
    using assms(1,4)
    by (auto simp: sample_def Let_def known_state_def PRESSURE_VERSION_def default_state_def
        split: if_splits option.splits)
  moreover have "recently_sampled ?u now'"
    using assms(2,3) by (simp add: recently_sampled_def checked_sub_def)
  ultimately show ?thesis by (simp add: sample_def Let_def)
qed

theorem sample_probes_once_per_interval_witness:
  "sample \<lparr>state_file = (\<lambda>_. None), unsaved = Some (''host.json'', update default_state 1000 low_memory)\<rparr>
     ''host.json'' 1499 good_memory True =
   (Some (update default_state 1000 low_memory),
    \<lparr>state_file = (\<lambda>_. None), unsaved = Some (''host.json'', update default_state 1000 low_memory)\<rparr>, False)"
proof -
  have first: "sample \<lparr>state_file = (\<lambda>_. None), unsaved = None\<rparr> ''host.json'' 1000 low_memory False =
    (None, \<lparr>state_file = (\<lambda>_. None),
       unsaved = Some (''host.json'', update default_state 1000 low_memory)\<rparr>, True)"
    by (simp add: sample_def known_state_def recently_sampled_def default_state_def PRESSURE_VERSION_def)
  have "known_state \<lparr>state_file = (\<lambda>_. None), unsaved = None\<rparr> ''host.json'' = default_state"
    by (simp add: known_state_def)
  then show ?thesis
    using sample_probes_once_per_interval [OF first, of 1499 good_memory True]
    by (simp add: INTERVAL_MS_def)
qed

end
