(* ===== verification/Pool.thy ===== *)
theory Pool
  imports Admission Pressure
begin

text \<open>
  The permit pool (\<open>scheduler.rs\<close>): construction and ceilings of a \<open>Pool\<close>, the budget of
  a yielding low-priority build, the lease and waiter files of the pool directory, one admission
  attempt under the registrar lock (\<open>try_admit_inner\<close>), and the pool as a transition system in
  which processes attempt, finish, leave the queue and die. A directory is the list of its files in
  the order a scan sees them; every theorem holds for any order. Reading the clock, the free
  memory, the pressure file and the random part of a file name are inputs of an attempt.
\<close>

section \<open>Ceilings\<close>

datatype scheduler_priority = Low | Normal

definition as_str :: "scheduler_priority \<Rightarrow> string" where
  "as_str p = (case p of Low \<Rightarrow> ''low'' | Normal \<Rightarrow> ''normal'')"

definition bytes_per_permit_of :: "u64 option \<Rightarrow> u64 \<Rightarrow> u64" where
  "bytes_per_permit_of memory cpus = (case memory of None \<Rightarrow> 0 | Some m \<Rightarrow> m div max cpus 1)"

definition local_memory_ceiling :: "u64 \<Rightarrow> u64 option \<Rightarrow> u64" where
  "local_memory_ceiling budget local_bytes =
     (case local_bytes of
        None \<Rightarrow> budget
      | Some bytes \<Rightarrow> if budget > bytes then bytes div 100 * 85 else budget)"

definition legacy_local_ceiling :: "u64 \<Rightarrow> u64 \<Rightarrow> u64 \<Rightarrow> u64 option \<Rightarrow> u64" where
  "legacy_local_ceiling capacity bpp cpus memory =
     (let memory =
        (if bpp = 0 then capacity
         else (case memory of
             None \<Rightarrow> capacity
           | Some bytes \<Rightarrow>
               (let budget = saturating_mul capacity bpp
                in if budget > bytes then (bytes div 100 * 85) div bpp else capacity)))
      in max (min (min capacity cpus) memory) 1)"

definition local_ceiling :: "u64 \<Rightarrow> u64 \<Rightarrow> u64 \<Rightarrow> u64 option \<Rightarrow> resources" where
  "local_ceiling c memory local_cpus local_memory =
     \<lparr>cpu = max (min c local_cpus) 1, memory_bytes = local_memory_ceiling memory local_memory\<rparr>"

record pool =
  pool_capacity :: u64
  pool_domain_capacity :: u64
  legacy_domain_capacity :: u64
  memory_capacity :: u64
  domain_memory_capacity :: u64
  pool_build :: "(string \<times> u64) option"
  bytes_per_permit :: u64
  events :: bool
  priority :: scheduler_priority
  pressure :: bool
  pressure_domain :: string

text \<open>\<open>default_capacity\<close> and the machine's memory are read from the host: inputs here.\<close>

definition new_pool ::
  "u64 \<Rightarrow> u64 option \<Rightarrow> string \<Rightarrow> u64 \<Rightarrow> u64 \<Rightarrow> scheduler_priority \<Rightarrow> pool" where
  "new_pool local_cpus local_memory domain capacity bpp prio =
     \<lparr>pool_capacity = max capacity 1,
      pool_domain_capacity = cpu (local_ceiling capacity 0 local_cpus None),
      legacy_domain_capacity = legacy_local_ceiling capacity bpp local_cpus local_memory,
      memory_capacity = saturating_mul capacity bpp,
      domain_memory_capacity = local_memory_ceiling (saturating_mul capacity bpp) local_memory,
      pool_build = None, bytes_per_permit = bpp, events = True, priority = prio, pressure = True,
      pressure_domain = domain\<rparr>"

definition set_memory_capacity :: "u64 option \<Rightarrow> u64 \<Rightarrow> pool \<Rightarrow> pool" where
  "set_memory_capacity local_memory memory p =
     p\<lparr>memory_capacity := memory, domain_memory_capacity := local_memory_ceiling memory local_memory\<rparr>"

record scheduler_config =
  enabled :: bool
  permits :: u64
  cfg_cpus :: u64
  cfg_memory_bytes :: "u64 option"
  cfg_priority :: scheduler_priority
  cfg_pressure :: bool
  cfg_events :: bool

definition reservation_pool ::
  "u64 \<Rightarrow> u64 option \<Rightarrow> string \<Rightarrow> scheduler_config \<Rightarrow> scheduler_priority \<Rightarrow> pool option" where
  "reservation_pool local_cpus local_memory domain config prio =
     (if enabled config
      then (let p = new_pool local_cpus local_memory domain (permits config)
                      (bytes_per_permit_of (cfg_memory_bytes config) (permits config)) prio;
                p = p\<lparr>pool_domain_capacity := max (min (cfg_cpus config) local_cpus) 1\<rparr>;
                p = set_memory_capacity local_memory (unwrap_or (cfg_memory_bytes config) 0) p
            in Some (p\<lparr>events := cfg_events config, pressure := cfg_pressure config\<rparr>))
      else None)"

definition from_config ::
  "u64 \<Rightarrow> u64 option \<Rightarrow> string \<Rightarrow> scheduler_config \<Rightarrow> pool option" where
  "from_config local_cpus local_memory domain config =
     reservation_pool local_cpus local_memory domain config (cfg_priority config)"

definition reserved :: "pool \<Rightarrow> bool \<Rightarrow> u64" where
  "reserved p wait_is_fresh =
     (if priority p = Low \<and> wait_is_fresh
      then min (max (pool_capacity p div 4) 1) (pool_capacity p - 1) else 0)"

definition effective_budget :: "pool \<Rightarrow> bool \<Rightarrow> resources" where
  "effective_budget p wait_is_fresh =
     (let yielding = (priority p = Low \<and> wait_is_fresh);
          memory_headroom =
            (if yielding \<and> memory_capacity p > 0
             then min (max (memory_capacity p div 4) 1) (memory_capacity p - 1) else 0)
      in \<lparr>cpu = pool_capacity p - reserved p wait_is_fresh,
          memory_bytes = memory_capacity p - memory_headroom\<rparr>)"

datatype reservation_error = Needs_scheduler_memory | Needs_cpus_or_memory

definition reservation_weight :: "pool \<Rightarrow> u64 option \<Rightarrow> u64 option \<Rightarrow> reservation_error + u64" where
  "reservation_weight p cpus memory =
     (let cpu_weight = unwrap_or cpus 0
      in case (case memory of
                 Some m \<Rightarrow>
                   if bytes_per_permit p = 0 then Inl Needs_scheduler_memory
                   else Inr (div_ceil m (bytes_per_permit p))
               | None \<Rightarrow> Inr 0) of
           Inl e \<Rightarrow> Inl e
         | Inr memory_weight \<Rightarrow>
             (let weight = max cpu_weight memory_weight
              in if weight = 0 then Inl Needs_cpus_or_memory else Inr weight))"

section \<open>Records of the pool directory\<close>

definition LEASE_VERSION :: nat where "LEASE_VERSION = 1"
definition LEASE_NAME_ATTEMPTS :: nat where "LEASE_NAME_ATTEMPTS = 8"

text \<open>What a scan reads from a file: nothing yet, bytes that do not parse, or a record.\<close>

datatype 'a contents = Empty | Unreadable | Contents 'a

text \<open>A file's name, whether its creator still holds the lock, and its contents.\<close>

record 'a record_file =
  file_name :: string
  locked :: bool
  contents :: "'a contents"

record pool_dir =
  lease_files :: "lease record_file list"
  waiter_files :: "waiting record_file list"
  pressure_files :: "string \<Rightarrow> pressure_state option"

datatype pool_error = Name_exhausted | Queue_exhausted | Bad_waiter

definition unreadable_lease :: lease where
  "unreadable_lease =
     \<lparr>lease_version = LEASE_VERSION, lease_name = None, lease_mode_key = None, lease_weight = 1,
      lease_cpu = None, lease_memory_bytes = None, lease_priority = as_str Normal,
      lease_build_id = None, lease_domain = None, lease_bytes_per_permit = 0\<rparr>"

definition read_lease :: "lease contents \<Rightarrow> lease" where
  "read_lease c =
     (case c of Contents l \<Rightarrow> l\<lparr>lease_weight := max (lease_weight l) 1\<rparr> | _ \<Rightarrow> unreadable_lease)"

text \<open>The live leases; files nobody holds are removed.\<close>

definition scan_leases :: "lease record_file list \<Rightarrow> lease list \<times> lease record_file list" where
  "scan_leases files =
     (map (read_lease \<circ> contents) (filter locked files), filter locked files)"

definition read_waiter :: "waiting contents \<Rightarrow> pool_error + waiting option" where
  "read_waiter c =
     (case c of Empty \<Rightarrow> Inr None | Contents w \<Rightarrow> Inr (Some w) | Unreadable \<Rightarrow> Inl Bad_waiter)"

text \<open>
  \<open>mtime\<close> fills in the arrival time of records written without one when events are logged.
  An unreadable record stops the scan, after the files seen so far were reclaimed.
\<close>

fun scan_waiters ::
  "pool option \<Rightarrow> (string \<Rightarrow> u64 option) \<Rightarrow> waiting record_file list \<Rightarrow>
   (pool_error + waiting list) \<times> waiting record_file list" where
  "scan_waiters p mtime [] = (Inr [], [])"
| "scan_waiters p mtime (f # fs) =
     (if \<not> locked f then scan_waiters p mtime fs
      else (case read_waiter (contents f) of
          Inl e \<Rightarrow> (Inl e, f # fs)
        | Inr r \<Rightarrow>
            (let (result, files) = scan_waiters p mtime fs
             in (case result of
                   Inl e \<Rightarrow> Inl e
                 | Inr ws \<Rightarrow>
                     Inr (case r of
                         None \<Rightarrow> ws
                       | Some w \<Rightarrow>
                           (if (case p of Some p \<Rightarrow> events p | None \<Rightarrow> False) \<and> first_arrival_ms w = None
                            then w\<lparr>first_arrival_ms := mtime (file_name f)\<rparr> else w) # ws),
                 f # files))))"

text \<open>The first of the candidate names that no file has; each candidate is drawn afresh.\<close>

definition lock_record ::
  "string list \<Rightarrow> 'a \<Rightarrow> 'a record_file list \<Rightarrow> pool_error + 'a record_file list" where
  "lock_record names r files =
     (case find (\<lambda>n. n \<notin> file_name ` set files) (take LEASE_NAME_ATTEMPTS names) of
        None \<Rightarrow> Inl Name_exhausted
      | Some n \<Rightarrow> Inr (\<lparr>file_name = n, locked = True, contents = Contents r\<rparr> # files))"

section \<open>One admission attempt\<close>

text \<open>The part of a demand the records carry: its name and its mode key.\<close>

type_synonym demand_names = "(string \<times> string) option"

record queue_entry =
  entry_ticket :: u64
  entry_record :: waiting
  entry_file :: string

text \<open>
  The state of one requesting process: its place in the queue, and the pressure state it sampled
  but could not save.
\<close>

record admission_state =
  queued :: "queue_entry option"
  arrival_ms :: u64
  last_gate :: "string option"
  unsaved_pressure :: "(string \<times> pressure_state) option"

text \<open>What one attempt reads from outside the pool directory.\<close>

record attempt =
  now_ms :: u64
  process_id :: nat
  available_memory :: "u64 option"
  wait_is_fresh :: bool
  resumes_pending :: bool
  probe_reading :: reading
  sample_saves :: bool
  admission_saves :: bool
  waiter_mtime :: "string \<Rightarrow> u64 option"
  lease_names :: "string list"
  waiter_names :: "string list"

definition waiting_record ::
  "pool \<Rightarrow> nat \<Rightarrow> resources \<Rightarrow> u64 \<Rightarrow> demand_names \<Rightarrow> u64 \<Rightarrow> u64 \<Rightarrow> waiting" where
  "waiting_record p process res weight demand arrival t =
     \<lparr>pid = (if events p then Some process else None),
      first_arrival_ms = (if events p then Some arrival else None),
      waiting_name = map_option fst demand, waiting_mode_key = map_option snd demand,
      ticket = t, waiting_weight = weight, waiting_cpu = Some (cpu res),
      waiting_memory_bytes = Some (memory_bytes res), waiting_priority = as_str (priority p),
      waiting_domain = pressure_domain p, domain_capacity = legacy_domain_capacity p,
      global_capacity = Some (pool_capacity p), cpu_cap = Some (pool_capacity p),
      mem_cap = Some (memory_capacity p), domain_memory_cap = Some (domain_memory_capacity p),
      domain_cpu_cap = Some (pool_domain_capacity p),
      waiting_bytes_per_permit = bytes_per_permit p, waiting_build = pool_build p\<rparr>"

definition granted_lease :: "pool \<Rightarrow> resources \<Rightarrow> u64 \<Rightarrow> demand_names \<Rightarrow> lease" where
  "granted_lease p res weight demand =
     \<lparr>lease_version = LEASE_VERSION, lease_name = map_option fst demand,
      lease_mode_key = map_option snd demand, lease_weight = weight, lease_cpu = Some (cpu res),
      lease_memory_bytes = Some (memory_bytes res), lease_priority = as_str (priority p),
      lease_build_id = map_option fst (pool_build p), lease_domain = Some (pressure_domain p),
      lease_bytes_per_permit = bytes_per_permit p\<rparr>"

definition grant ::
  "pool \<Rightarrow> string list \<Rightarrow> resources \<Rightarrow> u64 \<Rightarrow> demand_names \<Rightarrow> lease record_file list \<Rightarrow>
   pool_error + lease record_file list" where
  "grant p names res weight demand files = lock_record names (granted_lease p res weight demand) files"

text \<open>Dropping a queue entry empties its file, unlocks it and removes it.\<close>

definition drop_entry :: "queue_entry option \<Rightarrow> waiting record_file list \<Rightarrow> waiting record_file list" where
  "drop_entry entry files =
     (case entry of None \<Rightarrow> files | Some e \<Rightarrow> filter (\<lambda>f. file_name f \<noteq> entry_file e) files)"

definition dequeue :: "admission_state \<Rightarrow> pool_dir \<Rightarrow> admission_state \<times> pool_dir" where
  "dequeue st dir =
     (st\<lparr>queued := None\<rparr>, dir\<lparr>waiter_files := drop_entry (queued st) (waiter_files dir)\<rparr>)"

definition gated :: "string \<Rightarrow> admission_state \<Rightarrow> pool_dir \<Rightarrow> admission_state \<times> pool_dir" where
  "gated reason st dir =
     (let (st, dir) = dequeue st dir in (st\<lparr>last_gate := Some reason\<rparr>, dir))"

definition senses_pressure :: "pool \<Rightarrow> bool" where
  "senses_pressure p \<longleftrightarrow> pressure p \<and> bytes_per_permit p > 0"

definition domain_state :: "pool \<Rightarrow> string" where
  "domain_state p = pressure_domain p @ ''.json''"

text \<open>Broken sensing disables only the gate: a sample that could not be saved is no sample.\<close>

definition take_sample ::
  "pool \<Rightarrow> attempt \<Rightarrow> admission_state \<Rightarrow> pool_dir \<Rightarrow> pressure_state option \<times> admission_state \<times> pool_dir" where
  "take_sample p a st dir =
     (if senses_pressure p
      then (let (result, m, _) = sample \<lparr>state_file = pressure_files dir, unsaved = unsaved_pressure st\<rparr>
                  (domain_state p) (now_ms a) (probe_reading a) (sample_saves a)
            in (result, st\<lparr>unsaved_pressure := unsaved m\<rparr>, dir\<lparr>pressure_files := state_file m\<rparr>))
      else (None, st, dir))"

text \<open>An admission restarts the recovery spacing of its domain.\<close>

definition note_admission :: "pool \<Rightarrow> attempt \<Rightarrow> pressure_state option \<Rightarrow> pool_dir \<Rightarrow> pool_dir" where
  "note_admission p a sampled dir =
     (case sampled of
        Some s \<Rightarrow>
          if admission_saves a
          then dir\<lparr>pressure_files := (pressure_files dir)
                 (domain_state p \<mapsto> s\<lparr>last_admission_ms := Some (now_ms a)\<rparr>)\<rparr>
          else dir
      | None \<Rightarrow> dir)"

definition pressure_gate :: "attempt \<Rightarrow> pressure_state option \<Rightarrow> bool" where
  "pressure_gate a sampled =
     (case sampled of
        None \<Rightarrow> False
      | Some s \<Rightarrow>
          valid s \<and>
          (pressured s \<or>
           recovered_ms s \<noteq> None \<and>
           (case last_admission_ms s of
              Some prev \<Rightarrow> saturating_sub (now_ms a) prev < INTERVAL_MS
            | None \<Rightarrow> False)))"

definition memory_gate :: "attempt \<Rightarrow> u64 option \<Rightarrow> bool" where
  "memory_gate a predicted =
     (case (predicted, available_memory a) of
        (Some needed, Some available) \<Rightarrow> available < needed
      | _ \<Rightarrow> False)"

text \<open>The request an attempt judges: its waiting record with the budget of this moment.\<close>

definition attempt_request ::
  "pool \<Rightarrow> attempt \<Rightarrow> resources \<Rightarrow> u64 \<Rightarrow> demand_names \<Rightarrow> admission_state \<Rightarrow> waiting" where
  "attempt_request p a res weight demand st =
     (let budget = effective_budget p (wait_is_fresh a)
      in (waiting_record p (process_id a) res weight demand (arrival_ms st)
            (case queued st of None \<Rightarrow> u64_max | Some e \<Rightarrow> entry_ticket e))
           \<lparr>global_capacity := Some (cpu budget), cpu_cap := Some (cpu budget),
            mem_cap := Some (memory_bytes budget)\<rparr>)"

definition next_ticket :: "waiting list \<Rightarrow> u64 option" where
  "next_ticket waiting = checked_add (foldl max 0 (map ticket waiting)) 1"

text \<open>
  Publishing a place in the queue. A queued request rewrites its record when it changed and keeps
  its ticket; the new file is locked before the old one goes. A new request takes the next ticket.
\<close>

definition publish ::
  "attempt \<Rightarrow> waiting list \<Rightarrow> waiting \<Rightarrow> admission_state \<Rightarrow> waiting record_file list \<Rightarrow>
   pool_error + (admission_state \<times> waiting record_file list)" where
  "publish a waiting request st files =
     (case queued st of
        Some e \<Rightarrow>
          if entry_record e = request then Inr (st, files)
          else (case lock_record (waiter_names a) request files of
              Inl err \<Rightarrow> Inl err
            | Inr files' \<Rightarrow>
                Inr (st\<lparr>queued := Some \<lparr>entry_ticket = entry_ticket e, entry_record = request,
                       entry_file = file_name (hd files')\<rparr>\<rparr>,
                     drop_entry (Some e) files'))
      | None \<Rightarrow>
          (case next_ticket waiting of
             None \<Rightarrow> Inl Queue_exhausted
           | Some t \<Rightarrow>
               (case lock_record (waiter_names a) (request\<lparr>ticket := t\<rparr>) files of
                  Inl err \<Rightarrow> Inl err
                | Inr files' \<Rightarrow>
                    Inr (st\<lparr>queued := Some \<lparr>entry_ticket = t, entry_record = request\<lparr>ticket := t\<rparr>,
                           entry_file = file_name (hd files')\<rparr>, last_gate := None\<rparr>, files'))))"

text \<open>
  The second half of an attempt, past the gates: scan the queue, decide, then publish a place or
  grant a lease. \<open>Inr True\<close> is an admission, \<open>Inr False\<close> a wait.
\<close>

definition decide_attempt ::
  "pool \<Rightarrow> attempt \<Rightarrow> resources \<Rightarrow> u64 \<Rightarrow> demand_names \<Rightarrow> pressure_state option \<Rightarrow> lease list \<Rightarrow>
   admission_state \<Rightarrow> pool_dir \<Rightarrow> (pool_error + bool) \<times> admission_state \<times> pool_dir" where
  "decide_attempt p a res weight demand sampled live st dir =
     (case scan_waiters (Some p) (waiter_mtime a) (waiter_files dir) of
        (Inl e, wfiles) \<Rightarrow> (Inl e, st, dir\<lparr>waiter_files := wfiles\<rparr>)
      | (Inr waiting, wfiles) \<Rightarrow>
          (let request = attempt_request p a res weight demand st;
               capacity = cpu (effective_budget p (wait_is_fresh a))
           in if admission_decision capacity live waiting request = Waiting
              then (case publish a waiting request st wfiles of
                  Inl e \<Rightarrow> (Inl e, st, dir\<lparr>waiter_files := wfiles\<rparr>)
                | Inr (st, wfiles) \<Rightarrow> (Inr False, st, dir\<lparr>waiter_files := wfiles\<rparr>))
              else (case grant p (lease_names a) res weight demand (lease_files dir) of
                  Inl e \<Rightarrow> (Inl e, st, dir\<lparr>waiter_files := wfiles\<rparr>)
                | Inr lfiles \<Rightarrow>
                    (let (st, dir) = dequeue st (dir\<lparr>lease_files := lfiles, waiter_files := wfiles\<rparr>)
                     in (Inr True, st\<lparr>last_gate := None\<rparr>, note_admission p a sampled dir)))))"

definition try_admit_inner ::
  "pool \<Rightarrow> attempt \<Rightarrow> resources \<Rightarrow> u64 \<Rightarrow> u64 option \<Rightarrow> demand_names \<Rightarrow> admission_state \<Rightarrow> pool_dir \<Rightarrow>
   (pool_error + bool) \<times> admission_state \<times> pool_dir" where
  "try_admit_inner p a res weight predicted demand st dir =
     (let (live, files) = scan_leases (lease_files dir);
          (sampled, st, dir) = take_sample p a st (dir\<lparr>lease_files := files\<rparr>)
      in if senses_pressure p \<and> live \<noteq> [] \<and> resumes_pending a
         then (Inr False, gated ''resumes-pending'' st dir)
         else if live \<noteq> [] \<and> pressure_gate a sampled
         then (Inr False, gated ''pressure'' st dir)
         else if live \<noteq> [] \<and> memory_gate a predicted
         then (Inr False, gated ''available-memory'' st dir)
         else decide_attempt p a res weight demand sampled live st dir)"

text \<open>An attempt that fails leaves the queue.\<close>

definition try_admit_state ::
  "pool \<Rightarrow> attempt \<Rightarrow> resources \<Rightarrow> u64 \<Rightarrow> u64 option \<Rightarrow> demand_names \<Rightarrow> admission_state \<Rightarrow> pool_dir \<Rightarrow>
   (pool_error + bool) \<times> admission_state \<times> pool_dir" where
  "try_admit_state p a res weight predicted demand st dir =
     (let (result, st, dir) = try_admit_inner p a res weight predicted demand st dir
      in case result of
           Inl _ \<Rightarrow> (let (st, dir) = dequeue st dir in (result, st, dir))
         | Inr _ \<Rightarrow> (result, st, dir))"

section \<open>Budgets\<close>

lemma yield_bounds:
  fixes n :: nat
  assumes "0 < n"
  shows "1 \<le> n - min (max (n div 4) 1) (n - 1)" "n - min (max (n div 4) 1) (n - 1) \<le> n"
  using assms by auto

lemma effective_cpu:
  "0 < pool_capacity p \<Longrightarrow>
   1 \<le> cpu (effective_budget p fresh) \<and> cpu (effective_budget p fresh) \<le> pool_capacity p"
  using yield_bounds [of "pool_capacity p"]
  by (auto simp: effective_budget_def reserved_def Let_def)

lemma effective_memory:
  "memory_bytes (effective_budget p fresh) \<le> memory_capacity p"
  "memory_bytes (effective_budget p fresh) = 0 \<longleftrightarrow> memory_capacity p = 0"
  using yield_bounds [of "memory_capacity p"]
  by (auto simp: effective_budget_def Let_def)

section \<open>What an attempt does to the directory\<close>

lemma take_sample_files [simp]:
  assumes "take_sample p a st dir = (sampled, st', dir')"
  shows "lease_files dir' = lease_files dir" "waiter_files dir' = waiter_files dir"
    "queued st' = queued st" "arrival_ms st' = arrival_ms st"
  using assms by (auto simp: take_sample_def Let_def split: if_splits prod.splits)

lemma note_admission_files [simp]:
  "lease_files (note_admission p a sampled dir) = lease_files dir"
  "waiter_files (note_admission p a sampled dir) = waiter_files dir"
  by (auto simp: note_admission_def split: option.splits)

lemma lock_record_eq_Inr:
  "lock_record names r files = Inr files' \<Longrightarrow>
   \<exists>n. n \<notin> file_name ` set files \<and>
     files' = \<lparr>file_name = n, locked = True, contents = Contents r\<rparr> # files"
  by (auto simp: lock_record_def find_Some_iff split: option.splits)

lemma attempt_request_simps [simp]:
  "waiting_resources (attempt_request p a res weight demand st) = res"
  "request_budget cap (attempt_request p a res weight demand st) = effective_budget p (wait_is_fresh a)"
  "domain_budget (attempt_request p a res weight demand st) =
     \<lparr>cpu = pool_domain_capacity p, memory_bytes = domain_memory_capacity p\<rparr>"
  "waiting_domain (attempt_request p a res weight demand st) = pressure_domain p"
  "waiting_build (attempt_request p a res weight demand st) = pool_build p"
  "waiting_priority (attempt_request p a res weight demand st) = as_str (priority p)"
  "ticket (attempt_request p a res weight demand st) =
     (case queued st of None \<Rightarrow> u64_max | Some e \<Rightarrow> entry_ticket e)"
  by (simp_all add: attempt_request_def waiting_record_def waiting_resources_def record_resources_def
      request_budget_def global_budget_def domain_budget_def Let_def split: option.split)

lemma attempt_request_state:
  "queued st' = queued st \<Longrightarrow> arrival_ms st' = arrival_ms st \<Longrightarrow>
   attempt_request p a res weight demand st' = attempt_request p a res weight demand st"
  by (simp add: attempt_request_def)

text \<open>
  The leases after an attempt: unlocked files are gone, and an admission adds one locked record,
  only if the request fits beside the leases that were live.
\<close>

lemma decide_leases:
  assumes "decide_attempt p a res weight demand sampled live st dir = (result, st', dir')"
  shows "if result = Inr True
    then request_fits (cpu (effective_budget p (wait_is_fresh a))) live
           (attempt_request p a res weight demand st) \<and>
         (\<exists>n. lease_files dir' = \<lparr>file_name = n, locked = True,
            contents = Contents (granted_lease p res weight demand)\<rparr> # lease_files dir)
    else lease_files dir' = lease_files dir"
  using assms admission_not_Waiting
  by (auto simp: decide_attempt_def Let_def dequeue_def grant_def
      split: prod.splits sum.splits if_splits dest!: lock_record_eq_Inr)

text \<open>An attempt is either stopped at a gate or decided, on the sampled state.\<close>

lemma try_admit_cases:
  assumes "try_admit_inner p a res weight predicted demand st dir = (result, st', dir')"
  obtains (gate) st1 dir1 reason where "result = Inr False" "gated reason st1 dir1 = (st', dir')"
      "fst (scan_leases (lease_files dir)) \<noteq> []"
      "lease_files dir1 = filter locked (lease_files dir)" "waiter_files dir1 = waiter_files dir"
      "queued st1 = queued st"
  | (decide) sampled st1 dir1 where
      "decide_attempt p a res weight demand sampled (fst (scan_leases (lease_files dir))) st1 dir1
        = (result, st', dir')"
      "lease_files dir1 = filter locked (lease_files dir)" "waiter_files dir1 = waiter_files dir"
      "queued st1 = queued st"
      "attempt_request p a res weight demand st1 = attempt_request p a res weight demand st"
proof -
  let ?dir = "dir\<lparr>lease_files := filter locked (lease_files dir)\<rparr>"
  obtain sampled st1 dir1 where sample: "take_sample p a st ?dir = (sampled, st1, dir1)"
    by (cases "take_sample p a st ?dir") auto
  note files = take_sample_files [OF sample]
  have request: "attempt_request p a res weight demand st1 = attempt_request p a res weight demand st"
    by (rule attempt_request_state [OF files(3,4)])
  from assms consider
    reason where "result = Inr False" "gated reason st1 dir1 = (st', dir')"
      "fst (scan_leases (lease_files dir)) \<noteq> []"
  | "decide_attempt p a res weight demand sampled (fst (scan_leases (lease_files dir))) st1 dir1
      = (result, st', dir')"
    by (auto simp: try_admit_inner_def scan_leases_def sample split: if_splits)
  then show thesis
  proof cases
    case 1
    show ?thesis by (rule gate [OF 1]) (use files in simp_all)
  next
    case 2
    show ?thesis by (rule decide [OF 2]) (use files request in simp_all)
  qed
qed

text \<open>
  The leases after an attempt: unlocked files are gone, and an admission adds one locked record,
  only if the request fits beside the leases that were live.
\<close>

lemma try_admit_leases:
  assumes "try_admit_inner p a res weight predicted demand st dir = (result, st', dir')"
  shows "if result = Inr True
    then request_fits (cpu (effective_budget p (wait_is_fresh a)))
           (fst (scan_leases (lease_files dir))) (attempt_request p a res weight demand st) \<and>
         (\<exists>n. lease_files dir' = \<lparr>file_name = n, locked = True,
            contents = Contents (granted_lease p res weight demand)\<rparr> # filter locked (lease_files dir))
    else lease_files dir' = filter locked (lease_files dir)"
  using assms
proof (cases rule: try_admit_cases)
  case gate
  then show ?thesis by (auto simp: gated_def dequeue_def)
next
  case decide
  from decide_leases [OF this(1)] decide(2-) show ?thesis by (simp split: if_splits)
qed

lemma try_admit_state_leases:
  assumes "try_admit_state p a res weight predicted demand st dir = (result, st', dir')"
  obtains "lease_files dir' = filter locked (lease_files dir)" "result \<noteq> Inr True"
  | n where "lease_files dir' = \<lparr>file_name = n, locked = True,
        contents = Contents (granted_lease p res weight demand)\<rparr> # filter locked (lease_files dir)"
      "request_fits (cpu (effective_budget p (wait_is_fresh a)))
         (fst (scan_leases (lease_files dir))) (attempt_request p a res weight demand st)"
      "result = Inr True"
proof -
  obtain r st1 dir1 where inner: "try_admit_inner p a res weight predicted demand st dir = (r, st1, dir1)"
    by (cases "try_admit_inner p a res weight predicted demand st dir")
  from assms inner have "result = r" "lease_files dir' = lease_files dir1"
    by (auto simp: try_admit_state_def dequeue_def split: sum.splits)
  with try_admit_leases [OF inner] that show thesis by (auto split: if_splits)
qed

section \<open>Occupancy\<close>

text \<open>The charges on one ceiling: within it, or a single non-zero charge.\<close>

definition within_or_alone :: "nat \<Rightarrow> nat list \<Rightarrow> bool" where
  "within_or_alone c xs \<longleftrightarrow> sum_list xs \<le> c \<or> length (filter (\<lambda>x. x \<noteq> 0) xs) \<le> 1"

lemma within_or_alone_Nil [simp]: "within_or_alone c []"
  by (simp add: within_or_alone_def)

lemma within_or_alone_admit:
  "sum_list xs = 0 \<or> sum_list xs + x \<le> b \<Longrightarrow> b \<le> c \<Longrightarrow> within_or_alone c (x # xs)"
  by (auto simp: within_or_alone_def filter_empty_conv)

lemma within_or_alone_Cons_drop: "within_or_alone c (x # xs) \<Longrightarrow> within_or_alone c xs"
  by (auto simp: within_or_alone_def split: if_splits)

lemma within_or_alone_filter:
  "within_or_alone c (map f xs) \<Longrightarrow> within_or_alone c (map f (filter P xs))"
proof -
  have "sum_list (map f (filter P xs)) \<le> sum_list (map f xs)"
    by (induction xs) auto
  moreover have "length (filter (\<lambda>x. x \<noteq> 0) (map f (filter P xs))) \<le> length (filter (\<lambda>x. x \<noteq> 0) (map f xs))"
    by (induction xs) auto
  ultimately show "within_or_alone c (map f xs) \<Longrightarrow> within_or_alone c (map f (filter P xs))"
    by (auto simp: within_or_alone_def)
qed

text \<open>Ceilings that every process of a pool respects.\<close>

record ceilings =
  global_ceiling :: resources
  domain_ceiling :: "string \<Rightarrow> resources"
  build_ceiling :: "string \<Rightarrow> u64"

definition occupancy_ok :: "resources \<Rightarrow> lease list \<Rightarrow> bool" where
  "occupancy_ok b ls \<longleftrightarrow>
     within_or_alone (cpu b) (map (cpu \<circ> lease_resources) ls) \<and>
     within_or_alone (memory_bytes b) (map (memory_bytes \<circ> lease_resources) ls)"

definition pool_safe :: "ceilings \<Rightarrow> lease list \<Rightarrow> bool" where
  "pool_safe c live \<longleftrightarrow>
     occupancy_ok (global_ceiling c) live \<and>
     (\<forall>d. occupancy_ok (domain_ceiling c d) (filter (in_domain d) live)) \<and>
     (\<forall>i. within_or_alone (build_ceiling c i)
            (map (cpu \<circ> lease_resources) (filter (\<lambda>l. lease_build_id l = Some i) live)))"

definition proper_ceilings :: "ceilings \<Rightarrow> bool" where
  "proper_ceilings c \<longleftrightarrow>
     cpu (global_ceiling c) < u64_max \<and> memory_bytes (global_ceiling c) < u64_max \<and>
     (\<forall>d. cpu (domain_ceiling c d) < u64_max \<and> memory_bytes (domain_ceiling c d) < u64_max) \<and>
     (\<forall>i. build_ceiling c i < u64_max)"

definition obeys :: "ceilings \<Rightarrow> pool \<Rightarrow> bool" where
  "obeys c p \<longleftrightarrow>
     0 < pool_capacity p \<and> pool_capacity p \<le> cpu (global_ceiling c) \<and>
     0 < memory_capacity p \<and> memory_capacity p \<le> memory_bytes (global_ceiling c) \<and>
     pool_domain_capacity p \<le> cpu (domain_ceiling c (pressure_domain p)) \<and>
     0 < domain_memory_capacity p \<and>
     domain_memory_capacity p \<le> memory_bytes (domain_ceiling c (pressure_domain p)) \<and>
     (case pool_build p of None \<Rightarrow> True | Some (i, cap) \<Rightarrow> cap \<le> build_ceiling c i)"

lemma occupancy_admit:
  assumes "within_budget b ls (lease_resources l)" "cpu b \<le> cpu c" "memory_bytes b \<le> memory_bytes c"
    "memory_bytes b \<noteq> 0"
  shows "occupancy_ok c (l # ls)"
  using assms unfolding occupancy_ok_def within_budget_def Let_def
  by (auto simp del: sum_list_eq_0_iff intro!: within_or_alone_admit)

lemma granted_lease_simps [simp]:
  "lease_resources (granted_lease p res weight demand) = res"
  "lease_resources (read_lease (Contents (granted_lease p res weight demand))) = res"
  "lease_build_id (read_lease (Contents (granted_lease p res weight demand))) = map_option fst (pool_build p)"
  "in_domain d (read_lease (Contents (granted_lease p res weight demand))) \<longleftrightarrow> pressure_domain p = d"
  by (simp_all add: granted_lease_def lease_resources_def record_resources_def read_lease_def in_domain_def)

lemma pool_safe_filter: "pool_safe c live \<Longrightarrow> pool_safe c (filter P live)"
proof -
  have swap: "filter Q (filter P live) = filter P (filter Q live)" for Q
    by (simp add: conj_commute)
  show "pool_safe c live \<Longrightarrow> pool_safe c (filter P live)"
    unfolding pool_safe_def occupancy_ok_def swap
    by (auto intro: within_or_alone_filter simp del: filter_filter)
qed

lemma pool_safe_admit:
  assumes safe: "pool_safe c live" and c: "proper_ceilings c" and p: "obeys c p"
    and fits: "request_fits (cpu (effective_budget p (wait_is_fresh a))) live
      (attempt_request p a res weight demand st)"
    and l: "lease_resources l = res" "lease_build_id l = map_option fst (pool_build p)"
      "\<And>d. in_domain d l \<longleftrightarrow> pressure_domain p = d"
  shows "pool_safe c (l # live)"
proof -
  let ?b = "effective_budget p (wait_is_fresh a)"
  let ?d = "\<lparr>cpu = pool_domain_capacity p, memory_bytes = domain_memory_capacity p\<rparr>"
  from p have budget: "cpu ?b \<le> cpu (global_ceiling c)"
    "memory_bytes ?b \<le> memory_bytes (global_ceiling c)" "memory_bytes ?b \<noteq> 0"
    using effective_cpu [of p "wait_is_fresh a"] effective_memory [of p "wait_is_fresh a"]
    by (auto simp: obeys_def)
  have "within_budget ?b live res"
    using fits budget c by (intro resources_fits_exact) (auto simp: request_fits_def proper_ceilings_def)
  then have global: "occupancy_ok (global_ceiling c) (l # live)"
    using budget l(1) by (intro occupancy_admit) auto
  have "within_budget ?d (filter (in_domain (pressure_domain p)) live) res"
    using fits p c
    by (intro resources_fits_exact)
      (auto simp: request_fits_def domain_used_def proper_ceilings_def obeys_def intro: le_less_trans)
  then have domain: "occupancy_ok (domain_ceiling c d) (filter (in_domain d) (l # live))" for d
    using safe p l by (auto simp: obeys_def pool_safe_def intro!: occupancy_admit [where b = ?d])
  have build: "within_or_alone (build_ceiling c i)
      (map (cpu \<circ> lease_resources) (filter (\<lambda>l. lease_build_id l = Some i) (l # live)))" for i
  proof (cases "lease_build_id l = Some i")
    case True
    then obtain cap where b: "pool_build p = Some (i, cap)" using l(2) by auto
    let ?used = "sum_list (map (cpu \<circ> lease_resources) (filter (\<lambda>l. lease_build_id l = Some i) live))"
    have cap: "cap \<le> build_ceiling c i" "cap < u64_max"
      using p c b by (auto simp: obeys_def proper_ceilings_def intro: le_less_trans)
    have "fits (min u64_max ?used) (cpu res) cap"
      using fits b by (simp add: request_fits_def build_fits_def scope_used_eq)
    from fits_exact [OF this cap(2)] cap(1) show ?thesis
      using True l(1) by (auto simp del: sum_list_eq_0_iff intro!: within_or_alone_admit)
  next
    case False
    with safe show ?thesis by (simp add: pool_safe_def)
  qed
  from global domain build show ?thesis by (simp add: pool_safe_def)
qed

section \<open>The pool as a transition system\<close>

record system =
  directory :: pool_dir
  clients :: "nat \<Rightarrow> admission_state"

definition map_locked :: "('a record_file \<Rightarrow> bool) \<Rightarrow> 'a record_file list \<Rightarrow> 'a record_file list" where
  "map_locked keep = map (\<lambda>f. f\<lparr>locked := locked f \<and> keep f\<rparr>)"

definition leave :: "admission_state \<Rightarrow> admission_state" where
  "leave st = st\<lparr>queued := None\<rparr>"

text \<open>
  The steps: a client attempts; a finished holder's permit is dropped, which removes its file; a
  holder dies, which only unlocks it; a waiting client drops its state; a waiting client dies.
\<close>

inductive pool_step :: "ceilings \<Rightarrow> system \<Rightarrow> system \<Rightarrow> bool" for c where
  attempt:
    "obeys c p \<Longrightarrow>
     try_admit_state p a res weight predicted demand (clients s k) (directory s) = (result, st', dir') \<Longrightarrow>
     pool_step c s \<lparr>directory = dir', clients = (clients s)(k := st')\<rparr>"
| finish:
    "pool_step c s (s\<lparr>directory := (directory s)
       \<lparr>lease_files := filter (\<lambda>f. file_name f \<noteq> n) (lease_files (directory s))\<rparr>\<rparr>)"
| holder_dies:
    "pool_step c s (s\<lparr>directory := (directory s)
       \<lparr>lease_files := map_locked (\<lambda>f. file_name f \<noteq> n) (lease_files (directory s))\<rparr>\<rparr>)"
| leaves:
    "dequeue (clients s k) (directory s) = (st', dir') \<Longrightarrow>
     pool_step c s \<lparr>directory = dir', clients = (clients s)(k := st')\<rparr>"
| waiter_dies:
    "queued (clients s k) = Some e \<Longrightarrow>
     pool_step c s \<lparr>directory = (directory s)
         \<lparr>waiter_files := map_locked (\<lambda>f. file_name f \<noteq> entry_file e) (waiter_files (directory s))\<rparr>,
       clients = (clients s)(k := leave (clients s k))\<rparr>"

definition empty_dir :: pool_dir where
  "empty_dir = \<lparr>lease_files = [], waiter_files = [], pressure_files = (\<lambda>_. None)\<rparr>"

definition initial :: "system \<Rightarrow> bool" where
  "initial s \<longleftrightarrow> directory s = empty_dir \<and> (\<forall>k. queued (clients s k) = None)"

definition reachable :: "ceilings \<Rightarrow> system \<Rightarrow> bool" where
  "reachable c s \<longleftrightarrow> (\<exists>s0. initial s0 \<and> (pool_step c)\<^sup>*\<^sup>* s0 s)"

definition live_leases :: "system \<Rightarrow> lease list" where
  "live_leases s = fst (scan_leases (lease_files (directory s)))"

lemma scan_leases_filter: "fst (scan_leases (filter P fs)) =
  map (read_lease \<circ> contents) (filter P (filter locked fs))"
  by (simp add: scan_leases_def conj_commute)

lemma scan_map_locked: "fst (scan_leases (map_locked keep fs)) =
  map (read_lease \<circ> contents) (filter keep (filter locked fs))"
  by (induction fs) (auto simp: scan_leases_def map_locked_def)

lemma within_or_alone_subfiles:
  "within_or_alone n (map h (filter Q (map g fs))) \<Longrightarrow>
   within_or_alone n (map h (filter Q (map g (filter P fs))))"
proof -
  have "sum_list (map h (filter Q (map g (filter P fs)))) \<le> sum_list (map h (filter Q (map g fs)))"
    by (induction fs) auto
  moreover have "length (filter (\<lambda>x. x \<noteq> 0) (map h (filter Q (map g (filter P fs)))))
      \<le> length (filter (\<lambda>x. x \<noteq> 0) (map h (filter Q (map g fs))))"
    by (induction fs) auto
  ultimately show "within_or_alone n (map h (filter Q (map g fs))) \<Longrightarrow>
   within_or_alone n (map h (filter Q (map g (filter P fs))))"
    by (auto simp: within_or_alone_def)
qed

lemma pool_safe_subfiles: "pool_safe c (map g fs) \<Longrightarrow> pool_safe c (map g (filter P fs))"
  using within_or_alone_subfiles [where Q = "\<lambda>_. True" and g = g and fs = fs and P = P]
  unfolding pool_safe_def occupancy_ok_def by (auto intro: within_or_alone_subfiles)

lemma pool_step_safe:
  assumes "proper_ceilings c" "pool_step c s s'" "pool_safe c (live_leases s)"
  shows "pool_safe c (live_leases s')"
  using assms(2)
proof cases
  case (attempt p a res weight predicted demand k result st' dir')
  let ?fs = "filter locked (lease_files (directory s))"
  have live: "live_leases s = map (read_lease \<circ> contents) ?fs"
    by (simp add: live_leases_def scan_leases_def)
  from attempt(3) show ?thesis
  proof (cases rule: try_admit_state_leases)
    case 1
    then have "live_leases s' = live_leases s"
      using attempt(1) by (simp add: live_leases_def scan_leases_def)
    with assms(3) show ?thesis by simp
  next
    case (2 n)
    let ?l = "read_lease (Contents (granted_lease p res weight demand))"
    have s': "live_leases s' = ?l # live_leases s"
      using 2(1) attempt(1) by (simp add: live_leases_def scan_leases_def)
    show ?thesis unfolding s'
      by (rule pool_safe_admit [OF assms(3,1) attempt(2)])
        (use 2(2) in \<open>simp_all add: live_leases_def\<close>)
  qed
next
  case (finish n)
  then have "live_leases s' = map (read_lease \<circ> contents)
      (filter (\<lambda>f. file_name f \<noteq> n) (filter locked (lease_files (directory s))))"
    by (simp add: live_leases_def scan_leases_def conj_commute)
  with assms(3) show ?thesis
    by (simp add: live_leases_def scan_leases_def pool_safe_subfiles del: filter_filter)
next
  case (holder_dies n)
  then have "live_leases s' = map (read_lease \<circ> contents)
      (filter (\<lambda>f. file_name f \<noteq> n) (filter locked (lease_files (directory s))))"
    by (simp add: live_leases_def scan_map_locked)
  with assms(3) show ?thesis
    by (simp add: live_leases_def scan_leases_def pool_safe_subfiles del: filter_filter)
next
  case (leaves k st' dir')
  then show ?thesis using assms(3) by (auto simp: live_leases_def dequeue_def)
next
  case (waiter_dies k e)
  then show ?thesis using assms(3) by (simp add: live_leases_def)
qed

section \<open>The queue\<close>

definition live_waiter :: "waiting record_file \<Rightarrow> waiting option" where
  "live_waiter f = (if locked f then (case contents f of Contents w \<Rightarrow> Some w | _ \<Rightarrow> None) else None)"

definition live_tickets :: "waiting record_file list \<Rightarrow> u64 list" where
  "live_tickets fs = map ticket (List.map_filter live_waiter fs)"

lemma live_tickets_simps [simp]:
  "live_tickets [] = []"
  "live_tickets (f # fs) = (case live_waiter f of None \<Rightarrow> [] | Some w \<Rightarrow> [ticket w]) @ live_tickets fs"
  by (auto simp: live_tickets_def map_filter_simps split: option.split)

lemma live_tickets_filter_locked [simp]: "live_tickets (filter locked fs) = live_tickets fs"
  by (induction fs) (auto simp: live_waiter_def)

lemma set_live_tickets:
  "set (live_tickets fs) = {ticket w | w f. f \<in> set fs \<and> locked f \<and> contents f = Contents w}"
  by (induction fs) (auto simp: live_waiter_def split: contents.splits)

definition queue_ok :: "waiting record_file list \<Rightarrow> (nat \<Rightarrow> queue_entry option) \<Rightarrow> bool" where
  "queue_ok files q \<longleftrightarrow>
     distinct (map file_name files) \<and> distinct (live_tickets files) \<and>
     (\<forall>k e. q k = Some e \<longrightarrow>
        \<lparr>file_name = entry_file e, locked = True, contents = Contents (entry_record e)\<rparr> \<in> set files \<and>
        ticket (entry_record e) = entry_ticket e) \<and>
     (\<forall>k k' e e'. k \<noteq> k' \<longrightarrow> q k = Some e \<longrightarrow> q k' = Some e' \<longrightarrow> entry_file e \<noteq> entry_file e')"

lemma distinct_live_tickets_filter:
  "distinct (live_tickets files) \<Longrightarrow> distinct (live_tickets (filter P files))"
proof (induction files)
  case (Cons f fs)
  have "set (live_tickets (filter P fs)) \<subseteq> set (live_tickets fs)" by (auto simp: set_live_tickets)
  with Cons show ?case by (auto split: option.splits)
qed simp

lemma distinct_filter_names: "distinct (map file_name files) \<Longrightarrow> distinct (map file_name (filter P files))"
  by (induction files) auto

lemma distinct_subseq: "subseq xs ys \<Longrightarrow> distinct ys \<Longrightarrow> distinct xs"
  by (induction rule: list_emb.induct) (auto dest: list_emb_set)

lemma queue_ok_reclaim:
  "queue_ok files q \<Longrightarrow> subseq files' files \<Longrightarrow> filter locked files' = filter locked files \<Longrightarrow>
   queue_ok files' q"
proof -
  assume ok: "queue_ok files q" and sub: "subseq files' files"
    and same: "filter locked files' = filter locked files"
  have "distinct (map file_name files')"
    using ok subseq_map [OF sub] by (auto simp: queue_ok_def intro: distinct_subseq)
  moreover have "live_tickets files' = live_tickets files"
    using same live_tickets_filter_locked by metis
  moreover have "f \<in> set files'" if "f \<in> set files" "locked f" for f
  proof -
    have "f \<in> set (filter locked files')" unfolding same using that by simp
    then show ?thesis by simp
  qed
  ultimately show "queue_ok files' q"
    using ok unfolding queue_ok_def by auto
qed

lemma queue_ok_drop: "queue_ok files q \<Longrightarrow> queue_ok (drop_entry (q k) files) (q(k := None))"
  by (auto simp: queue_ok_def drop_entry_def distinct_live_tickets_filter distinct_filter_names
      split: option.splits)

lemma queue_ok_add:
  "queue_ok files q \<Longrightarrow> q k = None \<Longrightarrow> n \<notin> file_name ` set files \<Longrightarrow> ticket w \<notin> set (live_tickets files) \<Longrightarrow>
   queue_ok (\<lparr>file_name = n, locked = True, contents = Contents w\<rparr> # files)
     (q(k \<mapsto> \<lparr>entry_ticket = ticket w, entry_record = w, entry_file = n\<rparr>))"
  by (auto simp: queue_ok_def live_waiter_def) (force+)

lemma dropped_ticket:
  assumes "queue_ok files q" "q k = Some e"
  shows "entry_ticket e \<notin> set (live_tickets (drop_entry (Some e) files))"
proof -
  let ?f = "\<lparr>file_name = entry_file e, locked = True, contents = Contents (entry_record e)\<rparr>"
  from assms have f: "?f \<in> set files" and t: "ticket (entry_record e) = entry_ticket e"
    by (auto simp: queue_ok_def)
  from split_list [OF f] obtain xs ys where files: "files = xs @ ?f # ys" by blast
  have app: "live_tickets (as @ bs) = live_tickets as @ live_tickets bs" for as bs
    by (induction as) auto
  have "entry_ticket e \<notin> set (live_tickets (xs @ ys))"
    using assms(1) t by (auto simp: queue_ok_def files app live_waiter_def)
  moreover have "set (live_tickets (drop_entry (Some e) files)) \<subseteq> set (live_tickets (xs @ ys))"
    by (auto simp: drop_entry_def files set_live_tickets)
  ultimately show ?thesis by blast
qed

lemma scan_waiters_files:
  "scan_waiters p mtime files = (result, files') \<Longrightarrow>
   subseq files' files \<and> filter locked files' = filter locked files \<and>
   (\<forall>ws. result = Inr ws \<longrightarrow> map ticket ws = live_tickets files)"
proof (induction p mtime files arbitrary: result files' rule: scan_waiters.induct)
  case (2 p mtime f fs)
  show ?case
  proof (cases "locked f")
    case False
    with "2.IH"(1) [OF this] "2.prems" show ?thesis by (auto simp: live_waiter_def)
  next
    case True
    obtain r fs' where rest: "scan_waiters p mtime fs = (r, fs')" by (cases "scan_waiters p mtime fs")
    show ?thesis
    proof (cases "read_waiter (contents f)")
      case (Inl e)
      with True "2.prems" show ?thesis by auto
    next
      case (Inr w)
      from "2.IH"(2) [OF _ Inr rest] True "2.prems" Inr rest show ?thesis
        by (auto simp: live_waiter_def read_waiter_def Let_def split: sum.splits option.splits contents.splits)
    qed
  qed
qed simp

lemma foldl_max_ge:
  fixes n :: nat
  shows "n \<le> foldl max n xs \<and> (\<forall>x \<in> set xs. x \<le> foldl max n xs)"
proof (induction xs arbitrary: n)
  case (Cons a xs)
  from Cons [of "max n a"] show ?case by auto
qed simp

lemma next_ticket_fresh: "next_ticket ws = Some t \<Longrightarrow> w \<in> set ws \<Longrightarrow> ticket w < t"
  using foldl_max_ge [of 0 "map ticket ws"]
  by (auto simp: next_ticket_def checked_eq_Some less_Suc_eq_le)

text \<open>The queue after each part of an attempt by client \<open>k\<close>.\<close>

lemma queue_ok_publish:
  assumes "queue_ok files q" "q k = queued st" "map ticket ws = live_tickets files"
    and "ticket request = (case queued st of None \<Rightarrow> u64_max | Some e \<Rightarrow> entry_ticket e)"
    and "publish a ws request st files = Inr (st', files')"
  shows "queue_ok files' (q(k := queued st'))"
proof (cases "queued st")
  case None
  with assms(5) obtain t n where
    t: "next_ticket ws = Some t" and n: "n \<notin> file_name ` set files" and
    st': "queued st' = Some \<lparr>entry_ticket = t, entry_record = request\<lparr>ticket := t\<rparr>, entry_file = n\<rparr>"
    "files' = \<lparr>file_name = n, locked = True, contents = Contents (request\<lparr>ticket := t\<rparr>)\<rparr> # files"
    by (auto simp: publish_def split: option.splits sum.splits dest!: lock_record_eq_Inr)
  have "t \<notin> ticket ` set ws" using next_ticket_fresh [OF t] by auto
  then have "t \<notin> set (live_tickets files)" by (metis assms(3) set_map)
  then show ?thesis
    using queue_ok_add [OF assms(1), of k n "request\<lparr>ticket := t\<rparr>"] assms(2) None n st' by simp
next
  case (Some e)
  show ?thesis
  proof (cases "entry_record e = request")
    case True
    with Some assms(2,5) have "files' = files" "q(k := queued st') = q"
      by (auto simp: publish_def)
    with assms(1) show ?thesis by simp
  next
    case False
    with Some assms(5) obtain n where n: "n \<notin> file_name ` set files" and
      st': "queued st' = Some \<lparr>entry_ticket = entry_ticket e, entry_record = request, entry_file = n\<rparr>"
      "files' = drop_entry (Some e) (\<lparr>file_name = n, locked = True, contents = Contents request\<rparr> # files)"
      by (auto simp: publish_def split: sum.splits dest!: lock_record_eq_Inr)
    have q: "q k = Some e" using assms(2) Some by simp
    have "\<lparr>file_name = entry_file e, locked = True, contents = Contents (entry_record e)\<rparr> \<in> set files"
      using assms(1) q by (simp add: queue_ok_def)
    from imageI [OF this, of file_name] have "entry_file e \<in> file_name ` set files" by simp
    then have files': "files' =
        \<lparr>file_name = n, locked = True, contents = Contents request\<rparr> # drop_entry (Some e) files"
      using n st'(2) by (auto simp: drop_entry_def)
    have "queue_ok (drop_entry (Some e) files) (q(k := None))"
      using queue_ok_drop [OF assms(1), of k] q by simp
    moreover have "n \<notin> file_name ` set (drop_entry (Some e) files)"
      using n by (auto simp: drop_entry_def)
    moreover have "ticket request \<notin> set (live_tickets (drop_entry (Some e) files))"
      using dropped_ticket [OF assms(1) q] assms(4) Some by simp
    ultimately show ?thesis
      using queue_ok_add [of "drop_entry (Some e) files" "q(k := None)" k n request]
        assms(4) Some st'(1) files' by simp
  qed
qed

lemma queue_ok_decide:
  assumes "queue_ok (waiter_files dir) q" "q k = queued st"
    and "decide_attempt p a res weight demand sampled live st dir = (result, st', dir')"
  shows "queue_ok (waiter_files dir') (q(k := queued st'))"
proof -
  obtain found wfiles where
    scan: "scan_waiters (Some p) (waiter_mtime a) (waiter_files dir) = (found, wfiles)"
    by (cases "scan_waiters (Some p) (waiter_mtime a) (waiter_files dir)")
  note sf = scan_waiters_files [OF scan]
  have ok: "queue_ok wfiles q" using queue_ok_reclaim [OF assms(1)] sf by blast
  have same: "live_tickets wfiles = live_tickets (waiter_files dir)"
    using sf live_tickets_filter_locked by metis
  have unchanged: "q(k := queued st) = q" using assms(2) by auto
  let ?request = "attempt_request p a res weight demand st"
  show ?thesis
  proof (cases found)
    case (Inl e)
    with assms(3) ok unchanged show ?thesis by (auto simp: decide_attempt_def scan)
  next
    case (Inr ws)
    have pub: "publish a ws ?request st wfiles = Inr (st1, files1) \<Longrightarrow>
        queue_ok files1 (q(k := queued st1))" for st1 files1
      by (rule queue_ok_publish [OF ok assms(2)]) (use sf same Inr in simp_all)
    from assms(3) Inr ok unchanged pub queue_ok_drop [OF ok, of k] assms(2) show ?thesis
      by (auto simp: decide_attempt_def scan Let_def dequeue_def split: if_splits sum.splits)
  qed
qed

lemma queue_ok_dequeue:
  assumes "queue_ok (waiter_files dir) q" "q k = queued st" "dequeue st dir = (st', dir')"
  shows "queue_ok (waiter_files dir') (q(k := queued st'))"
  using queue_ok_drop [OF assms(1), of k] assms(2,3) by (auto simp: dequeue_def)

lemma queue_ok_attempt:
  assumes "queue_ok (waiter_files dir) q" "q k = queued st"
    and "try_admit_state p a res weight predicted demand st dir = (result, st', dir')"
  shows "queue_ok (waiter_files dir') (q(k := queued st'))"
proof -
  obtain r st1 dir1 where inner: "try_admit_inner p a res weight predicted demand st dir = (r, st1, dir1)"
    by (cases "try_admit_inner p a res weight predicted demand st dir")
  from inner have mid: "queue_ok (waiter_files dir1) (q(k := queued st1))"
  proof (cases rule: try_admit_cases)
    case (gate st2 dir2 reason)
    with queue_ok_dequeue [of dir2 q k st2] assms(1,2) show ?thesis
      by (auto simp: gated_def dequeue_def)
  next
    case (decide sampled st2 dir2)
    with queue_ok_decide [OF _ _ decide(1), of q k] assms(1,2) show ?thesis by simp
  qed
  with queue_ok_dequeue [OF mid, of k st1] assms(3) inner show ?thesis
    by (auto simp: try_admit_state_def split: sum.splits prod.splits)
qed

lemma queue_ok_dies:
  assumes "queue_ok files q" "q k = Some e"
  shows "queue_ok (map_locked (\<lambda>f. file_name f \<noteq> entry_file e) files) (q(k := None))"
proof -
  let ?files = "map_locked (\<lambda>f. file_name f \<noteq> entry_file e) files"
  have "live_tickets ?files = live_tickets (filter (\<lambda>f. file_name f \<noteq> entry_file e) files)"
    by (induction files) (auto simp: map_locked_def live_waiter_def)
  moreover have "map file_name ?files = map file_name files" by (simp add: map_locked_def)
  moreover have "f \<in> set ?files" if "f \<in> set files" "file_name f \<noteq> entry_file e" for f
    using that by (force simp: map_locked_def image_iff)
  ultimately show ?thesis
    using assms unfolding queue_ok_def by (auto simp: distinct_live_tickets_filter)
qed

lemma pool_step_queue:
  assumes "pool_step c s s'" "queue_ok (waiter_files (directory s)) (queued \<circ> clients s)"
  shows "queue_ok (waiter_files (directory s')) (queued \<circ> clients s')"
  using assms(1)
proof cases
  case (attempt p a res weight predicted demand k result st' dir')
  from queue_ok_attempt [OF assms(2) _ attempt(3)] attempt(1) show ?thesis
    by (simp add: comp_def fun_upd_def if_distrib cong: if_cong)
next
  case (leaves k st' dir')
  from queue_ok_dequeue [OF assms(2) _ leaves(2)] leaves(1) show ?thesis
    by (simp add: comp_def fun_upd_def if_distrib cong: if_cong)
next
  case (waiter_dies k e)
  from queue_ok_dies [OF assms(2), of k e] waiter_dies show ?thesis
    by (simp add: comp_def fun_upd_def leave_def if_distrib cong: if_cong)
qed (use assms(2) in simp_all)

section \<open>Properties\<close>

interpretation ceilings: guarded_steps "pool_step c" initial "\<lambda>s. proper_ceilings c \<longrightarrow> pool_safe c (live_leases s)" for c
proof
  show "proper_ceilings c \<longrightarrow> pool_safe c (live_leases s)" if "initial s" for s
    using that by (simp add: initial_def live_leases_def scan_leases_def empty_dir_def pool_safe_def occupancy_ok_def)
qed (use pool_step_safe in blast)

interpretation waiters: guarded_steps "pool_step c" initial "\<lambda>s. queue_ok (waiter_files (directory s)) (queued \<circ> clients s)" for c
proof
  show "queue_ok (waiter_files (directory s)) (queued \<circ> clients s)" if "initial s" for s
    using that by (simp add: initial_def empty_dir_def queue_ok_def)
qed (rule pool_step_queue)

text \<open>
  C9. The machine is never oversubscribed. In every state the pool can reach -- any interleaving of
  attempts by any processes whose configuration respects the ceilings, of finished and killed
  holders, of queue entries dropped and abandoned -- the live leases stay within the CPU and the
  memory ceiling of the machine, of every memory domain and within the ceiling of every build,
  except that a single oversize lease may hold an otherwise idle axis.
\<close>

theorem pool_never_oversubscribed:
  assumes "proper_ceilings c" and "reachable c s"
  shows "pool_safe c (live_leases s)"
  using assms ceilings.reached_holds unfolding reachable_def by blast

definition sample_pool :: pool where
  "sample_pool = (new_pool 8 None ''host'' 4 1024 Normal)\<lparr>pressure := False\<rparr>"

definition sample_attempt :: attempt where
  "sample_attempt = \<lparr>now_ms = 10, process_id = 7, available_memory = None, wait_is_fresh = False,
     resumes_pending = False, probe_reading = default_reading, sample_saves = True,
     admission_saves = True, waiter_mtime = (\<lambda>_. None), lease_names = [''7-a-0''],
     waiter_names = [''7-a-1'']\<rparr>"

definition idle_state :: admission_state where
  "idle_state = \<lparr>queued = None, arrival_ms = 10, last_gate = None, unsaved_pressure = None\<rparr>"

definition sample_ceilings :: ceilings where
  "sample_ceilings = \<lparr>global_ceiling = \<lparr>cpu = 4, memory_bytes = 4096\<rparr>,
     domain_ceiling = (\<lambda>_. \<lparr>cpu = 4, memory_bytes = 4096\<rparr>), build_ceiling = (\<lambda>_. 4)\<rparr>"

definition sample_charge :: resources where
  "sample_charge = \<lparr>cpu = 3, memory_bytes = 100\<rparr>"

lemmas pool_eval =
  sample_pool_def sample_attempt_def idle_state_def sample_ceilings_def sample_charge_def new_pool_def
  empty_dir_def try_admit_state_def try_admit_inner_def decide_attempt_def take_sample_def
  senses_pressure_def scan_leases_def attempt_request_def waiting_record_def effective_budget_def
  reserved_def grant_def lock_record_def LEASE_NAME_ATTEMPTS_def dequeue_def drop_entry_def
  note_admission_def granted_lease_def local_ceiling_def legacy_local_ceiling_def
  local_memory_ceiling_def as_str_def

lemma sample_admission:
  "try_admit_state sample_pool sample_attempt sample_charge 3 None None idle_state empty_dir =
   (Inr True, idle_state,
    empty_dir\<lparr>lease_files := [\<lparr>file_name = ''7-a-0'', locked = True,
      contents = Contents (granted_lease sample_pool sample_charge 3 None)\<rparr>]\<rparr>)"
  by (simp add: pool_eval admission_eval memory_gate_def)

lemma sample_obeys: "obeys sample_ceilings sample_pool" "proper_ceilings sample_ceilings"
  by (simp_all add: obeys_def proper_ceilings_def u64_max_def saturating_mul_def pool_eval)

definition started :: system where
  "started = \<lparr>directory = empty_dir\<lparr>lease_files := [\<lparr>file_name = ''7-a-0'', locked = True,
      contents = Contents (granted_lease sample_pool sample_charge 3 None)\<rparr>]\<rparr>,
     clients = (\<lambda>_. idle_state)\<rparr>"

lemma reachable_started: "reachable sample_ceilings started"
proof -
  let ?s0 = "\<lparr>directory = empty_dir, clients = (\<lambda>_. idle_state)\<rparr>"
  have "initial ?s0" by (simp add: initial_def idle_state_def)
  moreover have "pool_step sample_ceilings ?s0 started"
    using pool_step.attempt [OF sample_obeys(1), of sample_attempt sample_charge 3 None None ?s0 0]
    by (simp add: sample_admission started_def fun_upd_idem)
  ultimately show ?thesis unfolding reachable_def by blast
qed

theorem pool_never_oversubscribed_witness:
  "length (live_leases started) = 1 \<and> pool_safe sample_ceilings (live_leases started)"
  using pool_never_oversubscribed [OF sample_obeys(2) reachable_started]
  by (simp add: started_def live_leases_def scan_leases_def empty_dir_def)

text \<open>
  Every place in the queue is its own. In every reachable state no two live waiters carry the
  same ticket and every waiting process's entry is a live file with its ticket and record, although
  processes join, rewrite their records, are gated, die and are reclaimed in any order.
\<close>

theorem queue_tickets_distinct:
  assumes "reachable c s"
  shows "distinct (live_tickets (waiter_files (directory s))) \<and>
    (\<forall>k e. queued (clients s k) = Some e \<longrightarrow> entry_ticket e \<in> set (live_tickets (waiter_files (directory s))))"
proof -
  have "queue_ok (waiter_files (directory s)) (queued \<circ> clients s)"
    using assms waiters.reached_holds unfolding reachable_def by blast
  note ok = this [unfolded queue_ok_def]
  have "entry_ticket e \<in> set (live_tickets (waiter_files (directory s)))"
    if "queued (clients s k) = Some e" for k e
  proof -
    let ?f = "\<lparr>file_name = entry_file e, locked = True, contents = Contents (entry_record e)\<rparr>"
    have "?f \<in> set (waiter_files (directory s))" "ticket (entry_record e) = entry_ticket e"
      using ok that by auto
    then show ?thesis
      unfolding set_live_tickets
      by (intro CollectI exI [of _ "entry_record e"] exI [of _ ?f]) simp
  qed
  with ok show ?thesis by blast
qed

lemma sample_waits:
  "try_admit_state sample_pool sample_attempt sample_charge 3 None None idle_state (directory started) =
   (Inr False,
    idle_state\<lparr>queued := Some \<lparr>entry_ticket = 1,
      entry_record = (attempt_request sample_pool sample_attempt sample_charge 3 None idle_state)\<lparr>ticket := 1\<rparr>,
      entry_file = ''7-a-1''\<rparr>\<rparr>,
    (directory started)\<lparr>waiter_files := [\<lparr>file_name = ''7-a-1'', locked = True,
      contents = Contents ((attempt_request sample_pool sample_attempt sample_charge 3 None idle_state)\<lparr>ticket := 1\<rparr>)\<rparr>]\<rparr>)"
proof -
  let ?l = "read_lease (Contents (granted_lease sample_pool sample_charge 3 None))"
  let ?r = "attempt_request sample_pool sample_attempt sample_charge 3 None idle_state"
  have budget: "effective_budget sample_pool False = \<lparr>cpu = 4, memory_bytes = 4096\<rparr>"
    by (simp add: effective_budget_def reserved_def sample_pool_def new_pool_def saturating_mul_def u64_max_def)
  have "\<not> request_fits 4 [?l] ?r"
    by (simp add: request_fits_def resources_fits_def scope_used_def add_charge_def fits_def budget
        sample_charge_def saturating_add_def checked_add_def u64_max_def sample_attempt_def)
  then have decision: "admission_decision 4 [?l] [] ?r = Waiting"
    using admission_not_Waiting by blast
  have parts: "\<not> senses_pressure sample_pool" "wait_is_fresh sample_attempt = False"
    "available_memory sample_attempt = None" "waiter_names sample_attempt = [''7-a-1'']"
    "queued idle_state = None" "waiter_files (directory started) = []"
    "lease_files (directory started) = [\<lparr>file_name = ''7-a-0'', locked = True,
      contents = Contents (granted_lease sample_pool sample_charge 3 None)\<rparr>]"
    by (simp_all add: senses_pressure_def sample_pool_def sample_attempt_def idle_state_def started_def
        empty_dir_def)
  have first: "next_ticket [] = Some 1"
    by (simp add: next_ticket_def checked_add_def u64_max_def)
  have ungated: "idle_state\<lparr>queued := X, last_gate := None\<rparr> = idle_state\<lparr>queued := X\<rparr>" for X
    by (simp add: idle_state_def)
  have same_files: "(directory started)\<lparr>lease_files := lease_files (directory started)\<rparr> = directory started"
    by simp
  have published: "publish sample_attempt [] ?r idle_state [] =
      Inr (idle_state\<lparr>queued := Some \<lparr>entry_ticket = 1, entry_record = ?r\<lparr>ticket := 1\<rparr>, entry_file = ''7-a-1''\<rparr>\<rparr>,
        [\<lparr>file_name = ''7-a-1'', locked = True, contents = Contents (?r\<lparr>ticket := 1\<rparr>)\<rparr>])"
    by (simp add: publish_def parts first ungated lock_record_def LEASE_NAME_ATTEMPTS_def)
  have live: "scan_leases (lease_files (directory started)) = ([?l], lease_files (directory started))"
    by (simp add: scan_leases_def parts)
  have decided: "decide_attempt sample_pool sample_attempt sample_charge 3 None None [?l] idle_state (directory started) =
      (Inr False, idle_state\<lparr>queued := Some \<lparr>entry_ticket = 1, entry_record = ?r\<lparr>ticket := 1\<rparr>, entry_file = ''7-a-1''\<rparr>\<rparr>,
       (directory started)\<lparr>waiter_files := [\<lparr>file_name = ''7-a-1'', locked = True, contents = Contents (?r\<lparr>ticket := 1\<rparr>)\<rparr>]\<rparr>)"
    unfolding decide_attempt_def Let_def parts(2,6) scan_waiters.simps budget
    by (simp only: prod.case sum.case decision published simp_thms if_True resources.select_convs)
  show ?thesis
    unfolding try_admit_state_def try_admit_inner_def Let_def live
    by (simp only: prod.case take_sample_def parts(1,3) pressure_gate_def memory_gate_def same_files
        if_False option.case simp_thms decided sum.case)
qed

theorem queue_tickets_distinct_witness:
  "\<exists>s. reachable sample_ceilings s \<and> queued (clients s 1) \<noteq> None \<and>
     distinct (live_tickets (waiter_files (directory s)))"
proof -
  let ?w = "(attempt_request sample_pool sample_attempt sample_charge 3 None idle_state)\<lparr>ticket := 1\<rparr>"
  let ?s = "\<lparr>directory = (directory started)\<lparr>waiter_files := [\<lparr>file_name = ''7-a-1'', locked = True,
      contents = Contents ?w\<rparr>]\<rparr>,
    clients = (clients started)(1 := idle_state\<lparr>queued := Some \<lparr>entry_ticket = 1, entry_record = ?w,
      entry_file = ''7-a-1''\<rparr>\<rparr>)\<rparr>"
  have "clients started 1 = idle_state" by (simp add: started_def)
  then have "pool_step sample_ceilings started ?s"
    using pool_step.attempt [OF sample_obeys(1), of sample_attempt sample_charge 3 None None started 1]
      sample_waits by simp
  then have "reachable sample_ceilings ?s"
    using reachable_started unfolding reachable_def by (meson rtranclp.rtrancl_into_rtrancl)
  moreover from queue_tickets_distinct [OF this]
  have "distinct (live_tickets (waiter_files (directory ?s)))" by blast
  ultimately show ?thesis by (intro exI [of _ ?s]) simp
qed

text \<open>
  Yielding never becomes stopping. While normal work waits, a low-priority pool keeps at least
  one permit and never more than its capacity, gives up at least a quarter of the CPUs (one, on a
  small machine with at least two), and a configured memory ceiling never turns into zero, which
  would mean no ceiling at all.
\<close>

theorem low_priority_keeps_a_permit:
  assumes "0 < pool_capacity p"
  shows "1 \<le> cpu (effective_budget p fresh) \<and>
    cpu (effective_budget p fresh) \<le> pool_capacity p \<and>
    (priority p = Low \<longrightarrow> fresh \<longrightarrow> 2 \<le> pool_capacity p \<longrightarrow>
       cpu (effective_budget p fresh) + max (pool_capacity p div 4) 1 = pool_capacity p) \<and>
    memory_bytes (effective_budget p fresh) \<le> memory_capacity p \<and>
    (memory_bytes (effective_budget p fresh) = 0 \<longleftrightarrow> memory_capacity p = 0)"
proof -
  have "min (max (n div 4) 1) (n - 1) = max (n div 4) 1" if "2 \<le> n" for n :: nat
    using that by (simp add: min_def max_def) presburger
  then have "priority p = Low \<longrightarrow> fresh \<longrightarrow> 2 \<le> pool_capacity p \<longrightarrow>
      cpu (effective_budget p fresh) + max (pool_capacity p div 4) 1 = pool_capacity p"
    by (simp add: effective_budget_def reserved_def Let_def max_def)
  then show ?thesis
    using effective_cpu [OF assms, of fresh] effective_memory [of p fresh] by blast
qed

theorem low_priority_keeps_a_permit_witness:
  "cpu (effective_budget (new_pool 8 None ''host'' 8 1024 Low) True) + 2 = 8"
  using low_priority_keeps_a_permit [of "new_pool 8 None ''host'' 8 1024 Low" True]
  by (simp add: new_pool_def)

text \<open>
  Progress of one attempt: with no live lease, an attempt is never stopped by a gate and, when
  no waiter with an earlier ticket of the same or a higher priority is alive, it is admitted,
  provided the queue files are readable and one of the candidate lease names is free.
\<close>

theorem idle_attempt_is_admitted:
  assumes "filter locked (lease_files dir) = []"
    and "scan_waiters (Some p) (waiter_mtime a) (waiter_files dir) = (Inr ws, files)"
    and "\<forall>w \<in> set ws. ticket w < (case queued st of None \<Rightarrow> u64_max | Some e \<Rightarrow> entry_ticket e) \<longrightarrow>
      waiting_priority w = ''low'' \<and> priority p = Normal"
    and "lease_names a \<noteq> []"
  shows "fst (try_admit_state p a res weight predicted demand st dir) = Inr True"
proof -
  obtain sampled st1 dir1 where
    sample: "take_sample p a st (dir\<lparr>lease_files := []\<rparr>) = (sampled, st1, dir1)"
    by (cases "take_sample p a st (dir\<lparr>lease_files := []\<rparr>)") auto
  note sampled = take_sample_files [OF sample]
  have request: "attempt_request p a res weight demand st1 = attempt_request p a res weight demand st"
    by (rule attempt_request_state [OF sampled(3,4)])
  obtain n ns where "lease_names a = n # ns" using assms(4) by (cases "lease_names a") auto
  then have free: "lock_record (lease_names a) r [] =
      Inr [\<lparr>file_name = n, locked = True, contents = Contents r\<rparr>]" for r :: lease
    by (simp add: lock_record_def LEASE_NAME_ATTEMPTS_def)
  have "admission_decision (cpu (effective_budget p (wait_is_fresh a))) [] ws
      (attempt_request p a res weight demand st) = Ordered"
    using assms(3) older_exception_priority
    by (auto simp: admission_Ordered_iff request_fits_def priority_exception_def as_str_def
        split: option.splits)
  then have "fst (try_admit_inner p a res weight predicted demand st dir) = Inr True"
    using assms(1,2) sampled
    by (simp add: try_admit_inner_def scan_leases_def sample decide_attempt_def request grant_def free
        dequeue_def Let_def)
  then show ?thesis
    by (auto simp: try_admit_state_def split: prod.splits sum.splits)
qed

theorem idle_attempt_is_admitted_witness:
  "fst (try_admit_state sample_pool sample_attempt \<lparr>cpu = 100, memory_bytes = 0\<rparr> 100 (Some 5) None
     idle_state empty_dir) = Inr True"
  by (rule idle_attempt_is_admitted [where ws = "[]" and files = "[]"])
    (simp_all add: empty_dir_def sample_attempt_def)

text \<open>
  A reservation's scalar weight covers what was asked for and no less would do: it is refused
  exactly for a memory request without a memory budget or for an empty request, and otherwise is the
  least number of permits at least as large as the CPUs and, in bytes, as the memory.
\<close>

lemma reservation_weight_least:
  "(case reservation_weight p cpus memory of
      Inl Needs_scheduler_memory \<Rightarrow> memory \<noteq> None \<and> bytes_per_permit p = 0
    | Inl Needs_cpus_or_memory \<Rightarrow> unwrap_or cpus 0 = 0 \<and> unwrap_or memory 0 = 0
    | Inr weight \<Rightarrow> 0 < weight \<and>
        (\<forall>n. weight \<le> n \<longleftrightarrow> unwrap_or cpus 0 \<le> n \<and> unwrap_or memory 0 \<le> n * bytes_per_permit p))"
proof (cases memory)
  case None
  then show ?thesis by (auto simp: reservation_weight_def Let_def)
next
  case (Some m)
  show ?thesis
  proof (cases "bytes_per_permit p = 0")
    case False
    then have "div_ceil m (bytes_per_permit p) = 0 \<longleftrightarrow> m = 0"
      using div_ceil_le_iff [of "bytes_per_permit p" m 0] by simp
    with False Some show ?thesis
      by (auto simp: reservation_weight_def Let_def less_max_iff_disj div_ceil_le_iff)
  qed (simp add: reservation_weight_def Some)
qed

end
