(* ===== verification/Bytes.thy ===== *)
theory Bytes
  imports Mbx_Prelude
begin

text \<open>
  Bytes and fixed-width integers: \<open>to_le_bytes\<close>/\<open>from_le_bytes\<close> and their big-endian
  versions, exact reads at an offset and the exact chunks of a slice.
\<close>

type_synonym byte = "8 word"

primrec le_bytes :: "nat \<Rightarrow> nat \<Rightarrow> byte list" where
  "le_bytes 0 n = []"
| "le_bytes (Suc k) n = of_nat (n mod 256) # le_bytes k (n div 256)"

primrec of_le_bytes :: "byte list \<Rightarrow> nat" where
  "of_le_bytes [] = 0"
| "of_le_bytes (b # bs) = unat b + 256 * of_le_bytes bs"

lemma length_le_bytes [simp]: "length (le_bytes k n) = k"
  by (induction k arbitrary: n) auto

lemma unat_byte: "unat (of_nat (n mod 256) :: byte) = n mod 256"
  by (simp add: unat_of_nat)

lemma of_le_bytes_mod: "of_le_bytes (le_bytes k n) = n mod 256 ^ k"
proof (induction k arbitrary: n)
  case (Suc k)
  have "n mod 256 + 256 * (n div 256 mod 256 ^ k) = n mod (256 * 256 ^ k)"
    by (simp add: mod_mult2_eq)
  then show ?case using Suc by (simp add: unat_byte)
qed simp

lemma of_le_bytes_le_bytes [simp]: "n < 256 ^ k \<Longrightarrow> of_le_bytes (le_bytes k n) = n"
  by (simp add: of_le_bytes_mod)

lemma of_le_bytes_u64 [simp]: "n \<le> u64_max \<Longrightarrow> of_le_bytes (le_bytes 8 n) = n"
  by (simp add: u64_max_def)

lemma of_le_bytes_less: "of_le_bytes bs < 256 ^ length bs"
proof (induction bs)
  case (Cons b bs)
  have "unat b < 2 ^ LENGTH(8)" by (rule unsigned_less)
  then have "unat b < 256" by simp
  with Cons show ?case by simp
qed simp

lemma of_le_bytes_u64_max: "length bs = 8 \<Longrightarrow> of_le_bytes bs \<le> u64_max"
  using of_le_bytes_less [of bs] by (simp add: u64_max_def)

lemma le_bytes_of_le_bytes [simp]: "le_bytes (length bs) (of_le_bytes bs) = bs"
proof (induction bs)
  case (Cons b bs)
  have "unat b < 2 ^ LENGTH(8)" by (rule unsigned_less)
  then have "unat b < 256" by simp
  then have "(unat b + 256 * of_le_bytes bs) mod 256 = unat b"
    "(unat b + 256 * of_le_bytes bs) div 256 = of_le_bytes bs" by simp_all
  with Cons show ?case by simp
qed simp

definition be_bytes :: "nat \<Rightarrow> nat \<Rightarrow> byte list" where
  "be_bytes k n = rev (le_bytes k n)"

definition of_be_bytes :: "byte list \<Rightarrow> nat" where
  "of_be_bytes bs = of_le_bytes (rev bs)"

lemma length_be_bytes [simp]: "length (be_bytes k n) = k"
  by (simp add: be_bytes_def)

lemma of_be_bytes_be_bytes [simp]: "n < 256 ^ k \<Longrightarrow> of_be_bytes (be_bytes k n) = n"
  by (simp add: be_bytes_def of_be_bytes_def)

lemma of_be_bytes_less: "of_be_bytes bs < 256 ^ length bs"
  using of_le_bytes_less [of "rev bs"] by (simp add: of_be_bytes_def)

text \<open>\<open>read_exact_at\<close>: all the bytes or an error.\<close>

definition read_exact_at :: "'a list \<Rightarrow> nat \<Rightarrow> nat \<Rightarrow> 'a list option" where
  "read_exact_at file offset n =
     (if offset + n \<le> length file then Some (take n (drop offset file)) else None)"

text \<open>\<open>as_chunks\<close>: the whole chunks, without the remainder.\<close>

function exact_chunks :: "nat \<Rightarrow> 'a list \<Rightarrow> 'a list list" where
  "exact_chunks n xs =
     (if n = 0 \<or> length xs < n then [] else take n xs # exact_chunks n (drop n xs))"
  by pat_completeness auto

termination exact_chunks
  by (relation "measure (\<lambda>(_, xs). length xs)") auto

declare exact_chunks.simps [simp del]

lemma exact_chunks_Nil [simp]: "exact_chunks n [] = []"
  by (cases n) (simp_all add: exact_chunks.simps)

lemma exact_chunks_append:
  "length c = n \<Longrightarrow> 0 < n \<Longrightarrow> exact_chunks n (c @ xs) = c # exact_chunks n xs"
  by (subst exact_chunks.simps) simp

lemma exact_chunks_concat:
  "0 < n \<Longrightarrow> \<forall>c \<in> set cs. length c = n \<Longrightarrow> exact_chunks n (concat cs) = cs"
  by (induction cs) (simp_all add: exact_chunks_append)

lemma read_chunk:
  assumes "\<forall>c \<in> set cs. length c = n" "i < length cs"
  shows "read_exact_at (h @ concat cs) (length h + i * n) n = Some (cs ! i)"
proof -
  have len: "length (concat (take j cs)) = j * n" if "j \<le> length cs" for j
    using that assms(1)
    by (induction j) (auto simp: take_Suc_conv_app_nth)
  have "concat cs = concat (take i cs) @ cs ! i @ concat (drop (Suc i) cs)"
    using assms(2) by (metis concat.simps(2) concat_append id_take_nth_drop)
  moreover have "length (cs ! i) = n" using assms by simp
  ultimately show ?thesis
    using len [of i] assms(2) by (simp add: read_exact_at_def)
qed

lemma length_concat_chunks: "\<forall>c \<in> set cs. length c = n \<Longrightarrow> length (concat cs) = length cs * n"
  by (induction cs) auto

end
