(* ===== verification/Test_History.thy ===== *)
theory Test_History
  imports Ordered_Map Bytes
begin

text \<open>
  The compact per-test history (\<open>scheduler.rs\<close>): its file format (a 32-byte header with the
  binary's tag and the maximum over all tests, then 24-byte records sorted by hash), the binary
  search over the file, the tolerant full read, and raising one test's measurement under the cap on
  records. A file is its bytes. The hash of a test name and the tag of a binary name are parts of a
  SHA-256 digest, which is a parameter here.
\<close>

section \<open>Measurements\<close>

record measurement =
  m_peak :: "u64 option"
  m_cores :: "u64 option"

definition no_measurement :: measurement where
  "no_measurement = \<lparr>m_peak = None, m_cores = None\<rparr>"

fun max_opt :: "u64 option \<Rightarrow> u64 option \<Rightarrow> u64 option" where
  "max_opt (Some x) (Some y) = Some (max x y)"
| "max_opt (Some x) None = Some x"
| "max_opt None y = y"

definition raise_measurement :: "measurement \<Rightarrow> measurement \<Rightarrow> measurement" where
  "raise_measurement current incoming =
     \<lparr>m_peak = max_opt (m_peak current) (m_peak incoming),
      m_cores = max_opt (m_cores current) (m_cores incoming)\<rparr>"

record history_record =
  r_hash :: u64
  r_measurement :: measurement

record history_header =
  h_count :: u64
  h_maximum :: measurement

section \<open>The file format\<close>

definition TEST_HISTORY_MAGIC :: "byte list" where
  "TEST_HISTORY_MAGIC = [109, 98, 120, 116, 101, 115, 116, 1]"

definition TEST_HISTORY_HEADER_LEN :: u64 where "TEST_HISTORY_HEADER_LEN = 32"
definition TEST_HISTORY_RECORD_LEN :: u64 where "TEST_HISTORY_RECORD_LEN = 24"
definition MAX_TEST_HISTORY_ENTRIES :: nat where "MAX_TEST_HISTORY_ENTRIES = 16384"

definition read_u64 :: "byte list \<Rightarrow> u64" where
  "read_u64 bytes = of_le_bytes bytes"

definition nonzero :: "u64 \<Rightarrow> u64 option" where
  "nonzero v = (if v \<noteq> 0 then Some v else None)"

definition slice :: "nat \<Rightarrow> nat \<Rightarrow> 'a list \<Rightarrow> 'a list" where
  "slice a b xs = take (b - a) (drop a xs)"

definition parse_test_history_header ::
  "(string \<Rightarrow> u64) \<Rightarrow> byte list \<Rightarrow> u64 \<Rightarrow> string \<Rightarrow> history_header option" where
  "parse_test_history_header tag bytes file_len binary =
     (if length bytes \<noteq> TEST_HISTORY_HEADER_LEN \<or> file_len < TEST_HISTORY_HEADER_LEN \<or>
         take 8 bytes \<noteq> TEST_HISTORY_MAGIC \<or> read_u64 (slice 8 16 bytes) \<noteq> tag binary
      then None
      else Some \<lparr>h_count = (file_len - TEST_HISTORY_HEADER_LEN) div TEST_HISTORY_RECORD_LEN,
             h_maximum = \<lparr>m_peak = nonzero (read_u64 (slice 16 24 bytes)),
                          m_cores = nonzero (read_u64 (slice 24 32 bytes))\<rparr>\<rparr>)"

definition read_test_history_header ::
  "(string \<Rightarrow> u64) \<Rightarrow> byte list \<Rightarrow> string \<Rightarrow> history_header option" where
  "read_test_history_header tag file binary =
     (if length file < TEST_HISTORY_HEADER_LEN then None
      else Option.bind (read_exact_at file 0 TEST_HISTORY_HEADER_LEN)
             (\<lambda>bytes. parse_test_history_header tag bytes (length file) binary))"

definition decode_test_history_record :: "byte list \<Rightarrow> history_record" where
  "decode_test_history_record bytes =
     \<lparr>r_hash = read_u64 (take 8 bytes),
      r_measurement = \<lparr>m_peak = nonzero (read_u64 (slice 8 16 bytes)),
                       m_cores = nonzero (read_u64 (slice 16 24 bytes))\<rparr>\<rparr>"

definition encode_record :: "history_record \<Rightarrow> byte list" where
  "encode_record r =
     le_bytes 8 (r_hash r) @ le_bytes 8 (unwrap_or (m_peak (r_measurement r)) 0) @
     le_bytes 8 (unwrap_or (m_cores (r_measurement r)) 0)"

definition maximum_of :: "history_record list \<Rightarrow> measurement" where
  "maximum_of records = foldl (\<lambda>m r. raise_measurement m (r_measurement r)) no_measurement records"

definition encode_test_history :: "(string \<Rightarrow> u64) \<Rightarrow> string \<Rightarrow> history_record list \<Rightarrow> byte list" where
  "encode_test_history tag binary records =
     (let maximum = maximum_of records
      in TEST_HISTORY_MAGIC @ le_bytes 8 (tag binary) @ le_bytes 8 (unwrap_or (m_peak maximum) 0) @
         le_bytes 8 (unwrap_or (m_cores maximum) 0) @ concat (map encode_record records))"

section \<open>Lookup\<close>

text \<open>The search over records on disk; a short read ends it.\<close>

function search_file :: "byte list \<Rightarrow> u64 \<Rightarrow> nat \<Rightarrow> nat \<Rightarrow> measurement option" where
  "search_file file hash low high =
     (if low < high
      then (let middle = low + (high - low) div 2;
                offset = TEST_HISTORY_HEADER_LEN + middle * TEST_HISTORY_RECORD_LEN
            in case read_exact_at file offset TEST_HISTORY_RECORD_LEN of
                 None \<Rightarrow> None
               | Some bytes \<Rightarrow>
                   (let r = decode_test_history_record bytes
                    in if r_hash r < hash then search_file file hash (middle + 1) high
                       else if r_hash r > hash then search_file file hash low middle
                       else Some (r_measurement r)))
      else None)"
  by pat_completeness auto

termination search_file
  by (relation "measure (\<lambda>(_, _, low, high). high - low)") auto

declare search_file.simps [simp del]

text \<open>\<open>None\<close> for the file is a file that could not be opened.\<close>

definition lookup_test_history ::
  "(string \<Rightarrow> u64) \<Rightarrow> (string \<Rightarrow> u64) \<Rightarrow> byte list option \<Rightarrow> string \<Rightarrow> string \<Rightarrow>
   measurement option \<times> history_header" where
  "lookup_test_history hash tag file binary test =
     (let missing = (None, \<lparr>h_count = 0, h_maximum = no_measurement\<rparr>)
      in case file of
           None \<Rightarrow> missing
         | Some bytes \<Rightarrow>
             (case read_test_history_header tag bytes binary of
                None \<Rightarrow> missing
              | Some header \<Rightarrow> (search_file bytes (hash test) 0 (h_count header), header)))"

section \<open>Reading every record\<close>

text \<open>Records with the same hash are adjacent after the sort and are merged.\<close>

fun merge_adjacent :: "history_record list \<Rightarrow> history_record list" where
  "merge_adjacent [] = []"
| "merge_adjacent [r] = [r]"
| "merge_adjacent (r # s # rs) =
     (if r_hash r = r_hash s
      then merge_adjacent
             (r\<lparr>r_measurement := raise_measurement (r_measurement r) (r_measurement s)\<rparr> # rs)
      else r # merge_adjacent (s # rs))"

definition read_test_history_records ::
  "(string \<Rightarrow> u64) \<Rightarrow> byte list option \<Rightarrow> string \<Rightarrow> history_record list" where
  "read_test_history_records tag file binary =
     (case file of
        None \<Rightarrow> []
      | Some contents \<Rightarrow>
          if length contents < TEST_HISTORY_HEADER_LEN then []
          else (case parse_test_history_header tag (take TEST_HISTORY_HEADER_LEN contents)
                       (length contents) binary of
              None \<Rightarrow> []
            | Some header \<Rightarrow>
                merge_adjacent (sort_key r_hash (map decode_test_history_record
                  (take (h_count header)
                    (exact_chunks TEST_HISTORY_RECORD_LEN (drop TEST_HISTORY_HEADER_LEN contents)))))))"

section \<open>Raising a measurement\<close>

text \<open>
  \<open>binary_search_by_key\<close> on records strictly sorted by hash: the index of the record, or the
  index that keeps the order.
\<close>

definition search_records :: "history_record list \<Rightarrow> u64 \<Rightarrow> nat + nat" where
  "search_records records hash =
     (let i = length (takeWhile (\<lambda>r. r_hash r < hash) records)
      in if i < length records \<and> r_hash (records ! i) = hash then Inr i else Inl i)"

text \<open>Replacing or inserting the record of one hash in a sorted list.\<close>

definition put_record :: "history_record list \<Rightarrow> u64 \<Rightarrow> measurement \<Rightarrow> history_record list" where
  "put_record records h m =
     (case search_records records h of
        Inr i \<Rightarrow> records[i := (records ! i)\<lparr>r_measurement := m\<rparr>]
      | Inl i \<Rightarrow> take i records @ \<lparr>r_hash = h, r_measurement = m\<rparr> # drop i records)"

definition cap_key :: "history_record \<Rightarrow> u64 \<times> u64 \<times> u64" where
  "cap_key r = (unwrap_or (m_peak (r_measurement r)) 0, unwrap_or (m_cores (r_measurement r)) 0, r_hash r)"

function enforce_test_history_cap :: "nat \<Rightarrow> history_record list \<Rightarrow> history_record list" where
  "enforce_test_history_cap limit records =
     (if length records \<le> limit then records
      else (case min_by_key cap_key records of
          None \<Rightarrow> records
        | Some smallest \<Rightarrow> enforce_test_history_cap limit (remove1 smallest records)))"
  by pat_completeness auto

termination enforce_test_history_cap
  by (relation "measure (\<lambda>(_, rs). length rs)")
    (auto dest!: min_by_key_Some simp: length_remove1 neq_Nil_conv)

declare enforce_test_history_cap.simps [simp del]

definition positive :: "u64 option \<Rightarrow> u64 option" where
  "positive v = (case v of Some n \<Rightarrow> if n > 0 then Some n else None | None \<Rightarrow> None)"

text \<open>The new file, or none when nothing is written.\<close>

definition record_test_history ::
  "(string \<Rightarrow> u64) \<Rightarrow> (string \<Rightarrow> u64) \<Rightarrow> byte list option \<Rightarrow> string \<Rightarrow> string \<Rightarrow>
   u64 option \<Rightarrow> u64 option \<Rightarrow> byte list option" where
  "record_test_history hash tag file binary test peak cores =
     (let h = hash test;
          records = read_test_history_records tag file binary;
          position = search_records records h;
          current = (case position of Inr i \<Rightarrow> r_measurement (records ! i) | Inl _ \<Rightarrow> no_measurement);
          updated = raise_measurement current \<lparr>m_peak = positive peak, m_cores = positive cores\<rparr>
      in if updated = current then None
         else
           Some (encode_test_history tag binary
             (enforce_test_history_cap MAX_TEST_HISTORY_ENTRIES (put_record records h updated))))"

definition raises :: "u64 option \<Rightarrow> u64 option \<Rightarrow> bool" where
  "raises value known =
     (case value of
        None \<Rightarrow> False
      | Some v \<Rightarrow> (case known of None \<Rightarrow> True | Some k \<Rightarrow> v > k))"

definition record_test_measurement ::
  "(string \<Rightarrow> u64) \<Rightarrow> (string \<Rightarrow> u64) \<Rightarrow> measurement option \<Rightarrow> byte list option \<Rightarrow> string \<Rightarrow> string \<Rightarrow>
   u64 option \<Rightarrow> u64 option \<Rightarrow> byte list option" where
  "record_test_measurement hash tag known file binary test peak cores =
     (if (case known of
            Some k \<Rightarrow> \<not> raises peak (m_peak k) \<and> \<not> raises cores (m_cores k)
          | None \<Rightarrow> False)
      then None
      else record_test_history hash tag file binary test peak cores)"

section \<open>Measurements form a semilattice\<close>

lemma max_opt_simps [simp]: "max_opt x None = x" "max_opt x x = x"
  by (cases x; simp)+

lemma max_opt_assoc: "max_opt (max_opt x y) z = max_opt x (max_opt y z)"
  by (cases x; cases y; cases z) (auto simp: max.assoc)

lemma max_opt_commute: "max_opt x y = max_opt y x"
  by (cases x; cases y) (auto simp: max.commute)

lemma max_opt_left_commute: "max_opt x (max_opt y z) = max_opt y (max_opt x z)"
  by (metis max_opt_assoc max_opt_commute)

interpretation raising: semilattice_neutr raise_measurement no_measurement
  by unfold_locales
    (simp_all add: raise_measurement_def no_measurement_def max_opt_assoc max_opt_commute
      max_opt_left_commute)

definition below :: "measurement \<Rightarrow> measurement \<Rightarrow> bool" where
  "below m m' \<longleftrightarrow> raise_measurement m m' = m'"

lemma below_refl [simp]: "below m m"
  by (simp add: below_def)

lemma below_trans: "below a b \<Longrightarrow> below b c \<Longrightarrow> below a c"
  unfolding below_def by (metis raising.assoc)

lemma below_raise [simp]: "below m (raise_measurement m m')" "below m' (raise_measurement m m')"
  unfolding below_def by (simp_all add: raising.left_commute)

lemma raise_eq_iff: "raise_measurement m m' = m \<longleftrightarrow> below m' m"
  unfolding below_def by (metis raising.commute)

section \<open>Well-formed records\<close>

definition value_ok :: "u64 option \<Rightarrow> bool" where
  "value_ok v = (case v of None \<Rightarrow> True | Some n \<Rightarrow> 0 < n \<and> n \<le> u64_max)"

definition record_ok :: "history_record \<Rightarrow> bool" where
  "record_ok r \<longleftrightarrow> r_hash r \<le> u64_max \<and> value_ok (m_peak (r_measurement r)) \<and> value_ok (m_cores (r_measurement r))"

definition records_ok :: "history_record list \<Rightarrow> bool" where
  "records_ok rs \<longleftrightarrow> sorted_wrt (<) (map r_hash rs) \<and> (\<forall>r \<in> set rs. record_ok r)"

definition find_record :: "history_record list \<Rightarrow> u64 \<Rightarrow> measurement option" where
  "find_record rs h = map_option r_measurement (find (\<lambda>r. r_hash r = h) rs)"

lemma value_ok_max: "value_ok v \<Longrightarrow> value_ok w \<Longrightarrow> value_ok (max_opt v w)"
  by (cases v; cases w) (auto simp: value_ok_def)

lemma value_round_trip: "value_ok v \<Longrightarrow> nonzero (read_u64 (le_bytes 8 (unwrap_or v 0))) = v"
  by (cases v) (auto simp: value_ok_def nonzero_def read_u64_def)

lemma value_ok_nonzero: "length bs = 8 \<Longrightarrow> value_ok (nonzero (read_u64 bs))"
  using of_le_bytes_u64_max [of bs] by (simp add: value_ok_def nonzero_def read_u64_def)

lemma value_ok_positive: "(\<And>n. v = Some n \<Longrightarrow> n \<le> u64_max) \<Longrightarrow> value_ok (positive v)"
  by (auto simp: value_ok_def positive_def split: option.split)

lemma length_encode_record [simp]: "length (encode_record r) = TEST_HISTORY_RECORD_LEN"
  by (simp add: encode_record_def TEST_HISTORY_RECORD_LEN_def)

lemma decode_encode_record: "record_ok r \<Longrightarrow> decode_test_history_record (encode_record r) = r"
  by (simp add: decode_test_history_record_def encode_record_def slice_def record_ok_def
      value_round_trip read_u64_def [of "le_bytes 8 (r_hash r)"])

lemma decode_record_ok:
  "length bs = TEST_HISTORY_RECORD_LEN \<Longrightarrow> record_ok (decode_test_history_record bs)"
  by (auto simp: record_ok_def decode_test_history_record_def TEST_HISTORY_RECORD_LEN_def slice_def
      read_u64_def [of "take 8 bs"] intro!: value_ok_nonzero of_le_bytes_u64_max)

lemma records_distinct: "records_ok rs \<Longrightarrow> distinct (map r_hash rs)"
  by (simp add: records_ok_def strict_sorted_iff)

lemma maximum_ok: "\<forall>r \<in> set rs. record_ok r \<Longrightarrow>
  value_ok (m_peak (maximum_of rs)) \<and> value_ok (m_cores (maximum_of rs))"
proof (induction rs rule: rev_induct)
  case Nil
  show ?case by (simp add: maximum_of_def no_measurement_def value_ok_def)
next
  case (snoc r rs)
  then show ?case by (simp add: maximum_of_def raise_measurement_def record_ok_def value_ok_max)
qed

lemma maximum_above: "r \<in> set rs \<Longrightarrow> below (r_measurement r) (maximum_of rs)"
proof (induction rs rule: rev_induct)
  case (snoc x rs)
  have "maximum_of (rs @ [x]) = raise_measurement (maximum_of rs) (r_measurement x)"
    by (simp add: maximum_of_def)
  with snoc show ?case by (auto intro: below_trans)
qed simp

section \<open>Round trip\<close>

definition encoded_header :: "(string \<Rightarrow> u64) \<Rightarrow> string \<Rightarrow> history_record list \<Rightarrow> byte list" where
  "encoded_header tag binary rs =
     TEST_HISTORY_MAGIC @ le_bytes 8 (tag binary) @ le_bytes 8 (unwrap_or (m_peak (maximum_of rs)) 0) @
     le_bytes 8 (unwrap_or (m_cores (maximum_of rs)) 0)"

lemma length_encoded_header [simp]: "length (encoded_header tag binary rs) = TEST_HISTORY_HEADER_LEN"
  by (simp add: encoded_header_def TEST_HISTORY_MAGIC_def TEST_HISTORY_HEADER_LEN_def)

lemma encode_split:
  "encode_test_history tag binary rs = encoded_header tag binary rs @ concat (map encode_record rs)"
  by (simp add: encode_test_history_def encoded_header_def Let_def)

lemma length_encode:
  "length (encode_test_history tag binary rs) = TEST_HISTORY_HEADER_LEN + length rs * TEST_HISTORY_RECORD_LEN"
  using length_concat_chunks [of "map encode_record rs" TEST_HISTORY_RECORD_LEN]
  by (simp add: encode_split)

lemma parse_encoded_header:
  assumes "tag binary \<le> u64_max" "\<forall>r \<in> set rs. record_ok r"
  shows "parse_test_history_header tag (encoded_header tag binary rs)
      (TEST_HISTORY_HEADER_LEN + length rs * TEST_HISTORY_RECORD_LEN) binary =
    Some \<lparr>h_count = length rs, h_maximum = maximum_of rs\<rparr>"
proof -
  let ?b = "encoded_header tag binary rs"
  have "take 8 ?b = TEST_HISTORY_MAGIC" "slice 8 16 ?b = le_bytes 8 (tag binary)"
    "slice 16 24 ?b = le_bytes 8 (unwrap_or (m_peak (maximum_of rs)) 0)"
    "slice 24 32 ?b = le_bytes 8 (unwrap_or (m_cores (maximum_of rs)) 0)"
    by (simp_all add: encoded_header_def TEST_HISTORY_MAGIC_def slice_def)
  moreover have "read_u64 (le_bytes 8 (tag binary)) = tag binary"
    using assms(1) by (simp add: read_u64_def)
  ultimately show ?thesis
    using maximum_ok [OF assms(2)]
    by (simp add: parse_test_history_header_def value_round_trip TEST_HISTORY_RECORD_LEN_def)
qed

lemma merge_adjacent_id: "sorted_wrt (<) (map r_hash rs) \<Longrightarrow> merge_adjacent rs = rs"
  by (induction rs rule: merge_adjacent.induct) auto

lemma sort_records_id: "sorted_wrt (<) (map r_hash rs) \<Longrightarrow> sort_key r_hash rs = rs"
proof (induction rs)
  case (Cons r rs)
  then have "\<forall>x \<in> set rs. r_hash r \<le> r_hash x" by (auto intro: less_imp_le)
  with Cons show ?case by (simp add: insort_is_Cons)
qed simp

lemma read_encode:
  assumes "tag binary \<le> u64_max" "records_ok rs"
  shows "read_test_history_records tag (Some (encode_test_history tag binary rs)) binary = rs"
proof -
  have ok: "\<forall>r \<in> set rs. record_ok r" "sorted_wrt (<) (map r_hash rs)"
    using assms(2) by (simp_all add: records_ok_def)
  have take: "take TEST_HISTORY_HEADER_LEN (encode_test_history tag binary rs) = encoded_header tag binary rs"
    "drop TEST_HISTORY_HEADER_LEN (encode_test_history tag binary rs) = concat (map encode_record rs)"
    by (simp_all add: encode_split)
  have chunks: "exact_chunks TEST_HISTORY_RECORD_LEN (concat (map encode_record rs)) = map encode_record rs"
    by (rule exact_chunks_concat) (auto simp: TEST_HISTORY_RECORD_LEN_def)
  have "map (decode_test_history_record \<circ> encode_record) rs = rs"
    using ok(1) by (induction rs) (auto simp: decode_encode_record)
  then show ?thesis
    using parse_encoded_header [where tag = tag and binary = binary and rs = rs, OF assms(1) ok(1)] ok(2)
    by (simp add: read_test_history_records_def length_encode take chunks merge_adjacent_id sort_records_id)
qed

lemma find_by_hash:
  "distinct (map r_hash rs) \<Longrightarrow> r \<in> set rs \<Longrightarrow> find (\<lambda>x. r_hash x = r_hash r) rs = Some r"
  by (induction rs) (auto simp: rev_image_eqI)

lemma find_record_Some:
  "records_ok rs \<Longrightarrow> find_record rs h = Some m \<longleftrightarrow> (\<exists>r \<in> set rs. r_hash r = h \<and> r_measurement r = m)"
proof
  assume "find_record rs h = Some m"
  then obtain r where r: "find (\<lambda>r. r_hash r = h) rs = Some r" "r_measurement r = m"
    by (auto simp: find_record_def)
  from r(1) have "r \<in> set rs \<and> r_hash r = h" by (auto simp: find_Some_iff)
  with r(2) show "\<exists>r \<in> set rs. r_hash r = h \<and> r_measurement r = m" by blast
next
  assume ok: "records_ok rs" and "\<exists>r \<in> set rs. r_hash r = h \<and> r_measurement r = m"
  then obtain r where "r \<in> set rs" "r_hash r = h" "r_measurement r = m" by blast
  with find_by_hash [OF records_distinct [OF ok], of r] show "find_record rs h = Some m"
    by (simp add: find_record_def)
qed

lemma find_record_None: "find_record rs h = None \<longleftrightarrow> h \<notin> r_hash ` set rs"
  by (auto simp: find_record_def find_None_iff)

section \<open>The binary search\<close>

lemma read_record:
  assumes "\<forall>r \<in> set rs. record_ok r" "i < length rs"
  shows "map_option decode_test_history_record (read_exact_at (encode_test_history tag binary rs)
    (TEST_HISTORY_HEADER_LEN + i * TEST_HISTORY_RECORD_LEN) TEST_HISTORY_RECORD_LEN) = Some (rs ! i)"
  using read_chunk [of "map encode_record rs" TEST_HISTORY_RECORD_LEN i "encoded_header tag binary rs"]
    assms decode_encode_record by (simp add: encode_split)

lemma search_file_correct:
  assumes "records_ok rs" "high \<le> length rs"
    and "\<And>i. i < low \<Longrightarrow> i < length rs \<Longrightarrow> r_hash (rs ! i) < h"
    and "\<And>i. high \<le> i \<Longrightarrow> i < length rs \<Longrightarrow> h < r_hash (rs ! i)"
  shows "search_file (encode_test_history tag binary rs) h low high = find_record rs h"
  using assms(2-)
proof (induction "encode_test_history tag binary rs" h low high rule: search_file.induct)
  case (1 h low high)
  let ?file = "encode_test_history tag binary rs"
  have sorted: "i < j \<Longrightarrow> j < length rs \<Longrightarrow> r_hash (rs ! i) < r_hash (rs ! j)" for i j
    using assms(1) sorted_wrt_nth_less [of "(<)" "map r_hash rs" i j] by (simp add: records_ok_def)
  show ?case
  proof (cases "low < high")
    case False
    have "h \<notin> r_hash ` set rs"
    proof
      assume "h \<in> r_hash ` set rs"
      then obtain i where "i < length rs" "r_hash (rs ! i) = h" by (auto simp: in_set_conv_nth)
      with 1(4,5) [of i] False show False by (cases "i < low") auto
    qed
    then show ?thesis using False by (simp add: search_file.simps find_record_None [symmetric])
  next
    case True
    let ?mid = "low + (high - low) div 2"
    have mid: "?mid < high" "low \<le> ?mid" using True by auto
    then have len: "?mid < length rs" using 1(3) by simp
    from read_record [of rs ?mid tag binary] assms(1) len obtain bytes where
      bytes: "read_exact_at ?file (TEST_HISTORY_HEADER_LEN + ?mid * TEST_HISTORY_RECORD_LEN)
        TEST_HISTORY_RECORD_LEN = Some bytes"
      and rec: "decode_test_history_record bytes = rs ! ?mid"
      by (auto simp: records_ok_def)
    note step = search_file.simps [of ?file h low high]
    consider "r_hash (rs ! ?mid) < h" | "h < r_hash (rs ! ?mid)" | "r_hash (rs ! ?mid) = h"
      by linarith
    then show ?thesis
    proof cases
      case 1
      have "search_file ?file h (?mid + 1) high = find_record rs h"
      proof (rule "1.hyps"(1) [OF True refl refl bytes])
        show "r_hash (decode_test_history_record bytes) < h" using 1 rec by simp
        show "i < ?mid + 1 \<Longrightarrow> i < length rs \<Longrightarrow> r_hash (rs ! i) < h" for i
          using 1 sorted [of i ?mid] len by (cases "i = ?mid") auto
      qed (use "1.prems" in auto)
      then show ?thesis using True 1 rec bytes by (simp add: step Let_def)
    next
      case 2
      have "search_file ?file h low ?mid = find_record rs h"
      proof (rule "1.hyps"(2) [OF True refl refl bytes])
        show "\<not> r_hash (decode_test_history_record bytes) < h"
          "h < r_hash (decode_test_history_record bytes)" using 2 rec by simp_all
        show "?mid \<le> i \<Longrightarrow> i < length rs \<Longrightarrow> h < r_hash (rs ! i)" for i
          using 2 sorted [of ?mid i] by (cases "i = ?mid") auto
      qed (use "1.prems" mid in auto)
      then show ?thesis using True 2 rec bytes by (simp add: step Let_def)
    next
      case 3
      have "find_record rs h = Some (r_measurement (rs ! ?mid))"
        using 3 len assms(1) find_record_Some [of rs h] nth_mem by blast
      then show ?thesis using True 3 rec bytes by (simp add: step Let_def)
    qed
  qed
qed

lemma lookup_encoded:
  assumes "tag binary \<le> u64_max" "records_ok rs"
  shows "lookup_test_history hash tag (Some (encode_test_history tag binary rs)) binary test =
    (find_record rs (hash test), \<lparr>h_count = length rs, h_maximum = maximum_of rs\<rparr>)"
proof -
  have "read_exact_at (encode_test_history tag binary rs) 0 TEST_HISTORY_HEADER_LEN =
      Some (encoded_header tag binary rs)"
    by (simp add: read_exact_at_def length_encode) (simp add: encode_split)
  then have "read_test_history_header tag (encode_test_history tag binary rs) binary =
      Some \<lparr>h_count = length rs, h_maximum = maximum_of rs\<rparr>"
    using parse_encoded_header [where tag = tag and binary = binary and rs = rs, OF assms(1)] assms(2)
    by (simp add: read_test_history_header_def length_encode records_ok_def)
  moreover have "search_file (encode_test_history tag binary rs) (hash test) 0 (length rs) =
      find_record rs (hash test)"
    by (rule search_file_correct [OF assms(2)]) auto
  ultimately show ?thesis by (simp add: lookup_test_history_def)
qed

section \<open>Updates\<close>

lemma merge_adjacent_ok:
  "sorted (map r_hash rs) \<Longrightarrow> \<forall>r \<in> set rs. record_ok r \<Longrightarrow> records_ok (merge_adjacent rs) \<and>
   r_hash ` set (merge_adjacent rs) = r_hash ` set rs"
proof (induction rs rule: merge_adjacent.induct)
  case (3 r s rs)
  show ?case
  proof (cases "r_hash r = r_hash s")
    case True
    have "record_ok (r\<lparr>r_measurement := raise_measurement (r_measurement r) (r_measurement s)\<rparr>)"
      using 3(4) by (simp add: record_ok_def raise_measurement_def value_ok_max)
    with 3(1) [OF True] 3(3,4) True show ?thesis by auto
  next
    case False
    with 3(3) have "r_hash r < r_hash s" "\<forall>x \<in> set (s # rs). r_hash r < r_hash x" by auto
    then have "\<forall>x \<in> r_hash ` set (merge_adjacent (s # rs)). r_hash r < x"
      using 3(2) [OF False] 3(3,4) by auto
    with 3(2) [OF False] 3(3,4) False show ?thesis by (auto simp: records_ok_def)
  qed
qed (auto simp: records_ok_def)

lemma exact_chunks_length: "c \<in> set (exact_chunks n xs) \<Longrightarrow> length c = n"
proof (induction n xs rule: exact_chunks.induct)
  case (1 n xs)
  then show ?case by (subst (asm) (2) exact_chunks.simps) (auto split: if_splits)
qed

lemma read_records_ok: "records_ok (read_test_history_records tag file binary)"
proof -
  have "records_ok (merge_adjacent (sort_key r_hash (map decode_test_history_record
      (take n (exact_chunks TEST_HISTORY_RECORD_LEN bytes)))))" for n bytes
    by (rule merge_adjacent_ok [THEN conjunct1])
      (auto dest!: in_set_takeD exact_chunks_length intro: decode_record_ok)
  moreover have "records_ok []" by (simp add: records_ok_def)
  ultimately show ?thesis by (simp add: read_test_history_records_def split: option.split)
qed

lemma enforce_cap_spec:
  "subseq (enforce_test_history_cap limit rs) rs \<and> length (enforce_test_history_cap limit rs) \<le> limit \<and>
   (length rs \<le> limit \<longrightarrow> enforce_test_history_cap limit rs = rs)"
proof (induction limit rs rule: enforce_test_history_cap.induct)
  case (1 limit rs)
  show ?case
  proof (cases "length rs \<le> limit")
    case False
    then obtain r where min: "min_by_key cap_key rs = Some r"
      by (cases "min_by_key cap_key rs") (auto simp del: min_by_key.simps)
    have "subseq (remove1 r rs) rs" by (induction rs) auto
    with 1 [OF False min] False min show ?thesis
      by (auto simp: enforce_test_history_cap.simps [of limit rs] intro: subseq_order.trans)
  qed (simp add: enforce_test_history_cap.simps)
qed

lemma sorted_wrt_subseq: "subseq xs ys \<Longrightarrow> sorted_wrt P ys \<Longrightarrow> sorted_wrt P xs"
  by (induction rule: list_emb.induct) (auto dest: list_emb_set)

lemma records_ok_subseq: "subseq rs' rs \<Longrightarrow> records_ok rs \<Longrightarrow> records_ok rs'"
proof -
  assume sub: "subseq rs' rs" and ok: "records_ok rs"
  have "set rs' \<subseteq> set rs" using list_emb_set [OF sub] by blast
  moreover have "sorted_wrt (<) (map r_hash rs')"
    using sorted_wrt_subseq [OF subseq_map [OF sub, of r_hash]] ok by (simp add: records_ok_def)
  ultimately show "records_ok rs'" using ok by (auto simp: records_ok_def)
qed

lemma search_records_cases:
  assumes "records_ok rs"
  obtains (found) xs r ys where "search_records rs h = Inr (length xs)" "rs = xs @ r # ys" "r_hash r = h"
      "\<forall>x \<in> set xs. r_hash x < h" "\<forall>y \<in> set ys. h < r_hash y"
  | (absent) xs ys where "search_records rs h = Inl (length xs)" "rs = xs @ ys"
      "\<forall>x \<in> set xs. r_hash x < h" "\<forall>y \<in> set ys. h < r_hash y"
proof -
  let ?xs = "takeWhile (\<lambda>r. r_hash r < h) rs" and ?zs = "dropWhile (\<lambda>r. r_hash r < h) rs"
  have rs: "rs = ?xs @ ?zs" by simp
  have xs: "\<forall>x \<in> set ?xs. r_hash x < h" by (auto dest: set_takeWhileD)
  have "sorted_wrt (\<lambda>a b. r_hash a < r_hash b) (?xs @ ?zs)"
    using assms by (simp add: records_ok_def sorted_wrt_map)
  then have sorted: "sorted_wrt (\<lambda>a b. r_hash a < r_hash b) ?zs" by (simp only: sorted_wrt_append)
  show thesis
  proof (cases ?zs)
    case Nil
    then have all: "?xs = rs" using rs by simp
    show ?thesis
    proof (rule absent)
      show "search_records rs h = Inl (length rs)" unfolding search_records_def all Let_def by simp
      show "rs = rs @ []" by simp
      show "\<forall>x \<in> set rs. r_hash x < h" using xs by (simp add: all)
    qed simp
  next
    case (Cons z zs)
    have rs': "rs = ?xs @ z # zs" using rs Cons by simp
    have nth: "rs ! length ?xs = z" "length ?xs < length rs"
      using arg_cong [OF rs', of "\<lambda>l. l ! length ?xs"] arg_cong [OF rs', of length] by simp_all
    have z: "\<not> r_hash z < h" using hd_dropWhile [of "\<lambda>r. r_hash r < h" rs] Cons by simp
    have zs: "\<forall>y \<in> set zs. r_hash z < r_hash y" using sorted Cons by simp
    show ?thesis
    proof (cases "r_hash z = h")
      case True
      show ?thesis
      proof (rule found [OF _ rs' True xs])
        show "search_records rs h = Inr (length ?xs)" using True nth by (simp add: search_records_def Let_def)
        show "\<forall>y \<in> set zs. h < r_hash y" using zs True by simp
      qed
    next
      case False
      with z have less: "h < r_hash z" by simp
      show ?thesis
      proof (rule absent [OF _ rs' xs])
        show "search_records rs h = Inl (length ?xs)" using False nth by (simp add: search_records_def Let_def)
        show "\<forall>y \<in> set (z # zs). h < r_hash y" using zs less by (auto intro: less_trans)
      qed
    qed
  qed
qed

lemma find_append:
  "find P (xs @ ys) = (case find P xs of Some x \<Rightarrow> Some x | None \<Rightarrow> find P ys)"
  by (induction xs) auto

lemma put_record_ok:
  assumes "records_ok rs" "h \<le> u64_max" "value_ok (m_peak m)" "value_ok (m_cores m)"
  shows "records_ok (put_record rs h m)"
    "find_record (put_record rs h m) k = (if k = h then Some m else find_record rs k)"
    "length (put_record rs h m) \<le> Suc (length rs)"
proof -
  from assms(1) have "records_ok (put_record rs h m) \<and>
      (\<forall>k. find_record (put_record rs h m) k = (if k = h then Some m else find_record rs k)) \<and>
      length (put_record rs h m) \<le> Suc (length rs)"
  proof (cases rule: search_records_cases [where h = h])
    case (found xs r ys)
    have put: "put_record rs h m = xs @ r\<lparr>r_measurement := m\<rparr> # ys"
      by (simp add: put_record_def found(1)) (simp add: found(2))
    have "records_ok (put_record rs h m)"
      using assms found unfolding put
      by (auto simp: records_ok_def record_ok_def sorted_wrt_append)
    moreover have "find (\<lambda>x. r_hash x = k) xs = None" if "h \<le> k" for k
      using found(4) that by (auto simp: find_None_iff)
    ultimately show ?thesis
      using found(2,3) unfolding put
      by (auto simp: find_record_def find_append split: option.splits)
  next
    case (absent xs ys)
    have put: "put_record rs h m = xs @ \<lparr>r_hash = h, r_measurement = m\<rparr> # ys"
      by (simp add: put_record_def absent(1)) (simp add: absent(2))
    have "records_ok (put_record rs h m)"
      using assms absent unfolding put
      by (auto simp: records_ok_def record_ok_def sorted_wrt_append dest: less_trans)
    moreover have "find (\<lambda>x. r_hash x = h) xs = None"
      using absent(3) by (auto simp: find_None_iff)
    ultimately show ?thesis
      using absent(2) unfolding put
      by (auto simp: find_record_def find_append split: option.splits)
  qed
  then show "records_ok (put_record rs h m)"
    "find_record (put_record rs h m) k = (if k = h then Some m else find_record rs k)"
    "length (put_record rs h m) \<le> Suc (length rs)" by simp_all
qed

lemma current_measurement:
  assumes "records_ok rs"
  shows "(case search_records rs h of Inr i \<Rightarrow> r_measurement (rs ! i) | Inl _ \<Rightarrow> no_measurement) =
    unwrap_or (find_record rs h) no_measurement"
  using assms
proof (cases rule: search_records_cases [where h = h])
  case (found xs r ys)
  have "find (\<lambda>x. r_hash x = h) xs = None" using found(4) by (auto simp: find_None_iff)
  with found show ?thesis by (simp add: find_record_def find_append)
next
  case (absent xs ys)
  have "find (\<lambda>x. r_hash x = h) (xs @ ys) = None" using absent(3,4) by (auto simp: find_None_iff)
  with absent show ?thesis by (simp add: find_record_def)
qed

lemma record_history_cases:
  "record_test_history hash tag file binary test peak cores =
    (let before = read_test_history_records tag file binary;
         current = unwrap_or (find_record before (hash test)) no_measurement;
         updated = raise_measurement current \<lparr>m_peak = positive peak, m_cores = positive cores\<rparr>
     in if updated = current then None
        else Some (encode_test_history tag binary (enforce_test_history_cap MAX_TEST_HISTORY_ENTRIES
            (put_record before (hash test) updated))))"
  unfolding record_test_history_def Let_def
  by (simp only: current_measurement [OF read_records_ok])

lemma find_record_ok: "records_ok rs \<Longrightarrow> find_record rs h = Some m \<Longrightarrow> value_ok (m_peak m) \<and> value_ok (m_cores m)"
  by (auto simp: find_record_Some records_ok_def record_ok_def)

lemma find_record_subseq:
  assumes "subseq rs' rs" "records_ok rs" "find_record rs' h = Some m"
  shows "find_record rs h = Some m"
proof -
  obtain r where "r \<in> set rs'" "r_hash r = h" "r_measurement r = m"
    using assms(3) find_record_Some [OF records_ok_subseq [OF assms(1,2)]] by blast
  moreover have "set rs' \<subseteq> set rs" using list_emb_set [OF assms(1)] by blast
  ultimately show ?thesis using find_record_Some [OF assms(2)] by blast
qed

section \<open>Properties\<close>

text \<open>
  C12. Writing and reading back agree. For any records sorted by hash, decoding the encoded file
  gives back exactly the records; the header's count and maximum are those of the records, the
  maximum covers every one of them; and the binary search over the bytes finds a test exactly when
  a record carries its hash, with that record's measurement.
\<close>

theorem history_round_trip:
  assumes "tag binary \<le> u64_max" and "records_ok rs"
  shows "read_test_history_records tag (Some (encode_test_history tag binary rs)) binary = rs \<and>
    lookup_test_history hash tag (Some (encode_test_history tag binary rs)) binary test =
      (find_record rs (hash test), \<lparr>h_count = length rs, h_maximum = maximum_of rs\<rparr>) \<and>
    (\<forall>r \<in> set rs. below (r_measurement r) (maximum_of rs))"
  using read_encode [of tag binary rs, OF assms] lookup_encoded [of tag binary rs, OF assms]
    maximum_above by blast

definition two_records :: "history_record list" where
  "two_records = [\<lparr>r_hash = 3, r_measurement = \<lparr>m_peak = Some 700, m_cores = Some 2\<rparr>\<rparr>,
     \<lparr>r_hash = 9, r_measurement = \<lparr>m_peak = None, m_cores = Some 4\<rparr>\<rparr>]"

lemma two_records_ok: "records_ok two_records"
  by (simp add: two_records_def records_ok_def record_ok_def value_ok_def u64_max_def)

theorem history_round_trip_witness:
  "lookup_test_history (\<lambda>_. 9) (\<lambda>_. 77) (Some (encode_test_history (\<lambda>_. 77) ''bin'' two_records)) ''bin'' ''t'' =
   (Some \<lparr>m_peak = None, m_cores = Some 4\<rparr>,
    \<lparr>h_count = 2, h_maximum = \<lparr>m_peak = Some 700, m_cores = Some 4\<rparr>\<rparr>)"
proof -
  have "(\<lambda>_. 77) ''bin'' \<le> u64_max" by (simp add: u64_max_def)
  from history_round_trip [OF this two_records_ok, where hash = "\<lambda>_. 9" and test = "''t''"] show ?thesis
    by (simp add: two_records_def find_record_def maximum_of_def raise_measurement_def no_measurement_def)
qed

lemma put_capped:
  assumes "records_ok before" "h \<le> u64_max" "value_ok (m_peak updated)" "value_ok (m_cores updated)"
  defines "rs \<equiv> enforce_test_history_cap MAX_TEST_HISTORY_ENTRIES (put_record before h updated)"
  shows "records_ok rs" "length rs \<le> MAX_TEST_HISTORY_ENTRIES"
    "find_record rs k = Some m' \<Longrightarrow> (if k = h then m' = updated else find_record before k = Some m')"
    "r_hash ` set rs \<subseteq> insert h (r_hash ` set before)"
    "length before < MAX_TEST_HISTORY_ENTRIES \<Longrightarrow> find_record rs h = Some updated"
proof -
  note put = put_record_ok [OF assms(1-4)]
  note cap = enforce_cap_spec [of MAX_TEST_HISTORY_ENTRIES "put_record before h updated", folded rs_def]
  show "records_ok rs" using cap records_ok_subseq [OF _ put(1)] by (simp only:)
  show "length rs \<le> MAX_TEST_HISTORY_ENTRIES" using cap by (simp only:)
  have kept: "find_record (put_record before h updated) k = Some m'" if "find_record rs k = Some m'" for k m'
    using cap find_record_subseq [OF _ put(1) that] by (simp only:)
  then show "if k = h then m' = updated else find_record before k = Some m'" if "find_record rs k = Some m'"
    using that by (fastforce simp: put(2))
  show "r_hash ` set rs \<subseteq> insert h (r_hash ` set before)"
  proof
    fix k assume "k \<in> r_hash ` set rs"
    then have "find_record rs k \<noteq> None" by (simp add: find_record_None)
    then obtain m' where "find_record rs k = Some m'" by blast
    from kept [OF this] have "k = h \<or> find_record before k \<noteq> None" by (simp add: put(2) split: if_splits)
    then show "k \<in> insert h (r_hash ` set before)" by (simp add: find_record_None)
  qed
  show "find_record rs h = Some updated" if "length before < MAX_TEST_HISTORY_ENTRIES"
    using cap put(2) [of h] put(3) that by (simp add: rs_def)
qed

text \<open>
  C13. Recording only raises. Whatever bytes the file holds, after a write it decodes to sorted
  records within the cap; every test still recorded has a measurement at least as high as before,
  every record left is an old test's or the new one's, and unless the cap was reached the measured
  test is there with the join of its old measurement and the new one.
\<close>

theorem recording_only_raises:
  assumes "record_test_history hash tag file binary test peak cores = Some file'"
    and "tag binary \<le> u64_max" and "hash test \<le> u64_max"
    and "\<And>n. peak = Some n \<Longrightarrow> n \<le> u64_max" and "\<And>n. cores = Some n \<Longrightarrow> n \<le> u64_max"
  defines "before \<equiv> read_test_history_records tag file binary"
    and "after \<equiv> read_test_history_records tag (Some file') binary"
  shows "records_ok after \<and> length after \<le> MAX_TEST_HISTORY_ENTRIES \<and>
    (\<forall>h m m'. find_record before h = Some m \<longrightarrow> find_record after h = Some m' \<longrightarrow> below m m') \<and>
    r_hash ` set after \<subseteq> insert (hash test) (r_hash ` set before) \<and>
    (length before < MAX_TEST_HISTORY_ENTRIES \<longrightarrow>
      find_record after (hash test) =
        Some (raise_measurement (unwrap_or (find_record before (hash test)) no_measurement)
          \<lparr>m_peak = positive peak, m_cores = positive cores\<rparr>))"
proof -
  define current where "current = unwrap_or (find_record before (hash test)) no_measurement"
  define updated where "updated = raise_measurement current \<lparr>m_peak = positive peak, m_cores = positive cores\<rparr>"
  let ?rs = "enforce_test_history_cap MAX_TEST_HISTORY_ENTRIES (put_record before (hash test) updated)"
  have before: "records_ok before" unfolding before_def by (rule read_records_ok)
  have file': "file' = encode_test_history tag binary ?rs"
    using assms(1) record_history_cases [of hash tag "file" binary test peak cores]
    by (simp add: Let_def before_def current_def updated_def split: if_splits)
  have "value_ok (m_peak current)" "value_ok (m_cores current)"
    using find_record_ok [OF before, of "hash test"]
    by (cases "find_record before (hash test)"; simp add: current_def no_measurement_def value_ok_def)+
  then have "value_ok (m_peak updated)" "value_ok (m_cores updated)"
    using value_ok_positive [of peak] value_ok_positive [of cores] assms(4,5)
    by (auto simp: updated_def raise_measurement_def intro!: value_ok_max)
  note put = put_capped [OF before assms(3) this]
  have after: "after = ?rs" unfolding after_def file' by (rule read_encode [of tag binary, OF assms(2) put(1)])
  have raised: "below m m'" if "find_record before h = Some m" "find_record ?rs h = Some m'" for h m m'
    using put(3) [OF that(2)] that(1) by (cases "h = hash test") (simp_all add: updated_def current_def)
  show ?thesis
    unfolding after current_def [symmetric] updated_def [symmetric]
    by (intro conjI allI impI put(1,2,4,5) raised; assumption)
qed

theorem recording_only_raises_witness:
  "find_record (read_test_history_records (\<lambda>_. 77) (Some (encode_test_history (\<lambda>_. 77) ''bin''
     [\<lparr>r_hash = 5, r_measurement = \<lparr>m_peak = Some 12, m_cores = None\<rparr>\<rparr>])) ''bin'') 5 =
   Some \<lparr>m_peak = Some 12, m_cores = None\<rparr>"
proof -
  let ?file = "encode_test_history (\<lambda>_. 77) ''bin'' [\<lparr>r_hash = 5, r_measurement = \<lparr>m_peak = Some 12, m_cores = None\<rparr>\<rparr>]"
  have written: "record_test_history (\<lambda>_. 5) (\<lambda>_. 77) None ''bin'' ''t'' (Some 12) (Some 0) = Some ?file"
    by (simp add: record_test_history_def read_test_history_records_def search_records_def Let_def
        raise_measurement_def no_measurement_def positive_def put_record_def
        enforce_test_history_cap.simps MAX_TEST_HISTORY_ENTRIES_def)
  have bounds: "(\<lambda>_. 77) ''bin'' \<le> u64_max" "(\<lambda>_. 5) ''t'' \<le> u64_max"
    "\<And>n. Some 12 = Some n \<Longrightarrow> n \<le> u64_max" "\<And>n. Some 0 = Some n \<Longrightarrow> n \<le> u64_max"
    by (auto simp: u64_max_def)
  have "read_test_history_records (\<lambda>_. 77) None ''bin'' = []"
    by (simp add: read_test_history_records_def)
  with recording_only_raises [OF written bounds] show ?thesis
    by (simp add: MAX_TEST_HISTORY_ENTRIES_def find_record_def raise_measurement_def no_measurement_def
        positive_def)
qed

text \<open>
  C14. The shortcut is exact: when planning looked a test up in the file as it still is and the
  finished test raises neither value, skipping the lock and the read leaves exactly what the full
  update would leave, nothing written.
\<close>

theorem skipping_equals_recording:
  assumes "tag binary \<le> u64_max" and "records_ok rs"
    and "known = Some (unwrap_or (fst (lookup_test_history hash tag file binary test)) no_measurement)"
    and "file = Some (encode_test_history tag binary rs)"
  shows "record_test_measurement hash tag known file binary test peak cores =
    record_test_history hash tag file binary test peak cores"
proof -
  let ?m = "unwrap_or (find_record rs (hash test)) no_measurement"
  have known: "known = Some ?m"
    using assms(3,4) lookup_encoded [of tag binary rs hash test, OF assms(1,2)] by simp
  have "max_opt k (positive v) = k" if "\<not> raises v k" for v k
    using that by (cases v; cases k) (auto simp: raises_def positive_def)
  then have "raise_measurement ?m \<lparr>m_peak = positive peak, m_cores = positive cores\<rparr> = ?m"
    if "\<not> raises peak (m_peak ?m)" "\<not> raises cores (m_cores ?m)"
    using that by (simp add: raise_measurement_def)
  then show ?thesis
    using read_encode [of tag binary rs, OF assms(1,2)]
    by (auto simp: record_test_measurement_def known record_history_cases assms(4))
qed

theorem skipping_equals_recording_witness:
  "record_test_measurement (\<lambda>_. 3) (\<lambda>_. 77) (Some \<lparr>m_peak = Some 700, m_cores = Some 2\<rparr>)
     (Some (encode_test_history (\<lambda>_. 77) ''bin'' two_records)) ''bin'' ''t'' (Some 650) None = None \<and>
   record_test_history (\<lambda>_. 3) (\<lambda>_. 77) (Some (encode_test_history (\<lambda>_. 77) ''bin'' two_records))
     ''bin'' ''t'' (Some 650) None = None"
proof -
  let ?file = "Some (encode_test_history (\<lambda>_. 77) ''bin'' two_records)"
  have tag: "(\<lambda>_. 77) ''bin'' \<le> u64_max" by (simp add: u64_max_def)
  have known: "Some \<lparr>m_peak = Some 700, m_cores = Some 2\<rparr> = Some (unwrap_or (fst
      (lookup_test_history (\<lambda>_. 3) (\<lambda>_. 77) ?file ''bin'' ''t'')) no_measurement)"
    using lookup_encoded [of "\<lambda>_. 77" "''bin''" two_records "\<lambda>_. 3" "''t''", OF tag two_records_ok]
    by (simp add: two_records_def find_record_def)
  have skipped: "record_test_measurement (\<lambda>_. 3) (\<lambda>_. 77) (Some \<lparr>m_peak = Some 700, m_cores = Some 2\<rparr>)
      ?file ''bin'' ''t'' (Some 650) None = None"
    by (simp add: record_test_measurement_def raises_def)
  with skipping_equals_recording [OF tag two_records_ok known refl, of "Some 650" None] show ?thesis
    by simp
qed

end
