(* ===== verification/Demand_Plan.thy ===== *)
theory Demand_Plan
  imports Memory_Statistics Pool Test_History
begin

text \<open>
  What one compilation or test asks the pool for (\<open>scheduler.rs\<close>): the flags that name a
  compile mode, the \<open>Demand\<close> constructors, the plan an admission is made with, the cached ledger
  it is read from, what a finished run records, and the environment through which a session hands
  its pool to the compiler shims.
\<close>

section \<open>Compiler flags\<close>

text \<open>An argument that is not UTF-8 is \<open>None\<close>; both profiles skip it.\<close>

definition utf8_args :: "string option list \<Rightarrow> string list" where
  "utf8_args args = List.map_filter id args"

fun split_once :: "'a \<Rightarrow> 'a list \<Rightarrow> ('a list \<times> 'a list) option" where
  "split_once c [] = None"
| "split_once c (x # xs) =
     (if x = c then Some ([], xs) else map_option (\<lambda>(k, v). (x # k, v)) (split_once c xs))"

record link_flags =
  opt_level :: "string option"
  lto :: "string option"
  codegen_units :: "string option"
  debuginfo :: "string option"

definition no_flags :: link_flags where
  "no_flags = \<lparr>opt_level = None, lto = None, codegen_units = None, debuginfo = None\<rparr>"

definition lto_name :: "string \<Rightarrow> string" where
  "lto_name v =
     (if v \<in> {'''', ''yes'', ''y'', ''on'', ''true'', ''fat''} then ''fat''
      else if v \<in> {''no'', ''n'', ''off'', ''false''} then ''off'' else v)"

definition apply_setting :: "string \<Rightarrow> link_flags \<Rightarrow> link_flags" where
  "apply_setting s f =
     (let (key, v) = unwrap_or (split_once CHR ''='' s) (s, '''')
      in if key = ''opt-level'' then f\<lparr>opt_level := Some v\<rparr>
         else if key = ''lto'' then f\<lparr>lto := Some (lto_name v)\<rparr>
         else if key = ''codegen-units'' then f\<lparr>codegen_units := Some v\<rparr>
         else if key = ''debuginfo'' then f\<lparr>debuginfo := Some v\<rparr>
         else f)"

fun scan_link_flags :: "link_flags \<Rightarrow> string list \<Rightarrow> link_flags" where
  "scan_link_flags f [] = f"
| "scan_link_flags f (a # as) =
     (if a = ''-C'' \<or> a = ''--codegen''
      then (case as of [] \<Rightarrow> f | s # rest \<Rightarrow> scan_link_flags (apply_setting s f) rest)
      else if a = ''-O'' then scan_link_flags (f\<lparr>opt_level := Some ''3''\<rparr>) as
      else if a = ''-g'' then scan_link_flags (f\<lparr>debuginfo := Some ''2''\<rparr>) as
      else (case (case strip_prefix ''--codegen='' a of
                    Some s \<Rightarrow> Some s | None \<Rightarrow> strip_prefix ''-C'' a) of
          Some s \<Rightarrow> scan_link_flags (apply_setting s f) as
        | None \<Rightarrow> scan_link_flags f as))"

definition link_profile :: "string option list \<Rightarrow> string" where
  "link_profile args =
     (let f = scan_link_flags no_flags (utf8_args args)
      in ''opt'' @ unwrap_or (opt_level f) ''0'' @ '' lto-'' @ unwrap_or (lto f) ''default'' @
         '' cgu'' @ unwrap_or (codegen_units f) ''-'' @ '' debug'' @ unwrap_or (debuginfo f) ''0'')"

text \<open>
  The debug form of a string: quotes, backslashes and control characters are escaped. Bytes above
  127 stand for printable characters.
\<close>

definition hex_digit :: "nat \<Rightarrow> char" where
  "hex_digit d = (if d < 10 then char_of_digit d else char_of (87 + d))"

definition quote :: char where "quote = CHR 0x22"
definition backslash :: char where "backslash = CHR 0x5C"

definition debug_char :: "char \<Rightarrow> string" where
  "debug_char c =
     (let n = of_char c :: nat
      in if c = quote \<or> c = backslash then [backslash, c]
         else if c = newline then [backslash, CHR ''n'']
         else if c = tab then [backslash, CHR ''t'']
         else if c = carriage_return then [backslash, CHR ''r'']
         else if n = 0 then [backslash, CHR ''0'']
         else if n < 32 \<or> n = 127
           then backslash # ''u{'' @ (if n < 16 then [hex_digit n] else [hex_digit (n div 16), hex_digit (n mod 16)]) @ ''}''
         else [c])"

definition debug_str :: "string \<Rightarrow> string" where
  "debug_str s = quote # concat (map debug_char s) @ [quote]"

fun join_str :: "string \<Rightarrow> string list \<Rightarrow> string" where
  "join_str sep [] = ''''"
| "join_str sep [w] = w"
| "join_str sep (w # v # ws) = w @ sep @ join_str sep (v # ws)"

definition debug_strs :: "string list \<Rightarrow> string" where
  "debug_strs xs = ''['' @ join_str '', '' (map debug_str xs) @ '']''"

record compile_flags =
  emits :: "string list"
  saw_emit :: bool
  crate_types :: "string list"
  targets :: "string list"
  cf_test :: bool
  incremental :: bool
  cf_threads :: "string option"

definition no_compile_flags :: compile_flags where
  "no_compile_flags = \<lparr>emits = [], saw_emit = False, crate_types = [], targets = [],
     cf_test = False, incremental = False, cf_threads = None\<rparr>"

definition next_arg :: "string list \<Rightarrow> string option \<times> string list" where
  "next_arg as = (case as of [] \<Rightarrow> (None, []) | a # rest \<Rightarrow> (Some a, rest))"

text \<open>The value of a flag given as \<open>--flag value\<close> or \<open>--flag=value\<close>.\<close>

definition flag_value :: "string \<Rightarrow> string \<Rightarrow> string list \<Rightarrow> string option \<times> string list" where
  "flag_value flag a as = (if a = flag then next_arg as else (strip_prefix (flag @ ''='') a, as))"

definition codegen_value :: "string \<Rightarrow> string list \<Rightarrow> string option \<times> string list" where
  "codegen_value a as =
     (if a = ''-C'' \<or> a = ''--codegen'' then next_arg as
      else (case strip_prefix ''-C'' a of
          Some s \<Rightarrow> Some s | None \<Rightarrow> strip_prefix ''--codegen='' a, as))"

definition unstable_value :: "string \<Rightarrow> string list \<Rightarrow> string option \<times> string list" where
  "unstable_value a as = (if a = ''-Z'' then next_arg as else (strip_prefix ''-Z'' a, as))"

definition emit_kinds :: "string \<Rightarrow> string list" where
  "emit_kinds v = filter (\<lambda>k. k \<noteq> ''dep-info'') (map (\<lambda>k. hd (split_on CHR ''='' k)) (split_on CHR '','' v))"

definition note_incremental :: "string option \<Rightarrow> compile_flags \<Rightarrow> compile_flags" where
  "note_incremental setting f =
     (case Option.bind setting (strip_prefix ''incremental='') of
        Some v \<Rightarrow> f\<lparr>incremental := (v \<noteq> '''')\<rparr> | None \<Rightarrow> f)"

definition note_threads :: "string option \<Rightarrow> compile_flags \<Rightarrow> compile_flags" where
  "note_threads setting f =
     (case Option.bind setting (strip_prefix ''threads='') of
        Some v \<Rightarrow> f\<lparr>cf_threads := Some v\<rparr> | None \<Rightarrow> f)"

text \<open>One argument with what follows it; the result is the arguments left.\<close>

definition compile_flag :: "string \<Rightarrow> string list \<Rightarrow> compile_flags \<Rightarrow> compile_flags \<times> string list" where
  "compile_flag a as f =
     (if a = ''--test'' then (f\<lparr>cf_test := True\<rparr>, as)
      else (case flag_value ''--emit'' a as of
          (Some v, rest) \<Rightarrow> (f\<lparr>saw_emit := True, emits := emits f @ emit_kinds v\<rparr>, rest)
        | (None, rest) \<Rightarrow>
      (case flag_value ''--crate-type'' a rest of
          (Some v, rest) \<Rightarrow> (f\<lparr>crate_types := crate_types f @ split_on CHR '','' v\<rparr>, rest)
        | (None, rest) \<Rightarrow>
      (case flag_value ''--target'' a rest of
          (Some v, rest) \<Rightarrow> (f\<lparr>targets := targets f @ [v]\<rparr>, rest)
        | (None, rest) \<Rightarrow>
            (let (setting, rest) = codegen_value a rest;
                 (unstable, rest) = unstable_value a rest
             in (note_threads unstable (note_incremental setting f), rest))))))"

lemma rest_lengths:
  "length (snd (next_arg as)) \<le> length as" "length (snd (flag_value flag a as)) \<le> length as"
  "length (snd (codegen_value a as)) \<le> length as" "length (snd (unstable_value a as)) \<le> length as"
  by (auto simp: next_arg_def flag_value_def codegen_value_def unstable_value_def split: list.split)

lemma compile_flag_length: "length (snd (compile_flag a as f)) \<le> length as"
  using rest_lengths(2) [of "''--emit''" a as] rest_lengths(2) [of "''--crate-type''" a]
    rest_lengths(2) [of "''--target''" a] rest_lengths(3) [of a] rest_lengths(4) [of a]
  unfolding compile_flag_def Let_def case_prod_beta
  by (auto split: option.split) (meson le_trans)+

function scan_compile_flags :: "compile_flags \<Rightarrow> string list \<Rightarrow> compile_flags" where
  "scan_compile_flags f [] = f"
| "scan_compile_flags f (a # as) =
     scan_compile_flags (fst (compile_flag a as f)) (snd (compile_flag a as f))"
  by pat_completeness auto

termination scan_compile_flags
  by (relation "measure (\<lambda>(_, as). length as)") (auto simp: compile_flag_length less_Suc_eq_le case_prod_beta)

definition compile_profile :: "string option list \<Rightarrow> string" where
  "compile_profile args =
     (let f = scan_compile_flags no_compile_flags (utf8_args args);
          kinds = (if saw_emit f then emits f else [''link''])
      in ''emit='' @ join_str '','' (sort (remdups kinds)) @
         '' crate-type='' @ join_str '','' (sort (remdups (crate_types f))) @
         (case targets f of
            [] \<Rightarrow> ''''
          | [t] \<Rightarrow> '' target='' @ debug_str t
          | ts \<Rightarrow> '' targets='' @ debug_strs ts) @
         (if cf_test f then '' test'' else '''') @ '' '' @ link_profile args @
         '' incremental-'' @ (if incremental f then ''on'' else ''off'') @
         (case cf_threads f of Some n \<Rightarrow> '' threads='' @ n | None \<Rightarrow> ''''))"

section \<open>Demands\<close>

text \<open>
  \<open>per_test\<close> is the binary and the test of a nextest run; \<open>known_test\<close> and the two feature
  fields are the cells planning fills in.
\<close>

record demand =
  d_name :: string
  d_links :: bool
  d_threads :: "u64 option"
  learns_cpu :: bool
  d_profile :: "string option"
  per_test :: "(string \<times> string) option"
  known_test :: "measurement option"
  compile_mode :: "string option"
  count_compile_samples :: bool
  memory_features :: "real features option"
  sibling_features :: "real features option"

definition new_demand :: "string \<Rightarrow> bool \<Rightarrow> demand" where
  "new_demand n l =
     \<lparr>d_name = n, d_links = l, d_threads = Some 1, learns_cpu = False, d_profile = None,
      per_test = None, known_test = None, compile_mode = None, count_compile_samples = True,
      memory_features = None, sibling_features = None\<rparr>"

definition with_link_profile :: "demand \<Rightarrow> string option list \<Rightarrow> demand" where
  "with_link_profile d args =
     (if d_links d
      then (let pr = link_profile args
            in d\<lparr>d_name := d_name d @ '' ['' @ pr @ '']'', d_profile := Some pr\<rparr>)
      else d\<lparr>compile_mode := Some (d_name d @ '' [compile '' @ compile_profile args @ '']'')\<rparr>)"

definition with_compiler_execution ::
  "demand \<Rightarrow> string option list \<Rightarrow> string option option \<Rightarrow> bool \<Rightarrow> bool \<Rightarrow> demand" where
  "with_compiler_execution d args appended_flag wrapped clippy =
     (let effective = args @ (case appended_flag of Some a \<Rightarrow> [a] | None \<Rightarrow> []);
          d = with_link_profile (d\<lparr>count_compile_samples := \<not> wrapped\<rparr>) effective
      in if clippy \<and> compile_mode d \<noteq> None
         then d\<lparr>compile_mode := Some (d_name d @ '' [compile clippy '' @ compile_profile effective @ '']'')\<rparr>
         else d)"

definition test_demand :: "string \<Rightarrow> u64 option \<Rightarrow> demand" where
  "test_demand n threads =
     (new_demand (case threads of
         Some t \<Rightarrow> n @ '' [test, '' @ show_nat t @ '' threads]''
       | None \<Rightarrow> n @ '' [test]'') False)\<lparr>d_threads := threads, learns_cpu := True\<rparr>"

definition nextest_demand :: "string \<Rightarrow> string \<Rightarrow> demand" where
  "nextest_demand binary test =
     (new_demand (binary @ '' '' @ test @ '' [nextest]'') False)
       \<lparr>learns_cpu := True, per_test := Some (binary, test)\<rparr>"

section \<open>The plan of an admission\<close>

definition UNMEASURED_TEST_WEIGHT :: u64 where "UNMEASURED_TEST_WEIGHT = 2"

record plan =
  plan_resources :: resources
  plan_weight :: u64
  plan_predicted :: "u64 option"
  plan_source :: string

text \<open>\<open>Ord::clamp\<close>, which requires \<open>lo \<le> hi\<close>.\<close>

definition clamp :: "u64 \<Rightarrow> u64 \<Rightarrow> u64 \<Rightarrow> u64" where
  "clamp x lo hi = max lo (min x hi)"

text \<open>A nextest test: its own history, or the highest of its binary's tests.\<close>

definition test_plan :: "pool \<Rightarrow> measurement option \<Rightarrow> history_header \<Rightarrow> plan" where
  "test_plan p found header =
     (let m = (case found of
            Some m \<Rightarrow> Some m
          | None \<Rightarrow> if h_count header > 0 then Some (h_maximum header) else None);
          cores = max (unwrap_or (Option.bind m m_cores) 1) 1;
          bpp = bytes_per_permit p
      in if bpp = 0
         then \<lparr>plan_resources = \<lparr>cpu = cores, memory_bytes = 0\<rparr>,
               plan_weight = min cores (pool_capacity p), plan_predicted = None,
               plan_source = ''unmeasured''\<rparr>
         else
           (let known_peak = Option.bind m m_peak;
                predicted = unwrap_or known_peak (saturating_mul UNMEASURED_TEST_WEIGHT bpp);
                weight = clamp (max (div_ceil predicted bpp) cores) 1 (pool_capacity p)
            in \<lparr>plan_resources = \<lparr>cpu = cores,
                  memory_bytes = (if known_peak \<noteq> None then predicted
                                  else max predicted (saturating_mul weight bpp))\<rparr>,
                plan_weight = weight, plan_predicted = Some predicted,
                plan_source = (if known_peak \<noteq> None then ''test-history'' else ''unmeasured'')\<rparr>))"

definition plan_threads :: "pool \<Rightarrow> demand \<Rightarrow> real ledger \<Rightarrow> u64" where
  "plan_threads p d l =
     max (case if learns_cpu d then bt_get (ledger_cpus l) (d_name d) else None of
            Some cores \<Rightarrow> cores
          | None \<Rightarrow> unwrap_or (d_threads d) (div_ceil (pool_capacity p) 2)) 1"

text \<open>The predicted memory with its source, and the demand with the features it was read with.\<close>

definition memory_prediction ::
  "pool \<Rightarrow> demand \<Rightarrow> real ledger \<Rightarrow> (u64 option \<times> string) \<times> demand" where
  "memory_prediction p d l =
     (let bpp = bytes_per_permit p; key = ledger_key (d_name d) (d_links d)
      in case compile_mode d of
           Some mode \<Rightarrow>
             (let prediction = compile_prediction window_bound sibling_bound_of l (d_name d) mode bpp
              in (prediction,
                  d\<lparr>memory_features := Some (unwrap_or (window_features l mode ''compile'') COLD),
                    sibling_features :=
                      (if snd prediction = ''sibling''
                       then (let maxima = map fst (sibling_modes window_bound l (d_name d) bpp)
                             in if maxima = [] then None else Some (sibling_features_of l maxima))
                       else None)\<rparr>))
         | None \<Rightarrow>
             if learns_cpu d
             then (let peak = bt_get (crates l) key
                   in ((peak, if peak \<noteq> None then ''test-history'' else ''unmeasured''), d))
             else if d_links d
             then (link_prediction window_bound l key (d_profile d) (saturating_mul LINK_WEIGHT bpp),
                   d\<lparr>memory_features := Some (unwrap_or (window_features l key ''link'') COLD)\<rparr>)
             else ((bt_get (crates l) key, ''legacy''), d))"

definition ledger_plan :: "pool \<Rightarrow> demand \<Rightarrow> real ledger \<Rightarrow> plan \<times> demand" where
  "ledger_plan p d l =
     (let threads = plan_threads p d l;
          lowest = (if d_links d then LINK_WEIGHT else 1);
          bpp = bytes_per_permit p
      in if bpp = 0
         then (\<lparr>plan_resources = \<lparr>cpu = max lowest threads, memory_bytes = 0\<rparr>,
                plan_weight = min (max lowest threads) (pool_capacity p), plan_predicted = None,
                plan_source = ''unmeasured''\<rparr>, d)
         else
           (let ((predicted, source), d) = memory_prediction p d l;
                weight = clamp (max (case predicted of Some b \<Rightarrow> div_ceil b bpp | None \<Rightarrow> 1) threads)
                           1 (pool_capacity p);
                memory =
                  (if predicted = None \<or> source \<in> {''unmeasured'', ''default'', ''link-floor''}
                   then max (unwrap_or predicted 0) (saturating_mul weight bpp)
                   else unwrap_or predicted 0)
            in (\<lparr>plan_resources = \<lparr>cpu = threads, memory_bytes = memory\<rparr>, plan_weight = weight,
                 plan_predicted = predicted, plan_source = source\<rparr>, d)))"

text \<open>\<open>history\<close> gives the bytes of a test binary's history file.\<close>

definition demand_vector_with_ledger ::
  "(string \<Rightarrow> u64) \<Rightarrow> (string \<Rightarrow> u64) \<Rightarrow> (string \<Rightarrow> byte list option) \<Rightarrow> pool \<Rightarrow> demand \<Rightarrow>
   real ledger \<Rightarrow> plan \<times> demand" where
  "demand_vector_with_ledger hash tag history p d l =
     (case per_test d of
        Some (binary, test) \<Rightarrow>
          (let (found, header) = lookup_test_history hash tag (history binary) binary test
           in (test_plan p found header, d\<lparr>known_test := Some (unwrap_or found no_measurement)\<rparr>))
      | None \<Rightarrow> ledger_plan p d l)"

section \<open>The cached ledger\<close>

definition LEDGER_CACHE_MAX_AGE :: nat where "LEDGER_CACHE_MAX_AGE = 1000"

record ledger_stamp =
  modified :: nat
  stamp_len :: nat
  device :: nat
  inode :: nat

record ledger_cache =
  cache_stamp :: "ledger_stamp option"
  loaded_at :: "nat option"
  cached_ledger :: "real ledger"
  cached_plan :: "plan option"

definition empty_cache :: ledger_cache where
  "empty_cache = \<lparr>cache_stamp = None, loaded_at = None, cached_ledger = empty_ledger, cached_plan = None\<rparr>"

text \<open>
  One look at the ledger file: when it is asked for, when a load is over, the file's stamp and its
  contents. Times are milliseconds of a monotonic clock.
\<close>

record look =
  asked_at :: nat
  loaded_by :: nat
  look_stamp :: "ledger_stamp option"
  look_stored :: "real ledger option"

definition cache_read :: "look \<Rightarrow> ledger_cache \<Rightarrow> ledger_cache" where
  "cache_read lk c =
     (if look_stamp lk \<noteq> cache_stamp c \<or>
         (case loaded_at c of None \<Rightarrow> True | Some t \<Rightarrow> asked_at lk - t \<ge> LEDGER_CACHE_MAX_AGE)
      then \<lparr>cache_stamp = look_stamp lk, loaded_at = Some (loaded_by lk),
            cached_ledger = read_ledger (\<lambda>_. True) (look_stored lk), cached_plan = None\<rparr>
      else c)"

definition cache_prediction ::
  "(real ledger \<Rightarrow> plan \<times> demand) \<Rightarrow> look \<Rightarrow> demand \<Rightarrow> ledger_cache \<Rightarrow> plan \<times> demand \<times> ledger_cache" where
  "cache_prediction predict lk d c =
     (let c = cache_read lk c
      in case cached_plan c of
           Some pl \<Rightarrow> (pl, d, c)
         | None \<Rightarrow> (let (pl, d) = predict (cached_ledger c) in (pl, d, c\<lparr>cached_plan := Some pl\<rparr>)))"

definition admission_plan ::
  "(string \<Rightarrow> u64) \<Rightarrow> (string \<Rightarrow> u64) \<Rightarrow> (string \<Rightarrow> byte list option) \<Rightarrow> pool \<Rightarrow> look \<Rightarrow>
   demand \<Rightarrow> ledger_cache option \<Rightarrow> plan \<times> demand \<times> ledger_cache option" where
  "admission_plan hash tag history p lk d cache =
     (if per_test d \<noteq> None \<or> bytes_per_permit p = 0 \<and> \<not> learns_cpu d
      then (let (pl, d) = demand_vector_with_ledger hash tag history p d empty_ledger in (pl, d, cache))
      else (let (pl, d, c) = cache_prediction (demand_vector_with_ledger hash tag history p d) lk d
                  (unwrap_or cache empty_cache)
            in (pl, d, Some c)))"

section \<open>Recording a finished run\<close>

text \<open>
  \<open>before\<close> is the stored ledger read ahead of the lock and \<open>now_stored\<close> the one under it. The
  result is the ledger written, if any.
\<close>

definition note_compilation ::
  "pool \<Rightarrow> demand \<Rightarrow> u64 option \<Rightarrow> bool \<Rightarrow> bool \<Rightarrow> real ledger option \<Rightarrow> real ledger option \<Rightarrow>
   real ledger option" where
  "note_compilation p d measured oom success before now_stored =
     (let bpp = bytes_per_permit p
      in if bpp = 0 then None
         else (case measured of
             None \<Rightarrow> None
           | Some m \<Rightarrow>
               if compile_mode d \<noteq> None
               then record_compile (\<lambda>_. True) log_score window_features bpp (d_name d) (compile_mode d)
                      (count_compile_samples d) (memory_features d) (sibling_features d) m oom success
                      (read_ledger (\<lambda>_. True) before) (read_ledger (\<lambda>_. True) now_stored)
               else
                 (let peak = ledger_peak m oom (d_links d) success bpp;
                      eligible = (d_links d \<and> \<not> learns_cpu d \<and> success \<and> count_compile_samples d);
                      sample_peak = (if d_links d \<and> \<not> learns_cpu d \<and> oom then peak
                                     else if eligible \<and> m > 0 then Some m else None)
                  in if peak = None \<and> sample_peak = None then None
                     else record_link_measurement (\<lambda>_. True) log_score window_features
                            (ledger_key (d_name d) (d_links d)) peak (d_links d) (d_profile d)
                            (map_option (\<lambda>s. (s, memory_features d, eligible \<and> \<not> oom)) sample_peak)
                            (read_ledger (\<lambda>_. True) now_stored))))"

text \<open>Cores kept busy, to the nearest whole core; times in nanoseconds.\<close>

definition average_cores :: "nat \<Rightarrow> nat \<Rightarrow> u64" where
  "average_cores cpu_time wall =
     (if wall = 0 then 1 else min (max ((2 * cpu_time + wall) div (2 * wall)) 1) u64_max)"

text \<open>The stored ledger and the bytes of the binary's history after a test run.\<close>

definition record_test_run ::
  "(string \<Rightarrow> u64) \<Rightarrow> (string \<Rightarrow> u64) \<Rightarrow> pool \<Rightarrow> demand \<Rightarrow> u64 option \<Rightarrow> bool \<Rightarrow> bool \<Rightarrow> u64 option \<Rightarrow>
   real ledger option \<Rightarrow> byte list option \<Rightarrow> real ledger option \<times> byte list option" where
  "record_test_run hash tag p d measured oom success cores l history =
     (case per_test d of
        None \<Rightarrow>
          (let l = (case note_compilation p d measured oom success l l of Some l' \<Rightarrow> Some l' | None \<Rightarrow> l)
           in (case cores of
                 None \<Rightarrow> l
               | Some n \<Rightarrow> (case record_cpu (d_name d) n (read_ledger (\<lambda>_. True) l) of
                     Some l' \<Rightarrow> Some l' | None \<Rightarrow> l),
               history))
      | Some (binary, test) \<Rightarrow>
          (let peak = Option.bind measured (\<lambda>m. ledger_peak m oom True success (bytes_per_permit p))
           in (l, case record_test_measurement hash tag (known_test d) history binary test peak cores of
                    Some h \<Rightarrow> Some h | None \<Rightarrow> history)))"

section \<open>The session's environment\<close>

record session_config =
  scheduler :: scheduler_config
  suspend :: bool
  cgroup_root :: "string option"
  scheduler_dir :: string

definition show_bool :: "bool \<Rightarrow> string" where
  "show_bool b = show_nat (if b then 1 else 0)"

text \<open>
  \<open>disabled\<close> says that \<open>MBX_SCHED_DISABLE\<close> is set and \<open>build_id\<close> is the random name of
  the build.
\<close>

definition session_environment_with_jobs ::
  "bool \<Rightarrow> string \<Rightarrow> session_config \<Rightarrow> u64 option \<Rightarrow> (string \<times> string) list" where
  "session_environment_with_jobs disabled build_id config cargo_jobs =
     (let s = scheduler config
      in if \<not> enabled s \<or> disabled then [(''MBX_SCHED_DIR'', '''')]
         else
           (let n = permits s;
                build_permits = (case cargo_jobs of None \<Rightarrow> n | Some jobs \<Rightarrow> min n (max jobs 1))
            in [(''MBX_SCHED_DIR'', scheduler_dir config),
                (''MBX_SCHED_EVENTS'', show_bool (cfg_events s)),
                (''MBX_SCHED_SLOTS'', show_nat n),
                (''MBX_SCHED_CPUS'', show_nat (cfg_cpus s)),
                (''MBX_SCHED_MEMORY_BYTES'', show_nat (unwrap_or (cfg_memory_bytes s) 0)),
                (''MBX_SCHED_PRESSURE'', show_bool (cfg_pressure s)),
                (''MBX_SCHED_SLOT_BYTES'', show_nat (bytes_per_permit_of (cfg_memory_bytes s) n)),
                (''MBX_SCHED_PRIORITY'', as_str (cfg_priority s)),
                (''MBX_SCHED_SUSPEND'',
                  show_bool (suspend config \<and> cfg_pressure s \<and> cfg_memory_bytes s \<noteq> None)),
                (''MBX_SCHED_CGROUP_ROOT'', unwrap_or (cgroup_root config) ''''),
                (''MBX_SCHED_BUILD_ID'', build_id),
                (''MBX_SCHED_BUILD_SLOTS'', show_nat build_permits)]))"

definition parse_priority :: "string \<Rightarrow> scheduler_priority option" where
  "parse_priority s = (if s = ''normal'' then Some Normal else if s = ''low'' then Some Low else None)"

definition env_number :: "(string \<rightharpoonup> string) \<Rightarrow> string \<Rightarrow> u64 option" where
  "env_number env name = Option.bind (env name) parse_u64"

definition env_build :: "(string \<rightharpoonup> string) \<Rightarrow> u64 \<Rightarrow> (string \<times> u64) option" where
  "env_build env capacity =
     (case env ''MBX_SCHED_BUILD_ID'' of
        Some b \<Rightarrow>
          if b = '''' then None
          else Some (b, clamp (unwrap_or (env_number env ''MBX_SCHED_BUILD_SLOTS'') capacity) 1 (max capacity 1))
      | None \<Rightarrow> None)"

text \<open>
  \<open>config\<close> is what loading the configuration gives without a session. The directory the pool
  lives in comes with it.
\<close>

definition resolve_pool ::
  "u64 \<Rightarrow> u64 option \<Rightarrow> string \<Rightarrow> session_config option \<Rightarrow> (string \<rightharpoonup> string) \<Rightarrow> (string \<times> pool) option" where
  "resolve_pool local_cpus local_memory domain config env =
     (case env ''MBX_SCHED_DIR'' of
        Some dir \<Rightarrow>
          if dir = '''' then None
          else
            (let capacity = unwrap_or (env_number env ''MBX_SCHED_SLOTS'') local_cpus;
                 p = new_pool local_cpus local_memory domain capacity
                       (unwrap_or (env_number env ''MBX_SCHED_SLOT_BYTES'') 0)
                       (unwrap_or (Option.bind (env ''MBX_SCHED_PRIORITY'') parse_priority) Normal);
                 p = p\<lparr>pool_domain_capacity :=
                         max (min (unwrap_or (env_number env ''MBX_SCHED_CPUS'') capacity) local_cpus) 1,
                       events := (env_number env ''MBX_SCHED_EVENTS'' \<noteq> Some 0)\<rparr>;
                 p = set_memory_capacity local_memory
                       (unwrap_or (env_number env ''MBX_SCHED_MEMORY_BYTES'')
                         (saturating_mul capacity (bytes_per_permit p))) p
             in Some (dir, p\<lparr>pressure := (env_number env ''MBX_SCHED_PRESSURE'' = Some 1),
                             pool_build := env_build env capacity\<rparr>))
      | None \<Rightarrow>
          Option.bind config (\<lambda>c. map_option (\<lambda>p. (scheduler_dir c, p))
            (from_config local_cpus local_memory domain (scheduler c))))"

section \<open>Lemmas\<close>

lemma clamp_cases: "1 \<le> hi \<Longrightarrow> clamp x 1 hi = hi \<or> x \<le> clamp x 1 hi"
  "1 \<le> hi \<Longrightarrow> 1 \<le> clamp x 1 hi" "1 \<le> hi \<Longrightarrow> clamp x 1 hi \<le> hi"
  by (auto simp: clamp_def)

text \<open>What an old reader needs of a plan: the scalar weight covers both axes unless it is clamped.\<close>

definition conservative :: "pool \<Rightarrow> plan \<Rightarrow> bool" where
  "conservative p pl \<longleftrightarrow>
     1 \<le> cpu (plan_resources pl) \<and> 1 \<le> plan_weight pl \<and> plan_weight pl \<le> pool_capacity p \<and>
     (plan_weight pl = pool_capacity p \<or>
      cpu (plan_resources pl) \<le> plan_weight pl \<and>
      memory_bytes (plan_resources pl) \<le> plan_weight pl * bytes_per_permit p)"

text \<open>What the plan charges for memory: at least the prediction, and full permits without one.\<close>

definition charges_prediction :: "pool \<Rightarrow> plan \<Rightarrow> bool" where
  "charges_prediction p pl \<longleftrightarrow>
     (case plan_predicted pl of
        Some b \<Rightarrow> b \<le> memory_bytes (plan_resources pl)
      | None \<Rightarrow> memory_bytes (plan_resources pl) = saturating_mul (plan_weight pl) (bytes_per_permit p))"

lemma saturating_mul_le_mult: "saturating_mul a b \<le> a * b"
  by (simp add: saturating_mul_def)

text \<open>The weight of a plan with a memory share: permits for the predicted bytes and the cores.\<close>

lemma weighted_plan_ok:
  assumes "1 \<le> pool_capacity p" "0 < bytes_per_permit p" "1 \<le> c"
    and "w = clamp (max (case predicted of Some b \<Rightarrow> div_ceil b (bytes_per_permit p) | None \<Rightarrow> 1) c)
           1 (pool_capacity p)"
    and "m = (if full then max (unwrap_or predicted 0) (saturating_mul w (bytes_per_permit p))
              else unwrap_or predicted 0)"
    and "predicted = None \<Longrightarrow> full"
  shows "conservative p \<lparr>plan_resources = \<lparr>cpu = c, memory_bytes = m\<rparr>, plan_weight = w,
           plan_predicted = predicted, plan_source = s\<rparr> \<and>
         charges_prediction p \<lparr>plan_resources = \<lparr>cpu = c, memory_bytes = m\<rparr>, plan_weight = w,
           plan_predicted = predicted, plan_source = s\<rparr>"
proof -
  have w: "1 \<le> w" "w \<le> pool_capacity p"
    unfolding assms(4) by (intro clamp_cases assms(1))+
  have "w = pool_capacity p \<or> c \<le> w \<and> unwrap_or predicted 0 \<le> w * bytes_per_permit p"
  proof (cases "w = pool_capacity p")
    case False
    then have "max (case predicted of Some b \<Rightarrow> div_ceil b (bytes_per_permit p) | None \<Rightarrow> 1) c \<le> w"
      using clamp_cases(1) [OF assms(1)] unfolding assms(4) by blast
    then show ?thesis
      using div_ceil_le_iff [OF assms(2)] by (auto split: option.splits)
  qed simp
  moreover have "saturating_mul w (bytes_per_permit p) \<le> w * bytes_per_permit p"
    by (rule saturating_mul_le_mult)
  ultimately show ?thesis
    using w assms(3,5,6) unfolding conservative_def charges_prediction_def
    by (auto split: option.split)
qed

lemma test_plan_ok:
  assumes "1 \<le> pool_capacity p"
  shows "conservative p (test_plan p found header) \<and> charges_prediction p (test_plan p found header)"
proof (cases "bytes_per_permit p = 0")
  case True
  then show ?thesis
    using assms by (auto simp: test_plan_def Let_def conservative_def charges_prediction_def
        saturating_mul_def)
next
  case False
  define m where "m = (case found of Some m \<Rightarrow> Some m
    | None \<Rightarrow> if h_count header > 0 then Some (h_maximum header) else None)"
  let ?peak = "Option.bind m m_peak" and ?cores = "max (unwrap_or (Option.bind m m_cores) 1) 1"
  from False show ?thesis
    using weighted_plan_ok [OF assms _ _ refl refl, where
        predicted = "Some (unwrap_or ?peak (saturating_mul UNMEASURED_TEST_WEIGHT (bytes_per_permit p)))"
        and full = "?peak = None" and c = ?cores and s = "if ?peak \<noteq> None then ''test-history'' else ''unmeasured''"]
    unfolding test_plan_def Let_def m_def [symmetric] by (cases ?peak) simp_all
qed

lemma ledger_plan_ok:
  assumes "1 \<le> pool_capacity p"
  shows "conservative p (fst (ledger_plan p d l)) \<and> charges_prediction p (fst (ledger_plan p d l))"
proof (cases "bytes_per_permit p = 0")
  case True
  have "1 \<le> plan_threads p d l" by (simp add: plan_threads_def)
  with True show ?thesis
    using assms by (auto simp: ledger_plan_def Let_def conservative_def charges_prediction_def
        saturating_mul_def)
next
  case False
  obtain predicted source d' where mp: "memory_prediction p d l = ((predicted, source), d')"
    by (metis surj_pair)
  have threads: "1 \<le> plan_threads p d l" by (simp add: plan_threads_def)
  from False show ?thesis
    using weighted_plan_ok [OF assms _ threads refl refl, where predicted = predicted and s = source
        and full = "predicted = None \<or> source \<in> {''unmeasured'', ''default'', ''link-floor''}"]
    unfolding ledger_plan_def Let_def mp by simp
qed

text \<open>Planning changes only the cells of a demand, and they do not influence the plan.\<close>

definition same_request :: "demand \<Rightarrow> demand \<Rightarrow> bool" where
  "same_request d d' \<longleftrightarrow>
     d' = d\<lparr>known_test := known_test d', memory_features := memory_features d',
            sibling_features := sibling_features d'\<rparr>"

lemma same_request_refl [simp]: "same_request d d"
  by (simp add: same_request_def)

lemma same_request_fields:
  assumes "same_request d d'"
  shows "d_name d' = d_name d" "d_links d' = d_links d" "d_threads d' = d_threads d"
    "learns_cpu d' = learns_cpu d" "d_profile d' = d_profile d" "per_test d' = per_test d"
    "compile_mode d' = compile_mode d" "count_compile_samples d' = count_compile_samples d"
  by (subst assms [unfolded same_request_def], simp)+

definition plan_of ::
  "(string \<Rightarrow> u64) \<Rightarrow> (string \<Rightarrow> u64) \<Rightarrow> (string \<Rightarrow> byte list option) \<Rightarrow> pool \<Rightarrow> demand \<Rightarrow> real ledger \<Rightarrow> plan" where
  "plan_of hash tag history p d l = fst (demand_vector_with_ledger hash tag history p d l)"

lemma memory_prediction_same:
  assumes "same_request d d'"
  shows "fst (memory_prediction p d' l) = fst (memory_prediction p d l)"
    "same_request d (snd (memory_prediction p d l))"
proof -
  note f = same_request_fields [OF assms]
  show "fst (memory_prediction p d' l) = fst (memory_prediction p d l)"
    unfolding memory_prediction_def f Let_def by (simp split: option.split)
  show "same_request d (snd (memory_prediction p d l))"
    unfolding memory_prediction_def Let_def by (simp add: same_request_def split: option.split)
qed

lemma ledger_plan_same:
  assumes "same_request d d'"
  shows "fst (ledger_plan p d' l) = fst (ledger_plan p d l)" "same_request d (snd (ledger_plan p d l))"
proof -
  note f = same_request_fields [OF assms]
  obtain pr s e where mp: "memory_prediction p d l = ((pr, s), e)" by (metis surj_pair)
  obtain pr' s' e' where mp': "memory_prediction p d' l = ((pr', s'), e')" by (metis surj_pair)
  have eq: "pr' = pr" "s' = s" "same_request d e"
    using memory_prediction_same [OF assms, of p l] by (simp_all add: mp mp')
  have threads: "plan_threads p d' l = plan_threads p d l" unfolding plan_threads_def f ..
  show "fst (ledger_plan p d' l) = fst (ledger_plan p d l)"
    unfolding ledger_plan_def Let_def mp mp' eq threads f prod.case by simp
  show "same_request d (snd (ledger_plan p d l))"
    unfolding ledger_plan_def Let_def mp prod.case using eq(3) by simp
qed

lemma planning_same:
  assumes "same_request d d'"
  shows "plan_of hash tag history p d' l = plan_of hash tag history p d l"
    "same_request d (snd (demand_vector_with_ledger hash tag history p d l))"
proof -
  note f = same_request_fields [OF assms] and lp = ledger_plan_same [OF assms, of p l]
  show "plan_of hash tag history p d' l = plan_of hash tag history p d l"
    unfolding plan_of_def demand_vector_with_ledger_def f case_prod_beta Let_def
    using lp(1) by (simp split: option.split)
  show "same_request d (snd (demand_vector_with_ledger hash tag history p d l))"
    unfolding demand_vector_with_ledger_def case_prod_beta Let_def
    using lp(2) by (simp add: same_request_def split: option.split)
qed

lemma same_request_trans: "same_request d e \<Longrightarrow> same_request e f \<Longrightarrow> same_request d f"
  unfolding same_request_def
  by (cases d; cases e; cases f) simp

lemma prepared_cong:
  "memory_windows l' = memory_windows l \<Longrightarrow> memory_residuals l' = memory_residuals l \<Longrightarrow>
   sibling_residuals l' = sibling_residuals l \<Longrightarrow> prepared fs l' = prepared fs l"
  by (simp add: prepared_def)

lemma raise_sibling_residuals [simp]:
  "sibling_residuals (raise_bare name peak l) = sibling_residuals l"
  "sibling_residuals (raise_mode key mode_peak counted l) = sibling_residuals l"
  by (simp_all add: raise_bare_def raise_mode_def Let_def split: option.split)

lemma update_legacy_compile_stats:
  assumes "update_legacy_compile name key measured peak succeeded oom l = (changed, l')"
  shows "prepared fs l' = prepared fs l"
proof (rule prepared_cong)
  show "sibling_residuals l' = sibling_residuals l"
    using assms by (cases rule: update_legacy_compile_cases) simp_all
qed (use update_legacy_compile_fields [OF assms] in simp_all)

lemma update_legacy_link_stats:
  assumes "update_legacy_link name peak links profile l = (changed, l')"
  shows "prepared fs l' = prepared fs l"
proof (rule prepared_cong)
  show "sibling_residuals l' = sibling_residuals l"
    using assms by (auto simp: update_legacy_link_def Let_def split: if_splits option.splits)
qed (use update_legacy_link_fields [OF assms] in simp_all)

lemma trim_compile_stats: "prepared fs (trim_compile_ledger l) = prepared fs l"
  by (rule prepared_cong) (auto simp: trim_compile_ledger_def split: prod.split)

lemma version_stats: "prepared fs (l\<lparr>ledger_version := v\<rparr>) = prepared fs l"
  by (simp add: prepared_def)

lemma learn_compile_prepared:
  assumes "prepared fs l" "windowed_key key"
  shows "prepared fs (learn_compile fs score features_of key mf sf smp calibrate l)"
  using assms unfolding learn_compile_def Let_def
  by (auto intro!: memory_record_prepared record_sibling_prepared simp: KINDS_def split: option.split)

lemma record_compile_prepared:
  assumes "record_compile fs score features_of bpp name mode counts mf sf measured oom succeeded before l = Some l'"
    and "prepared fs l" "\<And>k. mode = Some k \<Longrightarrow> windowed_key k"
  shows "prepared fs l'"
proof -
  obtain key where key: "mode = Some key" using assms(1) by (auto simp: record_compile_def split: option.splits)
  obtain smp calibrate peak s changed l1 where
    "update_legacy_compile name key measured peak s oom
       (learn_compile fs score features_of key mf sf smp calibrate l) = (changed, l1)"
    "l' = trim_compile_ledger (l1\<lparr>ledger_version := LEDGER_VERSION\<rparr>)"
    using assms(1) by (auto simp: record_compile_def key Let_def split: if_splits prod.splits)
  with learn_compile_prepared [OF assms(2) assms(3) [OF key]] show ?thesis
    by (simp add: trim_compile_stats version_stats update_legacy_compile_stats)
qed

lemma record_link_prepared:
  assumes "record_link_measurement fs score features_of name peak links profile smp l = Some l'"
    and "prepared fs l" "links \<Longrightarrow> windowed_key name"
  shows "prepared fs l'"
proof -
  let ?learned = "learn_link fs score features_of name (if links then smp else None) l"
  have learned: "prepared fs ?learned"
    using assms(2,3) unfolding learn_link_def
    by (auto intro!: memory_record_prepared simp: KINDS_def split: option.split)
  obtain changed l1 where
    "(case peak of None \<Rightarrow> (False, ?learned) | Some pk \<Rightarrow> update_legacy_link name pk links profile ?learned) =
       (changed, l1)"
    "l' = trim_compile_ledger (l1\<lparr>ledger_version := LEDGER_VERSION\<rparr>)"
    using assms(1) unfolding record_link_measurement_def Let_def by (auto split: if_splits prod.splits)
  with learned show ?thesis
    by (auto simp: trim_compile_stats version_stats update_legacy_link_stats split: option.splits)
qed

lemma contains_middle: "contains p (xs @ p @ ys)"
  by (induction xs) (cases p; simp add: starts_with_def; cases ys; simp)+

text \<open>The demands the program makes: by a constructor, then planned any number of times.\<close>

inductive built :: "demand \<Rightarrow> bool" where
  compiler: "built (with_compiler_execution (new_demand n links) args appended wrapped clippy)"
| native: "built (new_demand n False)"
| test: "built (test_demand n threads)"
| nextest: "built (nextest_demand binary test)"
| planned: "built d \<Longrightarrow> built (snd (demand_vector_with_ledger hash tag history p d l))"

lemma mode_key_windowed:
  "windowed_key (n @ '' [compile '' @ x)" "windowed_key (n @ '' [compile clippy '' @ x)"
  using contains_middle [of "'' [compile ''" n x] contains_middle [of "'' [compile ''" n "''clippy '' @ x"]
  by (simp_all add: windowed_key_def)

lemmas mode_key_windowed_chars = mode_key_windowed [simplified]

lemma built_windowed: "built d \<Longrightarrow> compile_mode d = Some k \<Longrightarrow> windowed_key k"
proof (induction rule: built.induct)
  case (planned d hash tag history p l)
  then show ?case
    using same_request_fields(7) [OF planning_same(2) [OF same_request_refl]] by metis
qed (auto simp: with_compiler_execution_def with_link_profile_def new_demand_def test_demand_def
    nextest_demand_def Let_def mode_key_windowed_chars split: if_splits option.splits)

lemma note_compilation_prepared:
  assumes "note_compilation p d measured oom success before now_stored = Some l"
    and "\<And>k. compile_mode d = Some k \<Longrightarrow> windowed_key k"
  shows "prepared (\<lambda>_. True) l"
proof -
  have read: "prepared (\<lambda>_. True) (read_ledger (\<lambda>_. True) now_stored)"
    unfolding read_ledger_def by (rule prepare_prepared)
  have link: "d_links d \<Longrightarrow> windowed_key (ledger_key (d_name d) (d_links d))"
    by (simp add: windowed_key_def ledger_key_def ends_with_iff suffix_def)
  from assms(1) show ?thesis
    unfolding note_compilation_def Let_def
    by (auto split: if_splits option.splits
        intro: record_compile_prepared [OF _ read assms(2)] record_link_prepared [OF _ read link])
qed

text \<open>A cache that was filled by one of the looks so far, with the plan of its ledger.\<close>

definition filled_by ::
  "(real ledger \<Rightarrow> plan) \<Rightarrow> look \<Rightarrow> ledger_cache \<Rightarrow> bool" where
  "filled_by pl r c \<longleftrightarrow>
     cache_stamp c = look_stamp r \<and> loaded_at c = Some (loaded_by r) \<and>
     cached_ledger c = read_ledger (\<lambda>_. True) (look_stored r) \<and>
     (\<forall>q. cached_plan c = Some q \<longrightarrow> q = pl (cached_ledger c))"

definition fresh_for :: "look \<Rightarrow> look \<Rightarrow> bool" where
  "fresh_for lk r \<longleftrightarrow>
     r = lk \<or> look_stamp r = look_stamp lk \<and> asked_at lk - loaded_by r < LEDGER_CACHE_MAX_AGE"

lemma cache_prediction_step:
  assumes "cache_prediction predict lk d c = (q, d', c')" "fst \<circ> predict = pl"
    and "c = empty_cache \<or> (\<exists>r \<in> R. filled_by pl r c)"
  shows "\<exists>r \<in> insert lk R. filled_by pl r c' \<and> fresh_for lk r \<and>
    q = pl (read_ledger (\<lambda>_. True) (look_stored r))"
proof (cases "cache_read lk c = c")
  case True
  from assms(3) show ?thesis
  proof
    assume "c = empty_cache"
    with True have False by (simp add: cache_read_def empty_cache_def split: if_splits)
    then show ?thesis ..
  next
    assume "\<exists>r \<in> R. filled_by pl r c"
    then obtain r where r: "r \<in> R" "filled_by pl r c" by blast
    have "fresh_for lk r \<or> filled_by pl lk c"
      using True r(2) unfolding cache_read_def fresh_for_def filled_by_def
      by (cases "look_stamp lk = cache_stamp c"; cases "loaded_at c")
        (auto simp: ledger_cache.defs split: if_splits)
    then obtain r' where r': "r' \<in> insert lk R" "filled_by pl r' c" "fresh_for lk r'"
      using r by (auto simp: fresh_for_def)
    show ?thesis
      using assms(1,2) r' True unfolding cache_prediction_def filled_by_def
      by (intro bexI [OF _ r'(1)]) (auto simp: Let_def split: option.splits prod.splits)
  qed
next
  case False
  then have "cache_read lk c = \<lparr>cache_stamp = look_stamp lk, loaded_at = Some (loaded_by lk),
      cached_ledger = read_ledger (\<lambda>_. True) (look_stored lk), cached_plan = None\<rparr>"
    by (auto simp: cache_read_def split: if_splits)
  then show ?thesis
    using assms(1,2) unfolding cache_prediction_def filled_by_def fresh_for_def
    by (auto simp: Let_def split: prod.splits)
qed

text \<open>The plans of successive polls of one waiting request.\<close>

fun plan_run ::
  "(string \<Rightarrow> u64) \<Rightarrow> (string \<Rightarrow> u64) \<Rightarrow> (string \<Rightarrow> byte list option) \<Rightarrow> pool \<Rightarrow> look list \<Rightarrow>
   demand \<Rightarrow> ledger_cache option \<Rightarrow> demand \<times> ledger_cache option" where
  "plan_run hash tag history p [] d c = (d, c)"
| "plan_run hash tag history p (lk # lks) d c =
     (let (_, d, c) = admission_plan hash tag history p lk d c in plan_run hash tag history p lks d c)"

definition cache_inv :: "(real ledger \<Rightarrow> plan) \<Rightarrow> look set \<Rightarrow> ledger_cache option \<Rightarrow> bool" where
  "cache_inv pl R c \<longleftrightarrow> (case c of None \<Rightarrow> True | Some c \<Rightarrow> \<exists>r \<in> R. filled_by pl r c)"

lemma cache_prediction_demand:
  assumes "cache_prediction predict lk d c = (q, d', c')"
  shows "d' = d \<or> (\<exists>l. d' = snd (predict l))"
  using assms by (auto simp: cache_prediction_def Let_def split: option.splits prod.splits) (metis snd_conv)

lemma admission_plan_step:
  assumes "admission_plan hash tag history p lk e c = (q, e', c')"
    and "per_test d = None" "bytes_per_permit p \<noteq> 0 \<or> learns_cpu d"
    and "same_request d e" "cache_inv (plan_of hash tag history p d) R c"
  shows "same_request d e' \<and> cache_inv (plan_of hash tag history p d) (insert lk R) c' \<and>
    (\<exists>r \<in> insert lk R. fresh_for lk r \<and>
       q = plan_of hash tag history p d (read_ledger (\<lambda>_. True) (look_stored r)))"
proof -
  let ?predict = "demand_vector_with_ledger hash tag history p e"
  note f = same_request_fields [OF assms(4)]
  obtain c1 where cp: "cache_prediction ?predict lk e (unwrap_or c empty_cache) = (q, e', c1)"
    and c': "c' = Some c1"
    using assms(1-3) unfolding admission_plan_def f by (auto split: if_splits prod.splits)
  have pl: "fst \<circ> ?predict = plan_of hash tag history p d"
    using planning_same(1) [OF assms(4)] by (auto simp: plan_of_def)
  have "same_request e e'"
    using cache_prediction_demand [OF cp] planning_same(2) [OF same_request_refl] by auto
  moreover have "unwrap_or c empty_cache = empty_cache \<or>
      (\<exists>r \<in> R. filled_by (plan_of hash tag history p d) r (unwrap_or c empty_cache))"
    using assms(5) by (cases c) (auto simp: cache_inv_def)
  from cache_prediction_step [OF cp pl this] obtain r where r: "r \<in> insert lk R"
      "filled_by (plan_of hash tag history p d) r c1" "fresh_for lk r"
      "q = plan_of hash tag history p d (read_ledger (\<lambda>_. True) (look_stored r))" by blast
  ultimately show ?thesis
    using same_request_trans [OF assms(4)] unfolding cache_inv_def c' option.case by blast
qed

lemma plan_run_inv:
  assumes "per_test d = None" "bytes_per_permit p \<noteq> 0 \<or> learns_cpu d"
  shows "plan_run hash tag history p lks e c = (e', c') \<Longrightarrow> same_request d e \<Longrightarrow>
    cache_inv (plan_of hash tag history p d) R c \<Longrightarrow>
    same_request d e' \<and> cache_inv (plan_of hash tag history p d) (R \<union> set lks) c'"
proof (induction lks arbitrary: e c R)
  case (Cons lk lks)
  obtain q e1 c1 where ap: "admission_plan hash tag history p lk e c = (q, e1, c1)" by (metis surj_pair)
  from admission_plan_step [OF ap assms Cons.prems(2,3)]
  have "same_request d e1" "cache_inv (plan_of hash tag history p d) (insert lk R) c1" by auto
  from Cons.IH [OF _ this] Cons.prems(1) show ?case by (simp add: ap)
qed simp

lemma show_bool_number [simp]: "parse_u64 (show_bool b) = Some (if b then 1 else 0)"
  by (simp add: show_bool_def u64_max_def)

section \<open>Properties\<close>

text \<open>
  C16. Old readers are never misled. Whatever the history, the flags and the kind of work, a plan asks
  for at least one core; its scalar weight is between one and the capacity and, unless it was
  clamped to the capacity, covers the cores and, in bytes, the memory of the exact charge; and the
  charge covers the predicted memory, or is full permits when nothing was predicted.
\<close>

theorem plan_is_conservative:
  assumes "1 \<le> pool_capacity p"
  shows "conservative p (plan_of hash tag history p d l) \<and>
    charges_prediction p (plan_of hash tag history p d l)"
proof (cases "per_test d")
  case None
  then show ?thesis using ledger_plan_ok [OF assms] by (simp add: plan_of_def demand_vector_with_ledger_def)
next
  case (Some i)
  then show ?thesis
    using test_plan_ok [OF assms]
    by (cases i) (simp add: plan_of_def demand_vector_with_ledger_def case_prod_beta Let_def)
qed

theorem plan_is_conservative_witness:
  "plan_weight (plan_of (\<lambda>_. 0) (\<lambda>_. 0) (\<lambda>_. None) (new_pool 8 None ''d'' 8 100 Normal)
     (nextest_demand ''bin'' ''t'') empty_ledger) = 2 \<and>
   conservative (new_pool 8 None ''d'' 8 100 Normal)
     (plan_of (\<lambda>_. 0) (\<lambda>_. 0) (\<lambda>_. None) (new_pool 8 None ''d'' 8 100 Normal)
        (nextest_demand ''bin'' ''t'') empty_ledger)"
proof
  have "1 \<le> pool_capacity (new_pool 8 None ''d'' 8 100 Normal)" by (simp add: new_pool_def)
  from plan_is_conservative [OF this]
  show "conservative (new_pool 8 None ''d'' 8 100 Normal)
     (plan_of (\<lambda>_. 0) (\<lambda>_. 0) (\<lambda>_. None) (new_pool 8 None ''d'' 8 100 Normal)
        (nextest_demand ''bin'' ''t'') empty_ledger)" by blast
  show "plan_weight (plan_of (\<lambda>_. 0) (\<lambda>_. 0) (\<lambda>_. None) (new_pool 8 None ''d'' 8 100 Normal)
     (nextest_demand ''bin'' ''t'') empty_ledger) = 2"
    by (simp add: plan_of_def demand_vector_with_ledger_def nextest_demand_def new_demand_def
        lookup_test_history_def test_plan_def new_pool_def UNMEASURED_TEST_WEIGHT_def
        saturating_mul_def u64_max_def div_ceil_def clamp_def Let_def)
qed

text \<open>
  A shim schedules against the session's pool. The pool a compiler shim resolves from the
  environment its session wrote is the one the configuration describes -- capacity, ceilings of the
  domain, memory, priority, events and pressure -- with the session's build on top, whose ceiling
  is the narrower of the pool and Cargo's own jobs and never zero.
\<close>

theorem session_pool_round_trip:
  assumes "enabled (scheduler config)" "scheduler_dir config \<noteq> ''''" "build_id \<noteq> ''''"
    and "permits (scheduler config) \<le> u64_max" "cfg_cpus (scheduler config) \<le> u64_max"
    and "unwrap_or (cfg_memory_bytes (scheduler config)) 0 \<le> u64_max"
  shows "resolve_pool local_cpus local_memory domain other
      (map_of (session_environment_with_jobs False build_id config jobs)) =
    map_option (\<lambda>p. (scheduler_dir config, p\<lparr>pool_build := Some (build_id,
        max (min (permits (scheduler config)) (case jobs of None \<Rightarrow> u64_max | Some j \<Rightarrow> max j 1)) 1)\<rparr>))
      (from_config local_cpus local_memory domain (scheduler config))"
proof -
  let ?s = "scheduler config" and ?env = "map_of (session_environment_with_jobs False build_id config jobs)"
  have bpp: "bytes_per_permit_of (cfg_memory_bytes ?s) (permits ?s) \<le> u64_max"
    using assms(6) by (auto simp: bytes_per_permit_of_def intro: order_trans [OF div_le_dividend]
        split: option.split)
  have slots: "(case jobs of None \<Rightarrow> permits ?s | Some j \<Rightarrow> min (permits ?s) (max j 1)) \<le> u64_max"
    using assms(4) by (auto split: option.split)
  have env: "?env ''MBX_SCHED_DIR'' = Some (scheduler_dir config)"
    "env_number ?env ''MBX_SCHED_SLOTS'' = Some (permits ?s)"
    "env_number ?env ''MBX_SCHED_SLOT_BYTES'' = Some (bytes_per_permit_of (cfg_memory_bytes ?s) (permits ?s))"
    "env_number ?env ''MBX_SCHED_CPUS'' = Some (cfg_cpus ?s)"
    "env_number ?env ''MBX_SCHED_EVENTS'' = Some (if cfg_events ?s then 1 else 0)"
    "env_number ?env ''MBX_SCHED_MEMORY_BYTES'' = Some (unwrap_or (cfg_memory_bytes ?s) 0)"
    "env_number ?env ''MBX_SCHED_PRESSURE'' = Some (if cfg_pressure ?s then 1 else 0)"
    "env_number ?env ''MBX_SCHED_BUILD_SLOTS'' =
       Some (case jobs of None \<Rightarrow> permits ?s | Some j \<Rightarrow> min (permits ?s) (max j 1))"
    "?env ''MBX_SCHED_BUILD_ID'' = Some build_id"
    "Option.bind (?env ''MBX_SCHED_PRIORITY'') parse_priority = Some (cfg_priority ?s)"
    using assms bpp slots
    by (simp_all add: session_environment_with_jobs_def env_number_def Let_def parse_priority_def
        as_str_def split: scheduler_priority.split)
  have build: "env_build ?env (permits ?s) = Some (build_id,
      max (min (permits ?s) (case jobs of None \<Rightarrow> u64_max | Some j \<Rightarrow> max j 1)) 1)"
    using assms(3,4) by (auto simp: env_build_def env clamp_def split: option.split)
  show ?thesis
    using assms(1,2) unfolding resolve_pool_def from_config_def reservation_pool_def Let_def
    by (simp add: env build set_memory_capacity_def new_pool_def)
qed

definition sample_session :: session_config where
  "sample_session = \<lparr>scheduler = \<lparr>enabled = True, permits = 8, cfg_cpus = 8,
     cfg_memory_bytes = Some 8000, cfg_priority = Low, cfg_pressure = True, cfg_events = False\<rparr>,
     suspend = False, cgroup_root = None, scheduler_dir = ''/cache/scheduler''\<rparr>"

theorem session_pool_round_trip_witness:
  "map_option (\<lambda>(dir, p). (dir, pool_capacity p, bytes_per_permit p, priority p, pool_build p))
     (resolve_pool 4 None ''d'' None
       (map_of (session_environment_with_jobs False ''b7'' sample_session (Some 3)))) =
   Some (''/cache/scheduler'', 8, 1000, Low, Some (''b7'', 3))"
proof -
  have "enabled (scheduler sample_session)" "scheduler_dir sample_session \<noteq> ''''" "''b7'' \<noteq> ''''"
    "permits (scheduler sample_session) \<le> u64_max" "cfg_cpus (scheduler sample_session) \<le> u64_max"
    "unwrap_or (cfg_memory_bytes (scheduler sample_session)) 0 \<le> u64_max"
    by (simp_all add: sample_session_def u64_max_def)
  note round_trip = session_pool_round_trip [OF this, of 4 None "''d''" None "Some 3"]
  show ?thesis
    unfolding round_trip
    by (simp add: sample_session_def from_config_def reservation_pool_def new_pool_def
        set_memory_capacity_def bytes_per_permit_of_def Let_def)
qed


definition sample_link :: demand where
  "sample_link = with_compiler_execution (new_demand ''app'' True) [Some ''-O''] None False False"


text \<open>
  A cached plan is never stale. At every poll of a waiting request, whatever happened to the
  ledger file in between, the plan used is the one a fresh computation gives for the ledger as it
  was at this poll or at an earlier poll whose file had the same stamp and whose load was over
  less than a second before.
\<close>

theorem cached_plan_is_fresh:
  assumes "per_test d = None" "bytes_per_permit p \<noteq> 0 \<or> learns_cpu d"
    and "plan_run hash tag history p lks d None = (e, c)"
    and "admission_plan hash tag history p lk e c = (q, e', c')"
  shows "\<exists>r \<in> set (lks @ [lk]). fresh_for lk r \<and>
    q = plan_of hash tag history p d (read_ledger (\<lambda>_. True) (look_stored r))"
proof -
  have "cache_inv (plan_of hash tag history p d) {} None" by (simp add: cache_inv_def)
  from plan_run_inv [OF assms(1,2,3) same_request_refl this]
  have "same_request d e" "cache_inv (plan_of hash tag history p d) (set lks) c" by auto
  from admission_plan_step [OF assms(4,1,2) this] show ?thesis by auto
qed

definition sample_look :: "nat \<Rightarrow> u64 \<Rightarrow> look" where
  "sample_look now peak = \<lparr>asked_at = now, loaded_by = now, look_stamp = None,
     look_stored = Some (empty_ledger\<lparr>crates := [(''cc:zlib.c'', peak)]\<rparr>)\<rparr>"

theorem cached_plan_is_fresh_witness:
  "plan_predicted (fst (admission_plan (\<lambda>_. 0) (\<lambda>_. 0) (\<lambda>_. None) (new_pool 8 None ''d'' 8 100 Normal)
     (sample_look 1500 900) (new_demand ''cc:zlib.c'' False)
     (snd (plan_run (\<lambda>_. 0) (\<lambda>_. 0) (\<lambda>_. None) (new_pool 8 None ''d'' 8 100 Normal)
        [sample_look 200 700] (new_demand ''cc:zlib.c'' False) None)))) = Some 900"
proof -
  let ?p = "new_pool 8 None ''d'' 8 100 Normal" and ?d = "new_demand ''cc:zlib.c'' False"
  let ?plan = "admission_plan (\<lambda>_. 0) (\<lambda>_. 0) (\<lambda>_. None) ?p"
  have request: "per_test ?d = None" "bytes_per_permit ?p \<noteq> 0 \<or> learns_cpu ?d"
    by (simp_all add: new_demand_def new_pool_def)
  obtain c where run: "plan_run (\<lambda>_. 0) (\<lambda>_. 0) (\<lambda>_. None) ?p [sample_look 200 700] ?d None = (?d, Some c)"
    by (simp add: admission_plan_def cache_prediction_def cache_read_def empty_cache_def sample_look_def
        demand_vector_with_ledger_def ledger_plan_def memory_prediction_def new_demand_def new_pool_def
        Let_def)
  obtain q e' c' where plan: "?plan (sample_look 1500 900) ?d (Some c) = (q, e', c')" by (metis surj_pair)
  from cached_plan_is_fresh [OF request run plan] obtain r where
    r: "r \<in> set [sample_look 200 700, sample_look 1500 900]" "fresh_for (sample_look 1500 900) r"
      "q = plan_of (\<lambda>_. 0) (\<lambda>_. 0) (\<lambda>_. None) ?p ?d (read_ledger (\<lambda>_. True) (look_stored r))" by auto
  then have "r = sample_look 1500 900"
    by (auto simp: fresh_for_def sample_look_def LEDGER_CACHE_MAX_AGE_def)
  with r(3) have "plan_predicted q = Some 900"
    by (simp add: plan_of_def demand_vector_with_ledger_def ledger_plan_def memory_prediction_def
        new_demand_def new_pool_def ledger_key_def read_ledger_def prepare_def sample_look_def
        empty_ledger_def Let_def)
  with run plan show ?thesis by simp
qed

end
