(* ===== verification/Protocol.thy ===== *)
theory Protocol
  imports Text
begin

text \<open>
  The records of the remote cache protocol (\<open>mbx-cache-protocol\<close>): digests with their
  validation and storage key, action predictions, promises, task manifests and adapter metadata.
  The hash functions and the check that a payload is JSON belong to other packages and are
  arguments of the definitions that use them.
\<close>

section \<open>Digests\<close>

datatype digest_algorithm = Blake3 | Sha256

definition algorithm_name :: "digest_algorithm \<Rightarrow> string" where
  "algorithm_name a = (case a of Blake3 \<Rightarrow> ''blake3'' | Sha256 \<Rightarrow> ''sha256'')"

definition parse_algorithm :: "string \<Rightarrow> digest_algorithm option" where
  "parse_algorithm s =
     (if s = ''blake3'' then Some Blake3 else if s = ''sha256'' then Some Sha256 else None)"

lemma parse_algorithm_name [simp]: "parse_algorithm (algorithm_name a) = Some a"
  by (cases a) (simp_all add: parse_algorithm_def algorithm_name_def)

lemma parse_algorithm_Some: "parse_algorithm s = Some a \<Longrightarrow> s = algorithm_name a"
  by (auto simp: parse_algorithm_def algorithm_name_def split: if_splits)

record digest =
  algorithm :: string
  hash :: string
  dsize :: u64

datatype digest_error = Unsupported_algorithm | Invalid_digest

definition is_lower_hex :: "char \<Rightarrow> bool" where
  "is_lower_hex c \<longleftrightarrow> (let n = of_char c :: nat in 48 \<le> n \<and> n \<le> 57 \<or> 97 \<le> n \<and> n \<le> 102)"

definition algorithm_kind :: "digest \<Rightarrow> digest_error + digest_algorithm" where
  "algorithm_kind d =
     (case parse_algorithm (algorithm d) of None \<Rightarrow> Inl Unsupported_algorithm | Some a \<Rightarrow> Inr a)"

definition validate_digest :: "digest \<Rightarrow> digest_error + unit" where
  "validate_digest d =
     (case algorithm_kind d of
        Inl e \<Rightarrow> Inl e
      | Inr _ \<Rightarrow>
          if length (hash d) \<noteq> 64 \<or> \<not> list_all is_lower_hex (hash d) then Inl Invalid_digest
          else Inr ())"

definition valid_digest :: "digest \<Rightarrow> bool" where
  "valid_digest d \<longleftrightarrow> validate_digest d = Inr ()"

lemma valid_digest_iff:
  "valid_digest d \<longleftrightarrow>
     parse_algorithm (algorithm d) \<noteq> None \<and> length (hash d) = 64 \<and> list_all is_lower_hex (hash d)"
  by (auto simp: valid_digest_def validate_digest_def algorithm_kind_def split: option.split)

text \<open>\<open>hash_of\<close> gives the hexadecimal hash of some bytes under an algorithm.\<close>

definition matches_bytes ::
  "(digest_algorithm \<Rightarrow> 'b list \<Rightarrow> string) \<Rightarrow> digest \<Rightarrow> 'b list \<Rightarrow> digest_error + bool" where
  "matches_bytes hash_of d bytes =
     (case validate_digest d of
        Inl e \<Rightarrow> Inl e
      | Inr _ \<Rightarrow>
          if dsize d \<noteq> length bytes then Inr False
          else (case algorithm_kind d of
              Inl e \<Rightarrow> Inl e
            | Inr a \<Rightarrow> Inr (hash d = hash_of a bytes)))"

definition blake3_digest :: "(digest_algorithm \<Rightarrow> 'b list \<Rightarrow> string) \<Rightarrow> 'b list \<Rightarrow> digest" where
  "blake3_digest hash_of bytes =
     \<lparr>algorithm = algorithm_name Blake3, hash = hash_of Blake3 bytes, dsize = length bytes\<rparr>"

definition key :: "digest \<Rightarrow> string" where
  "key d = algorithm d @ ''/'' @ hash d @ ''/'' @ show_nat (dsize d)"

section \<open>Predictions, promises and manifests\<close>

definition MAX_TASK_ACTION_PREDICTIONS :: nat where "MAX_TASK_ACTION_PREDICTIONS = 16 * 1024"
definition MAX_ACTION_PREDICTION_PAYLOAD :: nat where "MAX_ACTION_PREDICTION_PAYLOAD = 256 * 1024"
definition MAX_ACTION_PROMISE_CLAIM_BYTES :: nat where "MAX_ACTION_PROMISE_CLAIM_BYTES = 256"

record prediction =
  invocation :: digest
  action :: digest
  adapter :: string
  payload :: string

definition is_ascii_alphanumeric :: "char \<Rightarrow> bool" where
  "is_ascii_alphanumeric c \<longleftrightarrow>
     (let n = of_char c :: nat
      in 48 \<le> n \<and> n \<le> 57 \<or> 65 \<le> n \<and> n \<le> 90 \<or> 97 \<le> n \<and> n \<le> 122)"

definition valid_adapter_name :: "string \<Rightarrow> bool" where
  "valid_adapter_name s \<longleftrightarrow>
     s \<noteq> '''' \<and> list_all (\<lambda>c. is_ascii_alphanumeric c \<or> c = CHR ''-'' \<or> c = CHR ''_'') s"

definition valid_task_identity :: "string \<Rightarrow> bool" where
  "valid_task_identity s \<longleftrightarrow> length s = 64 \<and> list_all is_lower_hex s"

datatype prediction_error = Bad_action_digest | Bad_invocation_digest | Adapter_empty
  | Adapter_not_alphanumeric string | Payload_too_large nat | Payload_not_json

text \<open>\<open>is_json\<close> says whether a payload parses.\<close>

definition constraint_violation :: "(string \<Rightarrow> bool) \<Rightarrow> prediction \<Rightarrow> prediction_error option" where
  "constraint_violation is_json p =
     (if algorithm (action p) \<noteq> algorithm_name Blake3 \<or> \<not> valid_digest (action p)
      then Some Bad_action_digest
      else if algorithm (invocation p) \<noteq> algorithm_name Blake3 \<or> \<not> valid_digest (invocation p)
      then Some Bad_invocation_digest
      else if adapter p = '''' then Some Adapter_empty
      else if \<not> valid_adapter_name (adapter p) then Some (Adapter_not_alphanumeric (adapter p))
      else if length (payload p) > MAX_ACTION_PREDICTION_PAYLOAD
      then Some (Payload_too_large (length (payload p)))
      else if \<not> is_json (payload p) then Some Payload_not_json
      else None)"

definition validate_prediction :: "(string \<Rightarrow> bool) \<Rightarrow> prediction \<Rightarrow> prediction_error + unit" where
  "validate_prediction is_json p =
     (case constraint_violation is_json p of Some e \<Rightarrow> Inl e | None \<Rightarrow> Inr ())"

datatype promise_state = Claimed string | Pending u64 | Complete prediction

datatype promise_error = Bad_claim_token | Bad_prediction prediction_error | Bad_adapter

definition valid_claim :: "string \<Rightarrow> bool" where
  "valid_claim c \<longleftrightarrow> c \<noteq> '''' \<and> length c \<le> MAX_ACTION_PROMISE_CLAIM_BYTES"

definition lift_prediction :: "prediction_error + unit \<Rightarrow> promise_error + unit" where
  "lift_prediction r = (case r of Inl e \<Rightarrow> Inl (Bad_prediction e) | Inr u \<Rightarrow> Inr u)"

definition validate_join :: "string \<Rightarrow> promise_error + unit" where
  "validate_join a = (if valid_adapter_name a then Inr () else Inl Bad_adapter)"

definition validate_promise :: "(string \<Rightarrow> bool) \<Rightarrow> promise_state \<Rightarrow> promise_error + unit" where
  "validate_promise is_json s =
     (case s of
        Claimed c \<Rightarrow> if valid_claim c then Inr () else Inl Bad_claim_token
      | Complete p \<Rightarrow> lift_prediction (validate_prediction is_json p)
      | Pending _ \<Rightarrow> Inr ())"

definition validate_completion :: "(string \<Rightarrow> bool) \<Rightarrow> string \<Rightarrow> prediction \<Rightarrow> promise_error + unit" where
  "validate_completion is_json claim p =
     (if \<not> valid_claim claim then Inl Bad_claim_token
      else lift_prediction (validate_prediction is_json p))"

record manifest =
  manifest_version :: nat
  task :: string
  predictions :: "prediction list"

definition validate_manifest :: "(string \<Rightarrow> bool) \<Rightarrow> manifest \<Rightarrow> bool" where
  "validate_manifest is_json m \<longleftrightarrow>
     manifest_version m = 1 \<and> valid_task_identity (task m) \<and>
     length (predictions m) \<le> MAX_TASK_ACTION_PREDICTIONS \<and>
     list_all (\<lambda>p. validate_prediction is_json p = Inr ()) (predictions m) \<and>
     distinct (map invocation (predictions m))"

section \<open>Adapter metadata\<close>

text \<open>Rust and C metadata have the same fields and differ in their kind.\<close>

record metadata =
  metadata_version :: nat
  kind :: string
  stdout :: digest
  stderr :: digest

definition validate_metadata :: "string \<Rightarrow> metadata \<Rightarrow> bool" where
  "validate_metadata k m \<longleftrightarrow>
     metadata_version m = 1 \<and> kind m = k \<and> valid_digest (stdout m) \<and> valid_digest (stderr m)"

definition validate_rustc_metadata :: "metadata \<Rightarrow> bool" where
  "validate_rustc_metadata = validate_metadata ''rustc''"

definition validate_cc_metadata :: "metadata \<Rightarrow> bool" where
  "validate_cc_metadata = validate_metadata ''cc''"

section \<open>Lemmas\<close>

lemma lower_hex_no_slash: "is_lower_hex c \<Longrightarrow> c \<noteq> CHR ''/''"
  by (auto simp: is_lower_hex_def)

lemma show_nat_no_slash: "CHR ''/'' \<notin> set (show_nat n)"
  using digits_show_nat [of "CHR ''/''" n] by (auto simp: digit_of_def)

lemma key_parts:
  assumes "valid_digest d"
  shows "split_on CHR ''/'' (key d) = [algorithm d, hash d, show_nat (dsize d)]"
proof -
  obtain a where a: "algorithm d = algorithm_name a"
    using assms parse_algorithm_Some by (auto simp: valid_digest_iff)
  have "CHR ''/'' \<notin> set (algorithm d)" by (cases a) (simp_all add: a algorithm_name_def)
  moreover have "CHR ''/'' \<notin> set (hash d)"
    using assms lower_hex_no_slash by (auto simp: valid_digest_iff list_all_iff)
  ultimately show ?thesis
    using show_nat_no_slash [of "dsize d"] by (simp add: key_def split_on_append split_on_none)
qed

section \<open>Properties\<close>

text \<open>
  No two objects share a storage key, and a verified object is what its digest says. Valid
  digests with the same key are equal, and when a digest is valid a match of some bytes means
  exactly that they have its length and hash to it under its algorithm; an invalid digest is an
  error and matches nothing.
\<close>

theorem digest_identifies_object:
  assumes "dsize d \<le> u64_max" "dsize e \<le> u64_max"
  shows "(valid_digest d \<and> valid_digest e \<and> key d = key e \<longrightarrow> d = e) \<and>
    (matches_bytes hash_of d bytes = Inr True \<longleftrightarrow>
       valid_digest d \<and> dsize d = length bytes \<and>
       (\<exists>a. algorithm d = algorithm_name a \<and> hash d = hash_of a bytes)) \<and>
    (matches_bytes hash_of d bytes \<in> range Inl \<longleftrightarrow> \<not> valid_digest d)"
proof (intro conjI impI)
  assume "valid_digest d \<and> valid_digest e \<and> key d = key e"
  then have "algorithm d = algorithm e" "hash d = hash e" "show_nat (dsize d) = show_nat (dsize e)"
    using key_parts [of d] key_parts [of e] by simp_all
  with show_nat_inject [of "dsize d" "dsize e"] assms show "d = e"
    by (cases d; cases e) simp
next
  show "matches_bytes hash_of d bytes = Inr True \<longleftrightarrow>
       valid_digest d \<and> dsize d = length bytes \<and>
       (\<exists>a. algorithm d = algorithm_name a \<and> hash d = hash_of a bytes)"
    using parse_algorithm_Some
    by (auto simp: matches_bytes_def valid_digest_def validate_digest_def algorithm_kind_def
        split: option.splits if_splits)
  show "matches_bytes hash_of d bytes \<in> range Inl \<longleftrightarrow> \<not> valid_digest d"
    by (auto simp: matches_bytes_def valid_digest_def validate_digest_def algorithm_kind_def
        split: option.splits if_splits)
qed

definition sample_digest :: "u64 \<Rightarrow> digest" where
  "sample_digest n = \<lparr>algorithm = ''blake3'', hash = replicate 64 (CHR ''a''), dsize = n\<rparr>"

lemma valid_sample_digest: "valid_digest (sample_digest n)"
  by (simp add: valid_digest_iff sample_digest_def parse_algorithm_def list_all_iff is_lower_hex_def)

theorem digest_identifies_object_witness:
  "matches_bytes (\<lambda>_ _. replicate 64 (CHR ''a'')) (sample_digest 2) [7 :: nat, 9] = Inr True \<and>
   key (sample_digest 2) \<noteq> key (sample_digest 3)"
proof -
  let ?h = "\<lambda>(_ :: digest_algorithm) (_ :: nat list). replicate 64 (CHR ''a'')"
  have size: "dsize (sample_digest 2) \<le> u64_max" "dsize (sample_digest 3) \<le> u64_max"
    by (simp_all add: sample_digest_def u64_max_def)
  note valid = valid_sample_digest
  have "algorithm (sample_digest 2) = algorithm_name Blake3"
    by (simp add: sample_digest_def algorithm_name_def)
  then have "\<exists>a. algorithm (sample_digest 2) = algorithm_name a \<and> hash (sample_digest 2) = ?h a [7, 9]"
    by (auto simp: sample_digest_def)
  moreover have "dsize (sample_digest 2) = length [7 :: nat, 9]" "sample_digest 2 \<noteq> sample_digest 3"
    by (simp_all add: sample_digest_def)
  ultimately show ?thesis
    using digest_identifies_object [OF size, of ?h "[7, 9]"] valid by blast
qed

end
