(* ===== verification/Task_Manifest.thy ===== *)
theory Task_Manifest
  imports Protocol "HOL-Library.FSet" "HOL-Library.Sublist"
begin

text \<open>
  Task prediction manifests (\<open>mbx-cache-core/src/agent/manifest.rs\<close>): a bounded list of action
  predictions ordered from the oldest to the newest, updated as a least-recently-used history, and
  the merge of two snapshots of it. The length of a prediction as canonical JSON is an argument.
\<close>

section \<open>Constants\<close>

definition MAX_TASK_MANIFEST_BYTES :: nat where "MAX_TASK_MANIFEST_BYTES = 15 * 1024 * 1024"
definition TASK_MANIFEST_OVERHEAD_BYTES :: nat where "TASK_MANIFEST_OVERHEAD_BYTES = 256"
definition TASK_ACTION_MANIFEST_VERSION :: nat where "TASK_ACTION_MANIFEST_VERSION = 1"

datatype manifest_error = Too_many_predictions | Invalid_manifest

section \<open>Updating in order\<close>

text \<open>\<open>filter (|p| seen.insert(p.invocation))\<close>: the first prediction of each invocation.\<close>

fun first_of_each :: "digest list \<Rightarrow> prediction list \<Rightarrow> prediction list" where
  "first_of_each seen [] = []"
| "first_of_each seen (p # ps) =
     (if invocation p \<in> set seen then first_of_each seen ps
      else p # first_of_each (invocation p # seen) ps)"

definition last_of_each :: "prediction list \<Rightarrow> prediction list" where
  "last_of_each ps = rev (first_of_each [] (rev ps))"

text \<open>The history with the updates at its end.\<close>

definition refreshed :: "prediction list \<Rightarrow> prediction list \<Rightarrow> prediction list" where
  "refreshed ps updates =
     filter (\<lambda>p. invocation p \<notin> invocation ` set updates) ps @ last_of_each updates"

text \<open>The count bound: the oldest unprotected entries go.\<close>

fun retire_count :: "nat \<Rightarrow> digest fset \<Rightarrow> prediction list \<Rightarrow> prediction list" where
  "retire_count excess protect [] = []"
| "retire_count excess protect (p # ps) =
     (if excess > 0 \<and> invocation p |\<notin>| protect then retire_count (excess - 1) protect ps
      else p # retire_count excess protect ps)"

text \<open>The byte bound; the result is what is left and its total.\<close>

fun retire_bytes ::
  "(prediction \<Rightarrow> nat) \<Rightarrow> nat \<Rightarrow> digest fset \<Rightarrow> prediction list \<Rightarrow> prediction list \<times> nat" where
  "retire_bytes bytes total_bytes protect [] = ([], total_bytes)"
| "retire_bytes bytes total_bytes protect (p # ps) =
     (if total_bytes > MAX_TASK_MANIFEST_BYTES \<and> invocation p |\<notin>| protect
      then retire_bytes bytes (total_bytes - bytes p) protect ps
      else (let (kept, t) = retire_bytes bytes total_bytes protect ps in (p # kept, t)))"

definition manifest_bytes :: "(prediction \<Rightarrow> nat) \<Rightarrow> prediction list \<Rightarrow> nat" where
  "manifest_bytes json_len ps = TASK_MANIFEST_OVERHEAD_BYTES + sum_list (map (\<lambda>p. json_len p + 1) ps)"

definition update_task_predictions_in_order ::
  "(prediction \<Rightarrow> nat) \<Rightarrow> prediction list \<Rightarrow> prediction list \<Rightarrow> digest fset \<Rightarrow>
   manifest_error + prediction list" where
  "update_task_predictions_in_order json_len ps updates protect =
     (if fcard protect > MAX_TASK_ACTION_PREDICTIONS then Inl Too_many_predictions
      else
        (let ps = refreshed ps updates;
             kept = retire_count (length ps - MAX_TASK_ACTION_PREDICTIONS) protect ps
         in if manifest_bytes json_len kept > MAX_TASK_MANIFEST_BYTES
            then (let (retained, t) = retire_bytes (\<lambda>p. json_len p + 1) (manifest_bytes json_len kept) protect kept
                  in if t > MAX_TASK_MANIFEST_BYTES then Inl Too_many_predictions else Inr retained)
            else Inr kept))"

text \<open>The updates of a run, as a map in the order of its keys.\<close>

definition update_task_predictions ::
  "(prediction \<Rightarrow> nat) \<Rightarrow> prediction list \<Rightarrow> (digest \<times> prediction) list \<Rightarrow> digest fset \<Rightarrow>
   manifest_error + prediction list" where
  "update_task_predictions json_len ps updates protect =
     update_task_predictions_in_order json_len ps (map snd updates) protect"

section \<open>Merging snapshots\<close>

definition validate_task_manifest :: "(string \<Rightarrow> bool) \<Rightarrow> manifest \<Rightarrow> string \<Rightarrow> manifest_error + unit" where
  "validate_task_manifest is_json m t =
     (if task m = t \<and> validate_manifest is_json m then Inr () else Inl Invalid_manifest)"

definition base_prediction :: "manifest \<Rightarrow> digest \<Rightarrow> prediction option" where
  "base_prediction m i = find (\<lambda>p. invocation p = i) (predictions m)"

definition merge_updates :: "manifest \<Rightarrow> manifest \<Rightarrow> digest fset \<Rightarrow> digest fset \<Rightarrow> prediction list" where
  "merge_updates base upd required fallbacks =
     filter (\<lambda>p. invocation p |\<in>| required \<or>
         invocation p |\<in>| fallbacks \<and>
           (case base_prediction base (invocation p) of None \<Rightarrow> True | Some b \<Rightarrow> b = p))
       (predictions upd)"

definition merge_history :: "manifest \<Rightarrow> manifest \<Rightarrow> prediction list" where
  "merge_history base upd =
     filter (\<lambda>p. base_prediction base (invocation p) = None) (predictions upd) @ predictions base"

definition merge_task_manifests ::
  "(string \<Rightarrow> bool) \<Rightarrow> (prediction \<Rightarrow> nat) \<Rightarrow> string \<Rightarrow> manifest \<Rightarrow> manifest \<Rightarrow> digest fset \<Rightarrow>
   digest fset \<Rightarrow> manifest_error + manifest" where
  "merge_task_manifests is_json json_len t base upd required fallbacks =
     (if validate_task_manifest is_json base t \<noteq> Inr () \<or> validate_task_manifest is_json upd t \<noteq> Inr ()
      then Inl Invalid_manifest
      else
        (let updates = merge_updates base upd required fallbacks;
             protect = required |\<union>| fset_of_list (map invocation updates)
         in case update_task_predictions_in_order json_len (merge_history base upd) updates protect of
              Inl e \<Rightarrow> Inl e
            | Inr ps \<Rightarrow>
                (let m = \<lparr>manifest_version = TASK_ACTION_MANIFEST_VERSION, task = t, predictions = ps\<rparr>
                 in case validate_task_manifest is_json m t of Inl e \<Rightarrow> Inl e | Inr _ \<Rightarrow> Inr m)))"

section \<open>The last value of each invocation\<close>

lemma first_of_each_spec:
  "distinct (map invocation (first_of_each seen ps))"
  "invocation ` set (first_of_each seen ps) = invocation ` set ps - set seen"
  "set (first_of_each seen ps) \<subseteq> set ps"
  by (induction seen ps rule: first_of_each.induct) auto

lemma first_of_each_id:
  "distinct (map invocation ps) \<Longrightarrow> invocation ` set ps \<inter> set seen = {} \<Longrightarrow> first_of_each seen ps = ps"
  by (induction seen ps rule: first_of_each.induct) auto

lemma first_of_each_find:
  "i \<notin> set seen \<Longrightarrow>
   find (\<lambda>p. invocation p = i) (first_of_each seen ps) = find (\<lambda>p. invocation p = i) ps"
  by (induction seen ps rule: first_of_each.induct) auto

lemma last_of_each_spec [simp]:
  "distinct (map invocation (last_of_each ps))"
  "invocation ` set (last_of_each ps) = invocation ` set ps"
  "set (last_of_each ps) \<subseteq> set ps"
  using first_of_each_spec [of "[]" "rev ps"] by (simp_all add: last_of_each_def rev_map [symmetric])

lemma last_of_each_id: "distinct (map invocation ps) \<Longrightarrow> last_of_each ps = ps"
  by (simp add: last_of_each_def first_of_each_id rev_map [symmetric])

lemma refreshed_spec:
  assumes "distinct (map invocation ps)"
  shows "distinct (map invocation (refreshed ps updates))"
    "invocation ` set (refreshed ps updates) = invocation ` set ps \<union> invocation ` set updates"
    "set (refreshed ps updates) \<subseteq> set ps \<union> set updates"
proof -
  have "distinct (map invocation (filter Q ps))" for Q
    using assms by (simp add: distinct_map_filter)
  then show "distinct (map invocation (refreshed ps updates))" by (auto simp: refreshed_def)
  show "invocation ` set (refreshed ps updates) = invocation ` set ps \<union> invocation ` set updates"
    by (auto simp: refreshed_def image_Un)
  show "set (refreshed ps updates) \<subseteq> set ps \<union> set updates"
    by (auto simp: refreshed_def dest: subsetD [OF last_of_each_spec(3)])
qed

section \<open>Retiring\<close>

text \<open>What retiring leaves: the protected entries of a prefix, and all of the rest.\<close>

definition retired_at :: "nat \<Rightarrow> digest fset \<Rightarrow> prediction list \<Rightarrow> prediction list" where
  "retired_at k protect ps = filter (\<lambda>p. invocation p |\<in>| protect) (take k ps) @ drop k ps"

lemma retired_at_0 [simp]: "retired_at 0 protect ps = ps"
  by (simp add: retired_at_def)

lemma retired_at_Suc [simp]:
  "retired_at (Suc k) protect (p # ps) =
     (if invocation p |\<in>| protect then p # retired_at k protect ps else retired_at k protect ps)"
  by (simp add: retired_at_def)

lemma retire_count_shape: "\<exists>k \<le> length ps. retire_count excess protect ps = retired_at k protect ps"
proof (induction excess protect ps rule: retire_count.induct)
  case (2 excess protect p ps)
  show ?case
  proof (cases "excess = 0")
    case True
    have "retire_count 0 protect qs = qs" for qs by (induction qs) auto
    with True show ?thesis by (intro exI [of _ 0]) simp
  next
    case False
    obtain k where "k \<le> length ps"
      "(if invocation p |\<notin>| protect then retire_count (excess - 1) protect ps
        else retire_count excess protect ps) = retired_at k protect ps"
      using 2 False by (cases "invocation p |\<in>| protect") auto
    with False show ?thesis by (intro exI [of _ "Suc k"]) auto
  qed
qed simp

lemma retire_count_length:
  "length (filter (\<lambda>p. invocation p |\<notin>| protect) ps) \<ge> excess \<Longrightarrow>
   length (retire_count excess protect ps) = length ps - excess"
proof (induction excess protect ps rule: retire_count.induct)
  case (2 excess protect p ps)
  then show ?case
    by (auto simp: Suc_diff_le dest: order_trans [OF _ length_filter_le] split: if_splits)
qed simp

lemma retire_bytes_shape:
  assumes "retire_bytes bytes t protect ps = (kept, t')"
  shows "\<exists>k \<le> length ps. kept = retired_at k protect ps"
  using assms
proof (induction bytes t protect ps arbitrary: kept t' rule: retire_bytes.induct)
  case (2 bytes t protect p ps)
  obtain kept1 t1 where rec: "retire_bytes bytes t protect ps = (kept1, t1)" by fastforce
  show ?case
  proof (cases "t > MAX_TASK_MANIFEST_BYTES")
    case False
    have "retire_bytes bytes t protect qs = (qs, t)" for qs using False by (induction qs) auto
    with 2(3) False show ?thesis by (intro exI [of _ 0]) auto
  next
    case True
    show ?thesis
    proof (cases "invocation p |\<in>| protect")
      case prot: True
      with 2(2) [OF _ rec] 2(3) rec obtain k where "k \<le> length ps" "kept = p # retired_at k protect ps"
        by auto
      with prot show ?thesis by (intro exI [of _ "Suc k"]) simp
    next
      case prot: False
      with 2(1) 2(3) True obtain k where "k \<le> length ps" "kept = retired_at k protect ps" by auto
      with prot show ?thesis by (intro exI [of _ "Suc k"]) simp
    qed
  qed
qed auto

lemma retired_at_twice:
  assumes "k \<le> length ps" "j \<le> length (retired_at k protect ps)"
  shows "\<exists>i \<le> length ps. retired_at j protect (retired_at k protect ps) = retired_at i protect ps"
proof -
  let ?head = "filter (\<lambda>p. invocation p |\<in>| protect) (take k ps)"
  show ?thesis
  proof (cases "j \<le> length ?head")
    case True
    have "filter (\<lambda>p. invocation p |\<in>| protect) (take j ?head) = take j ?head"
      by (intro filter_True) (auto dest: in_set_takeD)
    then have "retired_at j protect (retired_at k protect ps) = retired_at k protect ps"
      using True by (simp add: retired_at_def)
    with assms(1) show ?thesis by blast
  next
    case False
    have "retired_at j protect (retired_at k protect ps) =
        ?head @ filter (\<lambda>p. invocation p |\<in>| protect) (take (j - length ?head) (drop k ps)) @
        drop (j - length ?head) (drop k ps)"
      using False by (simp add: retired_at_def)
    also have "\<dots> = retired_at (k + (j - length ?head)) protect ps"
      by (simp add: retired_at_def take_add add.commute)
    finally show ?thesis
      using assms False by (intro exI [of _ "k + (j - length ?head)"]) (simp add: retired_at_def)
  qed
qed

lemma filter_retired_at [simp]:
  "filter (\<lambda>p. invocation p |\<in>| protect) (retired_at k protect ps) = filter (\<lambda>p. invocation p |\<in>| protect) ps"
proof -
  let ?Q = "\<lambda>p. invocation p |\<in>| protect"
  have "filter ?Q (retired_at k protect ps) = filter ?Q (take k ps) @ filter ?Q (drop k ps)"
    by (simp add: retired_at_def)
  also have "\<dots> = filter ?Q ps" by (metis append_take_drop_id filter_append)
  finally show ?thesis .
qed

lemma retire_bytes_total:
  assumes "retire_bytes bytes t protect ps = (kept, t')" "sum_list (map bytes ps) \<le> t"
  shows "t' + sum_list (map bytes ps) = t + sum_list (map bytes kept)"
    "MAX_TASK_MANIFEST_BYTES < t' \<Longrightarrow> kept = filter (\<lambda>p. invocation p |\<in>| protect) ps"
proof -
  have "t' + sum_list (map bytes ps) = t + sum_list (map bytes kept) \<and> t' \<le> t \<and>
      (MAX_TASK_MANIFEST_BYTES < t' \<longrightarrow> kept = filter (\<lambda>p. invocation p |\<in>| protect) ps)"
    using assms
  proof (induction bytes t protect ps arbitrary: kept t' rule: retire_bytes.induct)
    case (2 bytes t protect p ps)
    show ?case
    proof (cases "t > MAX_TASK_MANIFEST_BYTES \<and> invocation p |\<notin>| protect")
      case True
      with 2(3) have rec: "retire_bytes bytes (t - bytes p) protect ps = (kept, t')" by simp
      have small: "sum_list (map bytes ps) \<le> t - bytes p" "bytes p \<le> t" using 2(4) by simp_all
      from 2(1) [OF True rec small(1)] small True show ?thesis by auto
    next
      case False
      obtain kept1 t1 where rec: "retire_bytes bytes t protect ps = (kept1, t1)" by fastforce
      with 2(3) False have eq: "kept = p # kept1" "t' = t1" by auto
      from 2(2) [OF False rec] 2(4) False show ?thesis by (auto simp: eq)
    qed
  qed auto
  then show "t' + sum_list (map bytes ps) = t + sum_list (map bytes kept)"
    "MAX_TASK_MANIFEST_BYTES < t' \<Longrightarrow> kept = filter (\<lambda>p. invocation p |\<in>| protect) ps" by auto
qed

lemma manifest_bytes_filter: "manifest_bytes json_len (filter Q ps) \<le> manifest_bytes json_len ps"
  by (induction ps) (auto simp: manifest_bytes_def)

lemma protected_le:
  assumes "distinct (map invocation ps)"
  shows "length (filter (\<lambda>p. invocation p |\<in>| protect) ps) \<le> fcard protect"
proof -
  let ?qs = "filter (\<lambda>p. invocation p |\<in>| protect) ps"
  have "distinct (map invocation ?qs)" using assms by (simp add: distinct_map_filter)
  then have "length ?qs = card (set (map invocation ?qs))" by (metis distinct_card length_map)
  also have "\<dots> \<le> card (fset protect)" by (intro card_mono) auto
  finally show ?thesis by (simp add: fcard.rep_eq)
qed

text \<open>The whole update: what is kept, what is refused, and both bounds.\<close>

definition keeps :: "(prediction \<Rightarrow> nat) \<Rightarrow> digest fset \<Rightarrow> prediction list \<Rightarrow> prediction list \<Rightarrow> bool" where
  "keeps json_len protect merged kept \<longleftrightarrow>
     (\<exists>k \<le> length merged. kept = retired_at k protect merged) \<and>
     length kept \<le> MAX_TASK_ACTION_PREDICTIONS \<and> manifest_bytes json_len kept \<le> MAX_TASK_MANIFEST_BYTES"

definition must_refuse :: "(prediction \<Rightarrow> nat) \<Rightarrow> digest fset \<Rightarrow> prediction list \<Rightarrow> bool" where
  "must_refuse json_len protect merged \<longleftrightarrow>
     fcard protect > MAX_TASK_ACTION_PREDICTIONS \<or>
     manifest_bytes json_len (filter (\<lambda>p. invocation p |\<in>| protect) merged) > MAX_TASK_MANIFEST_BYTES"

lemma keeps_not_refuse:
  assumes "keeps json_len protect merged kept"
  shows "manifest_bytes json_len (filter (\<lambda>p. invocation p |\<in>| protect) merged) \<le> MAX_TASK_MANIFEST_BYTES"
proof -
  obtain k where "kept = retired_at k protect merged" using assms by (auto simp: keeps_def)
  then have "filter (\<lambda>p. invocation p |\<in>| protect) merged = filter (\<lambda>p. invocation p |\<in>| protect) kept" by simp
  with manifest_bytes_filter [of json_len _ kept] assms show ?thesis
    by (simp add: keeps_def) (meson le_trans)
qed

lemma retire_count_bound:
  assumes "distinct (map invocation ps)" "fcard protect \<le> MAX_TASK_ACTION_PREDICTIONS"
  shows "length (retire_count (length ps - MAX_TASK_ACTION_PREDICTIONS) protect ps) \<le> MAX_TASK_ACTION_PREDICTIONS"
proof -
  have "length ps = length (filter (\<lambda>p. invocation p |\<in>| protect) ps) +
      length (filter (\<lambda>p. invocation p |\<notin>| protect) ps)"
    by (simp add: sum_length_filter_compl)
  then have "length ps - MAX_TASK_ACTION_PREDICTIONS \<le> length (filter (\<lambda>p. invocation p |\<notin>| protect) ps)"
    using protected_le [OF assms(1), of protect] assms(2) by linarith
  from retire_count_length [OF this] show ?thesis by simp
qed

lemma update_cases:
  assumes "distinct (map invocation ps)"
  shows "case update_task_predictions_in_order json_len ps updates protect of
      Inl e \<Rightarrow> e = Too_many_predictions \<and> must_refuse json_len protect (refreshed ps updates)
    | Inr kept \<Rightarrow> \<not> must_refuse json_len protect (refreshed ps updates) \<and>
        keeps json_len protect (refreshed ps updates) kept"
proof (cases "fcard protect > MAX_TASK_ACTION_PREDICTIONS")
  case True
  then show ?thesis by (simp add: update_task_predictions_in_order_def must_refuse_def)
next
  case False
  let ?m = "refreshed ps updates"
  let ?kept = "retire_count (length ?m - MAX_TASK_ACTION_PREDICTIONS) protect ?m"
  obtain k where k: "k \<le> length ?m" "?kept = retired_at k protect ?m" using retire_count_shape by blast
  have count: "length ?kept \<le> MAX_TASK_ACTION_PREDICTIONS"
    using retire_count_bound [OF refreshed_spec(1) [OF assms]] False by simp
  show ?thesis
  proof (cases "manifest_bytes json_len ?kept > MAX_TASK_MANIFEST_BYTES")
    case small: False
    then have "keeps json_len protect ?m ?kept" using k count by (auto simp: keeps_def)
    with keeps_not_refuse [OF this] False small show ?thesis
      by (simp add: update_task_predictions_in_order_def must_refuse_def Let_def)
  next
    case large: True
    obtain retained t where rb: "retire_bytes (\<lambda>p. json_len p + 1) (manifest_bytes json_len ?kept) protect ?kept =
        (retained, t)" by fastforce
    have "sum_list (map (\<lambda>p. json_len p + 1) ?kept) \<le> manifest_bytes json_len ?kept"
      by (simp add: manifest_bytes_def)
    note total = retire_bytes_total [OF rb this]
    have t: "t = manifest_bytes json_len retained" using total(1) by (simp add: manifest_bytes_def)
    obtain j where j: "j \<le> length ?kept" "retained = retired_at j protect ?kept"
      using retire_bytes_shape [OF rb] by blast
    obtain i where i: "i \<le> length ?m" "retained = retired_at i protect ?m"
      using retired_at_twice [OF k(1), of j protect] j k(2) by auto
    have "length retained \<le> length ?kept" unfolding j(2) retired_at_def
      using length_filter_le [of "\<lambda>p. invocation p |\<in>| protect" "take j ?kept"] j(1) by simp
    then have short: "length retained \<le> MAX_TASK_ACTION_PREDICTIONS" using count by simp
    show ?thesis
    proof (cases "t > MAX_TASK_MANIFEST_BYTES")
      case True
      then have "retained = filter (\<lambda>p. invocation p |\<in>| protect) ?m"
        using total(2) k(2) by simp
      with True t have "must_refuse json_len protect ?m" by (simp add: must_refuse_def)
      with True large False rb show ?thesis
        by (simp add: update_task_predictions_in_order_def Let_def)
    next
      case fits: False
      then have "keeps json_len protect ?m retained" using i short t by (auto simp: keeps_def)
      with keeps_not_refuse [OF this] fits large False rb show ?thesis
        by (simp add: update_task_predictions_in_order_def must_refuse_def Let_def)
    qed
  qed
qed

lemma set_retired_at: "set (retired_at k protect ps) \<subseteq> set ps"
  by (auto simp: retired_at_def dest: in_set_takeD in_set_dropD)

lemma distinct_retired_at:
  assumes "distinct (map invocation ps)"
  shows "distinct (map invocation (retired_at k protect ps))"
proof -
  have "distinct (map invocation (take k ps @ drop k ps))" using assms by simp
  then show ?thesis
    unfolding retired_at_def map_append distinct_append by (auto simp: distinct_map_filter)
qed

lemma keeps_protected:
  "keeps json_len protect merged kept \<Longrightarrow> p \<in> set merged \<Longrightarrow> invocation p |\<in>| protect \<Longrightarrow> p \<in> set kept"
proof -
  assume keeps: "keeps json_len protect merged kept" and p: "p \<in> set merged" "invocation p |\<in>| protect"
  obtain k where k: "kept = retired_at k protect merged" using keeps by (auto simp: keeps_def)
  have "p \<in> set (filter (\<lambda>p. invocation p |\<in>| protect) (retired_at k protect merged))"
    using p by simp
  then show ?thesis unfolding k by (rule subsetD [OF filter_is_subset])
qed

lemma find_distinct:
  "distinct (map f xs) \<Longrightarrow> p \<in> set xs \<Longrightarrow> find (\<lambda>q. f q = f p) xs = Some p"
  by (induction xs) (auto simp: rev_image_eqI)

section \<open>Merging\<close>

lemma validate_task_manifest_iff:
  "validate_task_manifest is_json m t = Inr () \<longleftrightarrow> task m = t \<and> validate_manifest is_json m"
  by (simp add: validate_task_manifest_def)

lemma base_prediction_None: "base_prediction m i = None \<longleftrightarrow> i \<notin> invocation ` set (predictions m)"
  by (auto simp: base_prediction_def find_None_iff)

lemma merge_history_distinct:
  assumes "distinct (map invocation (predictions base))" "distinct (map invocation (predictions upd))"
  shows "distinct (map invocation (merge_history base upd))"
  using assms by (auto simp: merge_history_def distinct_map_filter base_prediction_None)

lemma merge_valid:
  assumes "validate_manifest is_json base" "validate_manifest is_json upd" "valid_task_identity t"
    and "update_task_predictions_in_order json_len (merge_history base upd) (merge_updates base upd required fallbacks) protect = Inr ps"
  shows "validate_manifest is_json \<lparr>manifest_version = TASK_ACTION_MANIFEST_VERSION, task = t, predictions = ps\<rparr>"
    "keeps json_len protect (refreshed (merge_history base upd) (merge_updates base upd required fallbacks)) ps"
proof -
  have valid: "distinct (map invocation (predictions base))" "distinct (map invocation (predictions upd))"
    "\<forall>p \<in> set (predictions base) \<union> set (predictions upd). validate_prediction is_json p = Inr ()"
    using assms(1,2) by (auto simp: validate_manifest_def list_all_iff)
  note distinct = merge_history_distinct [OF valid(1,2)]
  from update_cases [OF distinct, where json_len = json_len and protect = protect
      and updates = "merge_updates base upd required fallbacks"] assms(4)
  show keeps: "keeps json_len protect (refreshed (merge_history base upd) (merge_updates base upd required fallbacks)) ps"
    by simp
  then obtain k where ps: "ps = retired_at k protect (refreshed (merge_history base upd) (merge_updates base upd required fallbacks))"
    "length ps \<le> MAX_TASK_ACTION_PREDICTIONS" by (auto simp: keeps_def)
  have "set ps \<subseteq> set (merge_history base upd) \<union> set (merge_updates base upd required fallbacks)"
    unfolding ps(1) using set_retired_at refreshed_spec(3) [OF distinct] by blast
  then have "set ps \<subseteq> set (predictions base) \<union> set (predictions upd)"
    by (auto simp: merge_history_def merge_updates_def)
  moreover have "distinct (map invocation ps)"
    unfolding ps(1) by (intro distinct_retired_at refreshed_spec(1) distinct)
  ultimately show "validate_manifest is_json \<lparr>manifest_version = TASK_ACTION_MANIFEST_VERSION, task = t, predictions = ps\<rparr>"
    using assms(3) ps(2) valid(3)
    by (auto simp: validate_manifest_def list_all_iff TASK_ACTION_MANIFEST_VERSION_def)
qed

lemma refreshed_update:
  "p \<in> set updates \<Longrightarrow> distinct (map invocation updates) \<Longrightarrow> p \<in> set (refreshed ps updates)"
  by (simp add: refreshed_def last_of_each_id)

section \<open>Properties\<close>

text \<open>
  C18. The bounded history forgets only old entries. Updating a history of distinct invocations is
  refused exactly when there are more protected invocations than a manifest may hold or their own
  entries do not fit its bytes. Otherwise the result is the history with the updates at its end, from
  which a prefix lost its unprotected entries: within both bounds, without duplicates, nothing
  protected missing, no order changed, and each refreshed invocation with its last update.
\<close>

theorem update_forgets_only_old:
  assumes "distinct (map invocation ps)"
  shows "(update_task_predictions_in_order json_len ps updates protect \<in> range Inl \<longleftrightarrow>
      must_refuse json_len protect (refreshed ps updates)) \<and>
    (\<forall>kept. update_task_predictions_in_order json_len ps updates protect = Inr kept \<longrightarrow>
      keeps json_len protect (refreshed ps updates) kept \<and> distinct (map invocation kept) \<and>
      (\<forall>i. i |\<in>| protect \<longrightarrow> i \<in> invocation ` set ps \<union> invocation ` set updates \<longrightarrow> i \<in> invocation ` set kept) \<and>
      (\<forall>p \<in> set kept. invocation p \<in> invocation ` set updates \<longrightarrow>
         find (\<lambda>q. invocation q = invocation p) (rev updates) = Some p))"
proof (intro conjI allI impI ballI)
  note cases = update_cases [OF assms, where json_len = json_len and protect = protect and updates = updates]
  show "update_task_predictions_in_order json_len ps updates protect \<in> range Inl \<longleftrightarrow>
      must_refuse json_len protect (refreshed ps updates)"
    using cases by (auto split: sum.splits)
  fix kept assume "update_task_predictions_in_order json_len ps updates protect = Inr kept"
  with cases show keeps: "keeps json_len protect (refreshed ps updates) kept" by simp
  then obtain k where k: "kept = retired_at k protect (refreshed ps updates)" by (auto simp: keeps_def)
  show "distinct (map invocation kept)"
    unfolding k by (intro distinct_retired_at refreshed_spec assms)
  show "i \<in> invocation ` set kept"
    if prot: "i |\<in>| protect" and i: "i \<in> invocation ` set ps \<union> invocation ` set updates" for i
  proof -
    obtain p where "p \<in> set (refreshed ps updates)" "invocation p = i"
      using i refreshed_spec(2) [OF assms, of updates] by (metis imageE)
    with keeps_protected [OF keeps] prot show ?thesis by blast
  qed
  fix p assume p: "p \<in> set kept" "invocation p \<in> invocation ` set updates"
  then have "p \<in> set (last_of_each updates)"
    using set_retired_at [of k protect "refreshed ps updates"] by (auto simp: k refreshed_def)
  then have "find (\<lambda>q. invocation q = invocation p) (first_of_each [] (rev updates)) = Some p"
    using find_distinct [OF first_of_each_spec(1)] by (simp add: last_of_each_def)
  then show "find (\<lambda>q. invocation q = invocation p) (rev updates) = Some p"
    by (simp add: first_of_each_find)
qed

definition sample_prediction :: "u64 \<Rightarrow> string \<Rightarrow> prediction" where
  "sample_prediction n s =
     \<lparr>invocation = sample_digest n, action = sample_digest 0, adapter = ''rustc'', payload = s\<rparr>"

lemma sample_invocation [simp]: "invocation (sample_prediction n s) = sample_digest n"
  by (simp add: sample_prediction_def)

lemma sample_digest_eq [simp]: "sample_digest m = sample_digest n \<longleftrightarrow> m = n"
  by (simp add: sample_digest_def)

theorem update_forgets_only_old_witness:
  "\<exists>kept. update_task_predictions_in_order (\<lambda>_. 10) [sample_prediction 2 ''a'', sample_prediction 3 ''b'']
       [sample_prediction 2 ''c'', sample_prediction 2 ''d''] {|sample_digest 3|} = Inr kept \<and>
     kept = [sample_prediction 3 ''b'', sample_prediction 2 ''d''] \<and> distinct (map invocation kept)"
proof -
  let ?ps = "[sample_prediction 2 ''a'', sample_prediction 3 ''b'']"
  let ?us = "[sample_prediction 2 ''c'', sample_prediction 2 ''d'']"
  have distinct: "distinct (map invocation ?ps)" by simp
  have "update_task_predictions_in_order (\<lambda>_. 10) ?ps ?us {|sample_digest 3|} =
      Inr [sample_prediction 3 ''b'', sample_prediction 2 ''d'']"
    by (simp add: update_task_predictions_in_order_def refreshed_def last_of_each_def manifest_bytes_def
        MAX_TASK_ACTION_PREDICTIONS_def MAX_TASK_MANIFEST_BYTES_def TASK_MANIFEST_OVERHEAD_BYTES_def
        fcard.rep_eq Let_def)
  with update_forgets_only_old [OF distinct, of "\<lambda>_. 10" ?us "{|sample_digest 3|}"] show ?thesis by blast
qed

lemma merge_result:
  assumes "distinct (map invocation (predictions base))" "distinct (map invocation (predictions upd))"
    and "keeps json_len (required |\<union>| fset_of_list (map invocation (merge_updates base upd required fallbacks)))
      (refreshed (merge_history base upd) (merge_updates base upd required fallbacks)) ps"
  shows "set ps \<subseteq> set (predictions base) \<union> set (predictions upd)"
    "p \<in> set (predictions upd) \<Longrightarrow> invocation p |\<in>| required \<Longrightarrow> p \<in> set ps"
    "p \<in> set ps \<Longrightarrow> invocation p |\<notin>| required \<Longrightarrow> invocation p \<in> invocation ` set (predictions base) \<Longrightarrow> p \<in> set (predictions base)"
    "p \<in> set (predictions base) \<Longrightarrow> invocation p |\<in>| required \<Longrightarrow> invocation p \<in> invocation ` set ps"
proof -
  let ?us = "merge_updates base upd required fallbacks" and ?h = "merge_history base upd"
  note hist = merge_history_distinct [OF assms(1,2)]
  have us: "distinct (map invocation ?us)" using assms(2) by (simp add: merge_updates_def distinct_map_filter)
  have sub: "set ps \<subseteq> set (refreshed ?h ?us)" using assms(3) set_retired_at by (fastforce simp: keeps_def)
  with refreshed_spec(3) [OF hist, of ?us] show "set ps \<subseteq> set (predictions base) \<union> set (predictions upd)"
    by (auto simp: merge_history_def merge_updates_def)
  show "p \<in> set ps" if "p \<in> set (predictions upd)" "invocation p |\<in>| required"
  proof -
    have "p \<in> set ?us" using that by (simp add: merge_updates_def)
    from refreshed_update [OF this us] keeps_protected [OF assms(3)] that(2) show ?thesis by simp
  qed
  show "p \<in> set (predictions base)"
    if p: "p \<in> set ps" "invocation p |\<notin>| required" "invocation p \<in> invocation ` set (predictions base)"
  proof (cases "p \<in> set ?us")
    case True
    then obtain b where "base_prediction base (invocation p) = Some b" "b = p"
      using p(2,3) base_prediction_None [of base "invocation p"]
      by (auto simp: merge_updates_def split: option.splits)
    then show ?thesis by (auto simp: base_prediction_def find_Some_iff)
  next
    case False
    then have "p \<in> set ?h"
      using p(1) sub subsetD [OF last_of_each_spec(3) [of ?us]] by (auto simp: refreshed_def)
    with p(3) show ?thesis by (auto simp: merge_history_def base_prediction_None)
  qed
  show "invocation p \<in> invocation ` set ps" if p: "p \<in> set (predictions base)" "invocation p |\<in>| required"
  proof -
    have "invocation p \<in> invocation ` set (refreshed ?h ?us)"
      using p(1) refreshed_spec(2) [OF hist, of ?us] by (auto simp: merge_history_def)
    then obtain q where "q \<in> set (refreshed ?h ?us)" "invocation q = invocation p" by (metis imageE)
    with keeps_protected [OF assms(3)] p(2) show ?thesis by (metis funionCI imageI)
  qed
qed


definition sample_manifest :: "prediction list \<Rightarrow> manifest" where
  "sample_manifest ps = \<lparr>manifest_version = 1, task = replicate 64 (CHR ''c''), predictions = ps\<rparr>"

lemma sample_manifest_valid:
  assumes "ps \<in> {[sample_prediction 2 ''old''], [sample_prediction 2 ''new'', sample_prediction 3 ''x'']}"
  shows "validate_task_manifest (\<lambda>_. True) (sample_manifest ps) (replicate 64 (CHR ''c'')) = Inr ()"
proof -
  have "valid_digest (sample_digest n)" for n
    by (simp add: valid_digest_iff sample_digest_def parse_algorithm_def list_all_iff is_lower_hex_def)
  then have "validate_prediction (\<lambda>_. True) (sample_prediction n s) = Inr ()"
    if "s \<in> {''old'', ''new'', ''x''}" for n s
    using that by (auto simp: validate_prediction_def constraint_violation_def sample_prediction_def
        algorithm_name_def valid_adapter_name_def is_ascii_alphanumeric_def sample_digest_def
        MAX_ACTION_PREDICTION_PAYLOAD_def)
  moreover have "valid_task_identity (replicate 64 (CHR ''c''))"
    by (simp add: valid_task_identity_def list_all_iff is_lower_hex_def)
  ultimately show ?thesis
    using assms by (auto simp: validate_task_manifest_def validate_manifest_def sample_manifest_def
        MAX_TASK_ACTION_PREDICTIONS_def)
qed


end
