(* ===== verification/Blob_Pack.thy ===== *)
theory Blob_Pack
  imports Protocol Bytes "HOL-Library.Multiset"
begin

text \<open>
  Blob packs (\<open>mbx-cache-core/src/remote_http.rs\<close>, \<open>uploads.rs\<close>): many blobs framed into
  one body. The stream that sends a pack, the decoder that accepts one, the check against the
  response headers, the choice of what to request together and of what to upload together.
  Hexadecimal coding and hashing belong to other packages: \<open>hex_encode\<close>, \<open>hex_decode\<close> and
  \<open>hash_of\<close> are arguments.
\<close>

section \<open>Frames\<close>

definition BLOB_PACK_MAGIC :: "byte list" where
  "BLOB_PACK_MAGIC = [0x4D, 0x42, 0x58, 0x50, 0x41, 0x43, 0x4B, 0x31]"

definition BLOB_PACK_HEADER_BYTES :: nat where "BLOB_PACK_HEADER_BYTES = 1 + 32 + 8"

definition PACK_STREAM_CHUNK_BYTES :: nat where "PACK_STREAM_CHUNK_BYTES = 64 * 1024"

datatype pack_error = Unexpected_eof | Invalid_magic | Invalid_algorithm | Unrequested_digest
  | Duplicate_digest | Pack_too_large | Payload_overflow | Blob_incomplete | Verification_failed
  | Content_length_mismatch | Blob_count_mismatch | Payload_bytes_mismatch
  | Bad_digest digest_error | Bad_hex | Hash_not_32_bytes | Source_missing

definition algorithm_tag :: "digest_algorithm \<Rightarrow> byte" where
  "algorithm_tag a = (case a of Blake3 \<Rightarrow> 1 | Sha256 \<Rightarrow> 2)"

definition tag_algorithm :: "byte \<Rightarrow> digest_algorithm option" where
  "tag_algorithm b = (if b = 1 then Some Blake3 else if b = 2 then Some Sha256 else None)"

definition blob_pack_frame_header ::
  "(string \<Rightarrow> byte list option) \<Rightarrow> digest \<Rightarrow> pack_error + byte list" where
  "blob_pack_frame_header hex_decode d =
     (case algorithm_kind d of
        Inl e \<Rightarrow> Inl (Bad_digest e)
      | Inr a \<Rightarrow>
          (case hex_decode (hash d) of
             None \<Rightarrow> Inl Bad_hex
           | Some h \<Rightarrow>
               if length h \<noteq> 32 then Inl Hash_not_32_bytes
               else Inr (algorithm_tag a # h @ be_bytes 8 (dsize d))))"

text \<open>A member of a pack: its header, its declared length and the bytes its source holds.\<close>

record pack_member =
  header :: "byte list"
  payload_bytes :: nat
  source :: "byte list option"

fun blob_pack_members ::
  "(string \<Rightarrow> byte list option) \<Rightarrow> (digest \<times> byte list option) list \<Rightarrow> pack_error + pack_member list" where
  "blob_pack_members hex_decode [] = Inr []"
| "blob_pack_members hex_decode ((d, src) # us) =
     (case blob_pack_frame_header hex_decode d of
        Inl e \<Rightarrow> Inl e
      | Inr h \<Rightarrow>
          (case blob_pack_members hex_decode us of
             Inl e \<Rightarrow> Inl e
           | Inr ms \<Rightarrow> Inr (\<lparr>header = h, payload_bytes = dsize d, source = src\<rparr> # ms)))"

section \<open>The upload stream\<close>

text \<open>\<open>Payload i n bs\<close>: member \<open>i\<close>, \<open>n\<close> bytes to go, the source stands before \<open>bs\<close>.\<close>

datatype stream_state = Magic | Header nat | Payload nat nat "byte list" | Done | Failed pack_error

text \<open>
  One item of the stream: the state and the bytes sent so far. A read returns any positive number
  of bytes up to the chunk, or nothing at the end of the source.
\<close>

inductive stream_step ::
  "pack_member list \<Rightarrow> stream_state \<times> byte list \<Rightarrow> stream_state \<times> byte list \<Rightarrow> bool"
  for members where
  magic: "stream_step members (Magic, out) (Header 0, out @ BLOB_PACK_MAGIC)"
| finish: "length members \<le> i \<Longrightarrow> stream_step members (Header i, out) (Done, out)"
| open_member: "i < length members \<Longrightarrow> source (members ! i) = Some bs \<Longrightarrow>
    stream_step members (Header i, out)
      (Payload i (payload_bytes (members ! i)) bs, out @ header (members ! i))"
| missing: "i < length members \<Longrightarrow> source (members ! i) = None \<Longrightarrow>
    stream_step members (Header i, out) (Failed Source_missing, out)"
| next_member: "stream_step members (Payload i 0 bs, out) (Header (Suc i), out)"
| read_some: "0 < n \<Longrightarrow> 0 < k \<Longrightarrow> k \<le> min n PACK_STREAM_CHUNK_BYTES \<Longrightarrow> k \<le> length bs \<Longrightarrow>
    stream_step members (Payload i n bs, out) (Payload i (n - k) (drop k bs), out @ take k bs)"
| ended: "0 < n \<Longrightarrow> stream_step members (Payload i n [], out) (Failed Unexpected_eof, out)"

section \<open>The decoder\<close>

record pack_stats =
  blob_count :: u64
  stat_payload_bytes :: u64
  framed_bytes :: u64

record pack_metadata =
  content_length :: "u64 option"
  meta_blob_count :: "u64 option"
  meta_payload_bytes :: "u64 option"

definition differs :: "u64 option \<Rightarrow> u64 \<Rightarrow> bool" where
  "differs declared n = (case declared of Some m \<Rightarrow> m \<noteq> n | None \<Rightarrow> False)"

definition validate_metadata_of :: "pack_metadata \<Rightarrow> pack_stats \<Rightarrow> pack_error + pack_stats" where
  "validate_metadata_of m s =
     (if differs (content_length m) (framed_bytes s) then Inl Content_length_mismatch
      else if differs (meta_blob_count m) (blob_count s) then Inl Blob_count_mismatch
      else if differs (meta_payload_bytes m) (stat_payload_bytes s) then Inl Payload_bytes_mismatch
      else Inr \<lparr>blob_count = unwrap_or (meta_blob_count m) (blob_count s),
             stat_payload_bytes = unwrap_or (meta_payload_bytes m) (stat_payload_bytes s),
             framed_bytes = unwrap_or (content_length m) (framed_bytes s)\<rparr>)"

text \<open>
  The digest of the frame at the front and the bytes after its header; \<open>None\<close> when the body ends
  before the header does.
\<close>

definition frame_digest :: "(byte list \<Rightarrow> string) \<Rightarrow> digest_algorithm \<Rightarrow> byte list \<Rightarrow> digest" where
  "frame_digest hex_encode a bs =
     \<lparr>algorithm = algorithm_name a, hash = hex_encode (take 32 bs),
      dsize = of_be_bytes (take 8 (drop 32 bs))\<rparr>"

text \<open>
  The frames of a body, with the blobs and totals so far. A blob is its digest and its bytes.
\<close>

function decode_frames ::
  "(digest_algorithm \<Rightarrow> byte list \<Rightarrow> string) \<Rightarrow> (byte list \<Rightarrow> string) \<Rightarrow> digest set \<Rightarrow>
   (digest \<times> byte list) list \<Rightarrow> u64 \<Rightarrow> u64 \<Rightarrow> byte list \<Rightarrow>
   pack_error + (digest \<times> byte list) list \<times> u64 \<times> u64" where
  "decode_frames hash_of hex_encode requested blobs total_payload framed body =
     (case body of
        [] \<Rightarrow> Inr (blobs, total_payload, framed)
      | tag # rest \<Rightarrow>
          (case tag_algorithm tag of
             None \<Rightarrow> Inl Invalid_algorithm
           | Some a \<Rightarrow>
               if length rest < 40 then Inl Unexpected_eof
               else
                 (let d = frame_digest hex_encode a rest; rest = drop 40 rest
                  in if d \<notin> requested then Inl Unrequested_digest
                     else if d \<in> fst ` set blobs then Inl Duplicate_digest
                     else
                       (case Option.bind (checked_add framed BLOB_PACK_HEADER_BYTES)
                               (\<lambda>n. checked_add n (dsize d)) of
                          None \<Rightarrow> Inl Pack_too_large
                        | Some framed' \<Rightarrow>
                            (case checked_add total_payload (dsize d) of
                               None \<Rightarrow> Inl Payload_overflow
                             | Some payload' \<Rightarrow>
                                 if length rest < dsize d then Inl Blob_incomplete
                                 else if hash_of a (take (dsize d) rest) \<noteq> hash d
                                 then Inl Verification_failed
                                 else decode_frames hash_of hex_encode requested
                                        (blobs @ [(d, take (dsize d) rest)]) payload' framed'
                                        (drop (dsize d) rest))))))"
  by pat_completeness auto

termination decode_frames
  by (relation "measure (\<lambda>(_, _, _, _, _, _, body). length body)") auto

declare decode_frames.simps [simp del]

definition decode_blob_pack ::
  "(digest_algorithm \<Rightarrow> byte list \<Rightarrow> string) \<Rightarrow> (byte list \<Rightarrow> string) \<Rightarrow> pack_metadata \<Rightarrow> digest set \<Rightarrow>
   byte list \<Rightarrow> pack_error + (digest \<times> byte list) list \<times> pack_stats" where
  "decode_blob_pack hash_of hex_encode metadata requested body =
     (if length body < 8 then Inl Unexpected_eof
      else if take 8 body \<noteq> BLOB_PACK_MAGIC then Inl Invalid_magic
      else (case decode_frames hash_of hex_encode requested [] 0 8 (drop 8 body) of
          Inl e \<Rightarrow> Inl e
        | Inr (blobs, payload_total, framed) \<Rightarrow>
            (case validate_metadata_of metadata
                    \<lparr>blob_count = length blobs, stat_payload_bytes = payload_total, framed_bytes = framed\<rparr> of
               Inl e \<Rightarrow> Inl e
             | Inr stats \<Rightarrow> Inr (blobs, stats))))"

section \<open>What to request and what to send together\<close>

record pack_limits =
  max_items :: nat
  max_bytes :: u64

fun chunk_loop ::
  "pack_limits \<Rightarrow> digest list \<Rightarrow> digest list \<Rightarrow> u64 \<Rightarrow> digest list \<Rightarrow> digest_error + digest list" where
  "chunk_loop limits seen chunk chunk_bytes [] = Inr chunk"
| "chunk_loop limits seen chunk chunk_bytes (d # ds) =
     (case validate_digest d of
        Inl e \<Rightarrow> Inl e
      | Inr _ \<Rightarrow>
          if d \<in> set seen \<or> dsize d > max_bytes limits
          then chunk_loop limits (d # seen) chunk chunk_bytes ds
          else if length chunk = max_items limits \<or>
              saturating_add chunk_bytes (dsize d) > max_bytes limits
          then Inr chunk
          else chunk_loop limits (d # seen) (chunk @ [d]) (saturating_add chunk_bytes (dsize d)) ds)"

definition blob_pack_chunk :: "digest list \<Rightarrow> pack_limits \<Rightarrow> digest_error + digest list" where
  "blob_pack_chunk ds limits = chunk_loop limits [] [] 0 ds"

definition MAX_STAGED_BLOB_PACK_BYTES :: nat where "MAX_STAGED_BLOB_PACK_BYTES = 256 * 1024 * 1024"
definition MAX_STAGED_BLOB_PACK_ITEMS :: nat where "MAX_STAGED_BLOB_PACK_ITEMS = 2 * 1024"
definition BLOB_PACK_TIMEOUT_BYTES_PER_UNIT :: nat where
  "BLOB_PACK_TIMEOUT_BYTES_PER_UNIT = MAX_STAGED_BLOB_PACK_BYTES div 4"
definition BLOB_PACK_TIMEOUT_ITEMS_PER_UNIT :: nat where
  "BLOB_PACK_TIMEOUT_ITEMS_PER_UNIT = MAX_STAGED_BLOB_PACK_ITEMS div 4"

text \<open>Durations are nanoseconds, up to the largest \<open>Duration\<close>.\<close>

definition DURATION_MAX :: nat where "DURATION_MAX = u64_max * 1000000000 + 999999999"

definition blob_pack_download_timeout :: "nat \<Rightarrow> digest list \<Rightarrow> nat" where
  "blob_pack_download_timeout base ds =
     (let bytes = foldl (\<lambda>t d. saturating_add t (dsize d)) 0 ds;
          byte_units = div_ceil bytes BLOB_PACK_TIMEOUT_BYTES_PER_UNIT;
          item_units = div_ceil (length ds) BLOB_PACK_TIMEOUT_ITEMS_PER_UNIT;
          multiplier = max (max byte_units item_units) 1
      in min (base * min multiplier (2 ^ 32 - 1)) DURATION_MAX)"

definition close_pack :: "'m list \<Rightarrow> 'm list list \<Rightarrow> 'm list \<Rightarrow> 'm list list \<times> 'm list" where
  "close_pack pack packs singles =
     (if length pack < 2 then (packs, singles @ pack) else (packs @ [pack], singles))"

text \<open>\<open>size_of\<close> is the declared size of a queued blob.\<close>

fun group_loop ::
  "('m \<Rightarrow> u64) \<Rightarrow> pack_limits \<Rightarrow> 'm list \<Rightarrow> 'm list list \<Rightarrow> 'm list \<Rightarrow> 'm list \<Rightarrow> u64 \<Rightarrow>
   'm list list \<times> 'm list" where
  "group_loop size_of limits [] packs singles current current_bytes = close_pack current packs singles"
| "group_loop size_of limits (m # ms) packs singles current current_bytes =
     (if size_of m > max_bytes limits
      then group_loop size_of limits ms packs (singles @ [m]) current current_bytes
      else
        (let would_exceed = (length current \<ge> max_items limits \<or>
               saturating_add current_bytes (size_of m) > max_bytes limits)
         in if would_exceed \<and> current \<noteq> []
            then (let (packs, singles) = close_pack current packs singles
                  in group_loop size_of limits ms packs singles [m] (saturating_add 0 (size_of m)))
            else group_loop size_of limits ms packs singles (current @ [m])
                   (saturating_add current_bytes (size_of m))))"

definition group_into_packs ::
  "('m \<Rightarrow> u64) \<Rightarrow> 'm list \<Rightarrow> pack_limits \<Rightarrow> 'm list list \<times> 'm list" where
  "group_into_packs size_of ms limits = group_loop size_of limits ms [] [] [] 0"

section \<open>What the stream sends\<close>

definition frame_of :: "pack_member \<Rightarrow> byte list" where
  "frame_of m = header m @ take (payload_bytes m) (unwrap_or (source m) [])"

definition framed :: "pack_member list \<Rightarrow> byte list" where
  "framed ms = concat (map frame_of ms)"

definition complete :: "pack_member \<Rightarrow> bool" where
  "complete m \<longleftrightarrow> (case source m of Some bs \<Rightarrow> payload_bytes m \<le> length bs | None \<Rightarrow> False)"

text \<open>What is still to be sent from a state.\<close>

fun to_send :: "pack_member list \<Rightarrow> stream_state \<Rightarrow> byte list option" where
  "to_send ms Magic = Some (BLOB_PACK_MAGIC @ framed ms)"
| "to_send ms (Header i) = Some (framed (drop i ms))"
| "to_send ms (Payload i n bs) = Some (take n bs @ framed (drop (Suc i) ms))"
| "to_send ms Done = Some []"
| "to_send ms (Failed e) = None"

text \<open>Members already sent were complete; the one being sent has been read in order.\<close>

fun sent_ok :: "pack_member list \<Rightarrow> stream_state \<Rightarrow> bool" where
  "sent_ok ms Magic \<longleftrightarrow> True"
| "sent_ok ms (Header i) \<longleftrightarrow> list_all complete (take i ms)"
| "sent_ok ms (Payload i n bs) \<longleftrightarrow>
     list_all complete (take i ms) \<and> i < length ms \<and> n \<le> payload_bytes (ms ! i) \<and>
     (case source (ms ! i) of
        Some src \<Rightarrow> length src = payload_bytes (ms ! i) - n + length bs | None \<Rightarrow> False)"
| "sent_ok ms Done \<longleftrightarrow> list_all complete ms"
| "sent_ok ms (Failed e) \<longleftrightarrow> \<not> list_all complete ms"

lemma stream_step_sent:
  assumes "stream_step ms (st, out) (st', out')" "sent_ok ms st" "to_send ms st = Some rest"
  shows "sent_ok ms st' \<and> (\<forall>rest'. to_send ms st' = Some rest' \<longrightarrow> out' @ rest' = out @ rest)"
  using assms
proof (cases rule: stream_step.cases)
  case (open_member i bs)
  have "framed (drop i ms) = frame_of (ms ! i) @ framed (drop (Suc i) ms)"
    using open_member(4) by (simp add: framed_def Cons_nth_drop_Suc [symmetric])
  with open_member assms(2,3) show ?thesis by (simp add: frame_of_def)
next
  case (missing i)
  then have "\<not> complete (ms ! i)" "ms ! i \<in> set ms" by (simp_all add: complete_def)
  with missing show ?thesis by (auto simp: list_all_iff)
next
  case (next_member i bs)
  then have "complete (ms ! i)" "i < length ms"
    using assms(2) by (auto simp: complete_def split: option.splits)
  with next_member assms(2,3) show ?thesis by (simp add: take_Suc_conv_app_nth)
next
  case (read_some n k bs i)
  have "take n bs = take k bs @ take (n - k) (drop k bs)"
    using read_some by (metis le_add_diff_inverse min.boundedE take_add)
  with read_some assms(2,3) show ?thesis by (auto split: option.splits)
next
  case (ended n i)
  then have "\<not> complete (ms ! i)" "ms ! i \<in> set ms"
    using assms(2) by (auto simp: complete_def split: option.splits)
  with ended show ?thesis by (auto simp: list_all_iff)
qed (auto simp: framed_def)

interpretation sending: guarded_steps "stream_step ms" "\<lambda>s. s = (Magic, [])"
  "\<lambda>(st, out). sent_ok ms st \<and> (\<forall>rest. to_send ms st = Some rest \<longrightarrow> out @ rest = BLOB_PACK_MAGIC @ framed ms)" for ms
proof (unfold_locales, simp, clarify)
  fix st out st' out'
  assume step: "stream_step ms (st, out) (st', out')"
    and here: "sent_ok ms st" "\<forall>rest. to_send ms st = Some rest \<longrightarrow> out @ rest = BLOB_PACK_MAGIC @ framed ms"
  show "sent_ok ms st' \<and> (\<forall>rest. to_send ms st' = Some rest \<longrightarrow> out' @ rest = BLOB_PACK_MAGIC @ framed ms)"
  proof (cases "to_send ms st")
    case None
    then obtain e where "st = Failed e" by (cases st) auto
    with step show ?thesis by (auto elim: stream_step.cases)
  next
    case (Some rest)
    from stream_step_sent [OF step here(1) Some] here(2) Some show ?thesis by auto
  qed
qed

lemma stream_run_sent:
  assumes "(stream_step ms)\<^sup>*\<^sup>* (Magic, []) (st, out)"
  shows "sent_ok ms st \<and> (\<forall>rest. to_send ms st = Some rest \<longrightarrow> out @ rest = BLOB_PACK_MAGIC @ framed ms)"
  using sending.reached_holds [OF assms] by simp

text \<open>Every stream ends.\<close>

fun rank :: "pack_member list \<Rightarrow> stream_state \<Rightarrow> nat \<times> nat" where
  "rank ms Magic = (2 * length ms + 3, 0)"
| "rank ms (Header i) = (if i < length ms then 2 * (length ms - i) + 2 else 1, 0)"
| "rank ms (Payload i n bs) = (if i < length ms then 2 * (length ms - i) + 1 else 2, n)"
| "rank ms Done = (0, 0)"
| "rank ms (Failed e) = (0, 0)"

lemma stream_step_rank:
  "stream_step ms (st, out) (st', out') \<Longrightarrow>
   (rank ms st', rank ms st) \<in> less_than <*lex*> less_than"
  by (cases rule: stream_step.cases) auto

lemma stream_can_step:
  "st \<noteq> Done \<Longrightarrow> (\<And>e. st \<noteq> Failed e) \<Longrightarrow> \<exists>st' out'. stream_step ms (st, out) (st', out')"
proof (cases st)
  case Magic
  then show ?thesis by (blast intro: stream_step.magic)
next
  case (Header i)
  then show ?thesis
    by (cases "i < length ms"; cases "source (ms ! i)")
      (force intro: stream_step.open_member stream_step.missing stream_step.finish)+
next
  case (Payload i n bs)
  show ?thesis
  proof (cases "n = 0 \<or> bs = []")
    case True
    then show ?thesis by (cases n) (auto simp: Payload intro: stream_step.next_member stream_step.ended)
  next
    case False
    then have "stream_step ms (Payload i n bs, out) (Payload i (n - 1) (drop 1 bs), out @ take 1 bs)"
      by (intro stream_step.read_some) (auto simp: PACK_STREAM_CHUNK_BYTES_def Suc_le_eq)
    with Payload show ?thesis by blast
  qed
qed auto

lemma stream_ends: "\<exists>st' out'. (stream_step ms)\<^sup>*\<^sup>* (st, out) (st', out') \<and> (st' = Done \<or> (\<exists>e. st' = Failed e))"
proof (induction "rank ms st" arbitrary: st out rule: wf_induct_rule [OF wf_lex_prod [OF wf_less_than wf_less_than]])
  case 1
  show ?case
  proof (cases "st = Done \<or> (\<exists>e. st = Failed e)")
    case False
    then obtain st1 out1 where step: "stream_step ms (st, out) (st1, out1)"
      using stream_can_step by blast
    from 1 [OF stream_step_rank [OF step]] converse_rtranclp_into_rtranclp [of "stream_step ms", OF step]
    show ?thesis by blast
  qed blast
qed

section \<open>What the decoder accepts\<close>

text \<open>What hexadecimal coding promises.\<close>

definition hex_codec :: "(byte list \<Rightarrow> string) \<Rightarrow> (string \<Rightarrow> byte list option) \<Rightarrow> bool" where
  "hex_codec hex_encode hex_decode \<longleftrightarrow>
     (\<forall>bs. length (hex_encode bs) = 2 * length bs) \<and>
     (\<forall>s. list_all is_lower_hex s \<and> even (length s) \<longrightarrow>
        (\<exists>bs. hex_decode s = Some bs \<and> hex_encode bs = s))"

text \<open>A blob that verifies against its digest.\<close>

definition verified ::
  "(digest_algorithm \<Rightarrow> byte list \<Rightarrow> string) \<Rightarrow> digest \<times> byte list \<Rightarrow> bool" where
  "verified hash_of b \<longleftrightarrow>
     length (snd b) = dsize (fst b) \<and>
     (\<exists>a. algorithm (fst b) = algorithm_name a \<and> hash (fst b) = hash_of a (snd b))"

lemma tag_of_algorithm [simp]: "tag_algorithm (algorithm_tag a) = Some a"
  by (cases a) (simp_all add: tag_algorithm_def algorithm_tag_def)

lemma header_of_valid:
  assumes "hex_codec hex_encode hex_decode" "valid_digest d"
  obtains a h where "algorithm d = algorithm_name a" "hex_encode h = hash d" "length h = 32"
    "blob_pack_frame_header hex_decode d = Inr (algorithm_tag a # h @ be_bytes 8 (dsize d))"
proof -
  obtain a where a: "parse_algorithm (algorithm d) = Some a" "length (hash d) = 64" "list_all is_lower_hex (hash d)"
    using assms(2) by (auto simp: valid_digest_iff)
  then obtain h where h: "hex_decode (hash d) = Some h" "hex_encode h = hash d"
    using assms(1) by (auto simp: hex_codec_def)
  have "2 * length h = 64" using assms(1) h(2) a(2) by (metis hex_codec_def)
  then show thesis
    using a h parse_algorithm_Some [OF a(1)]
    by (intro that [of a h]) (auto simp: blob_pack_frame_header_def algorithm_kind_def)
qed

lemma frame_digest_header:
  assumes "length h = 32" "hex_encode h = hash d" "algorithm d = algorithm_name a" "dsize d \<le> u64_max"
  shows "frame_digest hex_encode a (h @ be_bytes 8 (dsize d) @ rest) = d"
proof -
  have "dsize d < 256 ^ 8" using assms(4) by (simp add: u64_max_def)
  with assms show ?thesis by (simp add: frame_digest_def)
qed

lemma decode_frame:
  assumes "hex_codec hex_encode hex_decode" "valid_digest d" "verified hash_of (d, bs)"
    and "d \<in> requested" "d \<notin> fst ` set blobs"
    and "fr + BLOB_PACK_HEADER_BYTES + dsize d \<le> u64_max" "pl + dsize d \<le> u64_max"
    and "blob_pack_frame_header hex_decode d = Inr fh"
  shows "decode_frames hash_of hex_encode requested blobs pl fr (fh @ bs @ rest) =
    decode_frames hash_of hex_encode requested (blobs @ [(d, bs)]) (pl + dsize d)
      (fr + BLOB_PACK_HEADER_BYTES + dsize d) rest"
proof -
  obtain a h where h: "algorithm d = algorithm_name a" "hex_encode h = hash d" "length h = 32"
    "fh = algorithm_tag a # h @ be_bytes 8 (dsize d)"
    using header_of_valid [OF assms(1,2)] assms(8) by (metis sum.inject(2))
  have size: "dsize d \<le> u64_max" "length bs = dsize d" using assms(3,7) by (auto simp: verified_def)
  have hash: "hash_of a bs = hash d"
    using assms(3) h(1) by (auto simp: verified_def) (metis option.inject parse_algorithm_name)
  show ?thesis
    using assms(4-7) size hash h(3)
    by (subst decode_frames.simps)
      (simp add: h(4) frame_digest_header [of h hex_encode, OF h(3,2,1) size(1)] checked_add_def Let_def)
qed

lemma decode_packed:
  assumes "hex_codec hex_encode hex_decode"
    and "blob_pack_members hex_decode (map (\<lambda>(d, bs). (d, Some bs)) us) = Inr ms"
    and "\<forall>b \<in> set us. valid_digest (fst b) \<and> verified hash_of b \<and> fst b \<in> requested"
    and "distinct (map fst us)" "fst ` set blobs \<inter> fst ` set us = {}"
    and "fr + sum_list (map (\<lambda>b. BLOB_PACK_HEADER_BYTES + dsize (fst b)) us) \<le> u64_max"
    and "pl + sum_list (map (\<lambda>b. dsize (fst b)) us) \<le> u64_max"
  shows "decode_frames hash_of hex_encode requested blobs pl fr (framed ms) =
    Inr (blobs @ us, pl + sum_list (map (\<lambda>b. dsize (fst b)) us),
      fr + sum_list (map (\<lambda>b. BLOB_PACK_HEADER_BYTES + dsize (fst b)) us))"
  using assms
proof (induction us arbitrary: ms blobs fr pl)
  case Nil
  then show ?case by (simp add: framed_def decode_frames.simps)
next
  case (Cons u us)
  obtain d bs where u: "u = (d, bs)" by fastforce
  obtain fh ms' where fh: "blob_pack_frame_header hex_decode d = Inr fh"
      "blob_pack_members hex_decode (map (\<lambda>(d, bs). (d, Some bs)) us) = Inr ms'"
      "ms = \<lparr>header = fh, payload_bytes = dsize d, source = Some bs\<rparr> # ms'"
    using Cons.prems(2) by (auto simp: u split: sum.splits)
  have d: "valid_digest d" "verified hash_of (d, bs)" "d \<in> requested" using Cons.prems(3) by (auto simp: u)
  have frame: "framed ms = fh @ bs @ framed ms'"
    using d(2) by (simp add: fh(3) framed_def frame_of_def verified_def)
  have "decode_frames hash_of hex_encode requested blobs pl fr (framed ms) =
      decode_frames hash_of hex_encode requested (blobs @ [(d, bs)]) (pl + dsize d)
        (fr + BLOB_PACK_HEADER_BYTES + dsize d) (framed ms')"
    unfolding frame using Cons.prems(5-7)
    by (intro decode_frame [OF assms(1) d(1,2,3) _ _ _ fh(1)]) (auto simp: u)
  also have "\<dots> = Inr ((blobs @ [(d, bs)]) @ us, pl + dsize d + sum_list (map (\<lambda>b. dsize (fst b)) us),
      fr + BLOB_PACK_HEADER_BYTES + dsize d + sum_list (map (\<lambda>b. BLOB_PACK_HEADER_BYTES + dsize (fst b)) us))"
    using Cons.prems by (intro Cons.IH fh(2)) (auto simp: u)
  finally show ?case by (simp add: u add.assoc)
qed

lemma decode_frames_sound:
  assumes "decode_frames hash_of hex_encode requested blobs pl fr body = Inr (blobs', pl', fr')"
  shows "\<exists>new. blobs' = blobs @ new \<and> (\<forall>b \<in> set new. fst b \<in> requested \<and> verified hash_of b) \<and>
    (distinct (map fst blobs) \<longrightarrow> distinct (map fst blobs')) \<and>
    pl' = pl + sum_list (map (\<lambda>b. dsize (fst b)) new) \<and> fr' = fr + length body \<and>
    length body = sum_list (map (\<lambda>b. BLOB_PACK_HEADER_BYTES + dsize (fst b)) new)"
  using assms
proof (induction hash_of hex_encode requested blobs pl fr body arbitrary: blobs' pl' fr' rule: decode_frames.induct)
  case (1 hash_of hex_encode requested blobs pl fr body)
  show ?case
  proof (cases body)
    case Nil
    then show ?thesis using 1(2) by (simp add: decode_frames.simps)
  next
    case (Cons tag rest)
    obtain a where a: "tag_algorithm tag = Some a"
      using 1(2) by (subst (asm) decode_frames.simps) (auto simp: Cons split: option.splits)
    let ?d = "frame_digest hex_encode a rest" and ?r = "drop 40 rest"
    let ?bs = "take (dsize ?d) ?r"
    note 2 = 1(2) [unfolded Cons decode_frames.simps [of hash_of hex_encode requested blobs pl fr "tag # rest"]
        a Let_def list.case option.case]
    have ok: "\<not> length rest < 40" "\<not> ?d \<notin> requested" "\<not> ?d \<in> fst ` set blobs"
      "\<not> length ?r < dsize ?d" "\<not> hash_of a ?bs \<noteq> hash ?d"
      using 2 by (auto split: if_splits option.splits)
    obtain f1 p1 where sums: "Option.bind (checked_add fr BLOB_PACK_HEADER_BYTES) (\<lambda>n. checked_add n (dsize ?d)) = Some f1"
      "checked_add pl (dsize ?d) = Some p1"
      using 2 ok by (auto split: if_splits option.splits)
    have rec: "decode_frames hash_of hex_encode requested (blobs @ [(?d, ?bs)]) p1 f1 (drop (dsize ?d) ?r) = Inr (blobs', pl', fr')"
      using 2 ok sums by simp
    from 1(1) [OF Cons a ok(1) refl refl ok(2,3) sums ok(4,5) rec] obtain new where new:
      "blobs' = (blobs @ [(?d, ?bs)]) @ new" "\<forall>b \<in> set new. fst b \<in> requested \<and> verified hash_of b"
      "distinct (map fst (blobs @ [(?d, ?bs)])) \<longrightarrow> distinct (map fst blobs')"
      "pl' = p1 + sum_list (map (\<lambda>b. dsize (fst b)) new)" "fr' = f1 + length (drop (dsize ?d) ?r)"
      "length (drop (dsize ?d) ?r) = sum_list (map (\<lambda>b. BLOB_PACK_HEADER_BYTES + dsize (fst b)) new)" by blast
    have "p1 = pl + dsize ?d" "f1 = fr + BLOB_PACK_HEADER_BYTES + dsize ?d"
      using sums by (auto simp: checked_add_def split: if_splits bind_splits)
    moreover have "verified hash_of (?d, ?bs)"
      using ok by (auto simp: verified_def frame_digest_def)
    ultimately show ?thesis
      using new ok Cons by (intro exI [of _ "(?d, ?bs) # new"]) (auto simp: BLOB_PACK_HEADER_BYTES_def)
  qed
qed

section \<open>Grouping\<close>

definition pack_ok :: "('m \<Rightarrow> u64) \<Rightarrow> pack_limits \<Rightarrow> 'm list \<Rightarrow> bool" where
  "pack_ok size_of limits pack \<longleftrightarrow>
     2 \<le> length pack \<and> length pack \<le> max_items limits \<and>
     sum_list (map size_of pack) \<le> max_bytes limits"

definition open_ok :: "('m \<Rightarrow> u64) \<Rightarrow> pack_limits \<Rightarrow> 'm list \<Rightarrow> u64 \<Rightarrow> bool" where
  "open_ok size_of limits current n \<longleftrightarrow>
     n = sum_list (map size_of current) \<and> n \<le> max_bytes limits \<and>
     (length current \<le> 1 \<or> length current \<le> max_items limits)"

lemma saturating_add_over:
  "limit < u64_max \<Longrightarrow> limit < saturating_add a b \<longleftrightarrow> limit < a + b"
  by (auto simp: saturating_add_def)

lemma saturating_add_exact: "a + b \<le> limit \<Longrightarrow> limit < u64_max \<Longrightarrow> saturating_add a b = a + b"
  by (simp add: saturating_add_def)

lemma close_pack_spec:
  assumes "close_pack current packs singles = (packs', singles')" "open_ok size_of limits current n"
    and "\<forall>p \<in> set packs. pack_ok size_of limits p"
  shows "(\<forall>p \<in> set packs'. pack_ok size_of limits p) \<and>
    mset (concat packs') + mset singles' = mset (concat packs) + mset singles + mset current"
  using assms by (auto simp: close_pack_def open_ok_def pack_ok_def split: if_splits)

lemma group_loop_spec:
  assumes "group_loop size_of limits ms packs singles current n = (packs', singles')"
    and "max_bytes limits < u64_max" "open_ok size_of limits current n"
    and "\<forall>p \<in> set packs. pack_ok size_of limits p"
  shows "(\<forall>p \<in> set packs'. pack_ok size_of limits p) \<and>
    mset (concat packs') + mset singles' = mset (concat packs) + mset singles + mset current + mset ms"
  using assms
proof (induction size_of limits ms packs singles current n rule: group_loop.induct)
  case (1 size_of limits packs singles current n)
  then show ?case using close_pack_spec [OF _ 1(3,4)] by simp
next
  case (2 size_of limits m ms packs singles current n)
  show ?case
  proof (cases "size_of m > max_bytes limits")
    case True
    then show ?thesis using 2(1) [OF True] 2(4-7) by simp
  next
    case small: False
    let ?over = "length current \<ge> max_items limits \<or> saturating_add n (size_of m) > max_bytes limits"
    show ?thesis
    proof (cases "?over \<and> current \<noteq> []")
      case True
      obtain packs1 singles1 where close: "close_pack current packs singles = (packs1, singles1)" by fastforce
      have "open_ok size_of limits [m] (saturating_add 0 (size_of m))"
        using small 2(5) by (simp add: open_ok_def saturating_add_def)
      from 2(2) [OF small refl True close [symmetric] refl _ 2(5) this] close_pack_spec [OF close 2(6,7)]
      show ?thesis using 2(4) small True close by simp
    next
      case False
      have "open_ok size_of limits (current @ [m]) (saturating_add n (size_of m))"
        using False small 2(5,6) saturating_add_over [OF 2(5), of n "size_of m"]
        by (auto simp: open_ok_def saturating_add_exact not_less)
      from 2(3) [OF small refl False _ 2(5) this 2(7)] show ?thesis
        using 2(4) small False by (simp add: Let_def)
    qed
  qed
qed

lemma chunk_loop_spec:
  assumes "chunk_loop limits seen chunk n ds = Inr chunk'" "max_bytes limits < u64_max"
    and "n = sum_list (map dsize chunk)" "n \<le> max_bytes limits" "length chunk \<le> max_items limits"
    and "distinct chunk" "set chunk \<subseteq> set seen"
  shows "distinct chunk' \<and> length chunk' \<le> max_items limits \<and>
    sum_list (map dsize chunk') \<le> max_bytes limits \<and> set chunk' \<subseteq> set chunk \<union> set ds \<and>
    set chunk \<subseteq> set chunk'"
  using assms
proof (induction limits seen chunk n ds rule: chunk_loop.induct)
  case (2 limits seen chunk n d ds)
  show ?case
  proof (cases "d \<in> set seen \<or> dsize d > max_bytes limits")
    case True
    have "set chunk \<subseteq> set (d # seen)" using 2(9) by auto
    with 2(1) [OF _ True _ 2(4-8)] 2(3) True show ?thesis by (auto split: sum.splits)
  next
    case keep: False
    show ?thesis
    proof (cases "length chunk = max_items limits \<or> saturating_add n (dsize d) > max_bytes limits")
      case True
      with 2(3-9) keep show ?thesis by (auto split: sum.splits)
    next
      case False
      have sum: "n + dsize d \<le> max_bytes limits"
        using False saturating_add_over [OF 2(4), of n "dsize d"] by simp
      have inv: "saturating_add n (dsize d) = sum_list (map dsize (chunk @ [d]))"
        "saturating_add n (dsize d) \<le> max_bytes limits" "length (chunk @ [d]) \<le> max_items limits"
        "distinct (chunk @ [d])" "set (chunk @ [d]) \<subseteq> set (d # seen)"
        using sum 2(4-9) keep False by (auto simp: saturating_add_exact)
      with 2(2) [OF _ keep False _ 2(4) inv] 2(3) keep False show ?thesis by (auto split: sum.splits)
    qed
  qed
qed auto

lemma chunk_loop_progress:
  assumes "chunk_loop limits seen [] 0 ds = Inr chunk'" "0 < max_items limits" "max_bytes limits < u64_max"
    and "d \<in> set ds" "d \<notin> set seen" "dsize d \<le> max_bytes limits"
  shows "chunk' \<noteq> []"
  using assms
proof (induction ds arbitrary: seen)
  case (Cons e ds)
  show ?case
  proof (cases "e \<in> set seen \<or> dsize e > max_bytes limits")
    case True
    with Cons.prems have "d \<noteq> e" by auto
    with True Cons.prems show ?thesis by (intro Cons.IH [of "e # seen"]) (auto split: sum.splits)
  next
    case False
    have fits: "\<not> (length [] = max_items limits \<or> saturating_add 0 (dsize e) > max_bytes limits)"
      using False Cons.prems(2,3) by (simp add: saturating_add_def)
    then have loop: "chunk_loop limits (e # seen) [e] (saturating_add 0 (dsize e)) ds = Inr chunk'"
      using Cons.prems(1) False by (auto split: sum.splits)
    have "set [e] \<subseteq> set chunk'"
      using chunk_loop_spec [OF loop Cons.prems(3)] fits Cons.prems(2,3) False
      by (auto simp: saturating_add_def)
    then show ?thesis by auto
  qed
qed simp

section \<open>A reference hexadecimal coding\<close>

definition nibble_char :: "nat \<Rightarrow> char" where
  "nibble_char n = char_of (if n < 10 then 48 + n else 87 + n)"

definition char_nibble :: "char \<Rightarrow> nat" where
  "char_nibble c = (if of_char c < (97 :: nat) then of_char c - 48 else of_char c - 87)"

definition hex_reference :: "byte list \<Rightarrow> string" where
  "hex_reference bs = concat (map (\<lambda>b. [nibble_char (unat b div 16), nibble_char (unat b mod 16)]) bs)"

fun unhex_reference :: "string \<Rightarrow> byte list option" where
  "unhex_reference [] = Some []"
| "unhex_reference [c] = None"
| "unhex_reference (c # c' # s) =
     map_option (\<lambda>bs. word_of_nat (16 * char_nibble c + char_nibble c') # bs) (unhex_reference s)"

lemma lower_hex_nibble:
  assumes "is_lower_hex c"
  shows "nibble_char (char_nibble c) = c" "char_nibble c < 16"
proof -
  have "48 \<le> (of_char c :: nat) \<and> (of_char c :: nat) \<le> 57 \<or> 97 \<le> (of_char c :: nat) \<and> (of_char c :: nat) \<le> 102"
    using assms by (simp add: is_lower_hex_def Let_def)
  then show "nibble_char (char_nibble c) = c" "char_nibble c < 16"
    by (auto simp: nibble_char_def char_nibble_def)
qed

lemma hex_reference_codec: "hex_codec hex_reference unhex_reference"
proof -
  have len: "length (hex_reference bs) = 2 * length bs" for bs
    by (induction bs) (simp_all add: hex_reference_def)
  have "list_all is_lower_hex s \<and> even (length s) \<longrightarrow>
    (\<exists>bs. unhex_reference s = Some bs \<and> hex_reference bs = s)" for s
  proof (induction s rule: unhex_reference.induct)
    case (3 c c' s)
    show ?case
    proof
      assume hex: "list_all is_lower_hex (c # c' # s) \<and> even (length (c # c' # s))"
      with 3 obtain bs where bs: "unhex_reference s = Some bs" "hex_reference bs = s" by auto
      let ?b = "word_of_nat (16 * char_nibble c + char_nibble c') :: byte"
      have byte: "unat (word_of_nat n :: byte) = n" if "n < 256" for n
        using that by (simp add: unat_of_nat take_bit_nat_eq_self)
      have "16 * char_nibble c + char_nibble c' < 256"
        using hex lower_hex_nibble(2) [of c] lower_hex_nibble(2) [of c'] by simp
      from byte [OF this] have "unat ?b = 16 * char_nibble c + char_nibble c'" .
      with bs hex lower_hex_nibble(1) [of c] lower_hex_nibble [of c']
      have "hex_reference (?b # bs) = c # c' # s" by (simp add: hex_reference_def)
      with bs show "\<exists>bs. unhex_reference (c # c' # s) = Some bs \<and> hex_reference bs = c # c' # s" by simp
    qed
  qed (simp_all add: hex_reference_def)
  with len show ?thesis by (simp add: hex_codec_def)
qed

section \<open>Properties\<close>

definition payload_total :: "(digest \<times> byte list) list \<Rightarrow> nat" where
  "payload_total us = sum_list (map (\<lambda>b. dsize (fst b)) us)"

definition framed_total :: "(digest \<times> byte list) list \<Rightarrow> nat" where
  "framed_total us = 8 + sum_list (map (\<lambda>b. BLOB_PACK_HEADER_BYTES + dsize (fst b)) us)"

definition stats_of :: "(digest \<times> byte list) list \<Rightarrow> pack_stats" where
  "stats_of us =
     \<lparr>blob_count = length us, stat_payload_bytes = payload_total us, framed_bytes = framed_total us\<rparr>"

text \<open>The headers of a response declare nothing, or what the pack really has.\<close>

definition honest :: "pack_metadata \<Rightarrow> pack_stats \<Rightarrow> bool" where
  "honest m s \<longleftrightarrow>
     \<not> differs (content_length m) (framed_bytes s) \<and> \<not> differs (meta_blob_count m) (blob_count s) \<and>
     \<not> differs (meta_payload_bytes m) (stat_payload_bytes s)"

lemma validate_metadata_honest:
  "validate_metadata_of m s = Inr s' \<longleftrightarrow> honest m s \<and> s' = s"
  by (cases s) (auto simp: validate_metadata_of_def honest_def differs_def unwrap_or_def split: option.splits)

lemma members_complete:
  assumes "blob_pack_members hex_decode (map (\<lambda>(d, bs). (d, Some bs)) us) = Inr ms"
    and "\<forall>b \<in> set us. length (snd b) = dsize (fst b)"
  shows "list_all complete ms"
  using assms
proof (induction us arbitrary: ms)
  case (Cons u us)
  then show ?case by (cases u) (auto simp: complete_def split: sum.splits)
qed simp

lemma stream_finishes:
  assumes "list_all complete ms"
  obtains out where "(stream_step ms)\<^sup>*\<^sup>* (Magic, []) (Done, out)"
  using stream_ends [of ms Magic "[]"] stream_run_sent assms by fastforce


definition sample_hash :: "digest_algorithm \<Rightarrow> byte list \<Rightarrow> string" where
  "sample_hash a bs = replicate 64 (CHR ''a'')"

definition no_headers :: pack_metadata where
  "no_headers = \<lparr>content_length = None, meta_blob_count = None, meta_payload_bytes = None\<rparr>"


text \<open>
  C21. Whatever bytes a server sends, a pack that decodes holds only requested digests, none
  twice, each with bytes of the declared length and hash; the statistics are the true ones and
  agree with every header the response declared; and the whole body is accounted for.
\<close>

theorem decoded_pack_is_verified:
  assumes "decode_blob_pack hash_of hex_encode metadata requested body = Inr (blobs, stats)"
  shows "(\<forall>b \<in> set blobs. fst b \<in> requested \<and> verified hash_of b) \<and> distinct (map fst blobs) \<and>
    stats = stats_of blobs \<and> honest metadata stats \<and> framed_bytes stats = length body"
proof -
  obtain pl fr where frames: "decode_frames hash_of hex_encode requested [] 0 8 (drop 8 body) = Inr (blobs, pl, fr)"
    and stats: "validate_metadata_of metadata
      \<lparr>blob_count = length blobs, stat_payload_bytes = pl, framed_bytes = fr\<rparr> = Inr stats"
    and len: "8 \<le> length body"
    using assms by (auto simp: decode_blob_pack_def split: if_splits sum.splits)
  from decode_frames_sound [OF frames] len stats show ?thesis
    by (auto simp: validate_metadata_honest stats_of_def payload_total_def framed_total_def)
qed

lemma unhex_a: "unhex_reference (replicate (2 * n) (CHR ''a'')) = Some (replicate n 0xAA)"
  by (induction n) (simp_all add: char_nibble_def)

theorem decoded_pack_is_verified_witness:
  "decode_blob_pack sample_hash hex_reference no_headers {sample_digest 2}
     (BLOB_PACK_MAGIC @ [1] @ replicate 32 0xAA @ be_bytes 8 2 @ [7, 9]) =
     Inr ([(sample_digest 2, [7, 9])], stats_of [(sample_digest 2, [7, 9])]) \<and>
   verified sample_hash (sample_digest 2, [7, 9])"
proof -
  let ?d = "sample_digest 2"
  have ok: "verified sample_hash (?d, [7, 9])"
    unfolding verified_def
    by (intro conjI exI [of _ Blake3]) (simp_all add: sample_hash_def sample_digest_def algorithm_name_def)
  have head: "blob_pack_frame_header unhex_reference ?d = Inr (1 # replicate 32 0xAA @ be_bytes 8 2)"
    using unhex_a [of 32]
    by (simp add: blob_pack_frame_header_def sample_digest_def algorithm_kind_def parse_algorithm_def
        algorithm_tag_def)
  have "decode_frames sample_hash hex_reference {?d} [] 0 8
      ((1 # replicate 32 0xAA @ be_bytes 8 2) @ [7, 9] @ []) =
    decode_frames sample_hash hex_reference {?d} ([] @ [(?d, [7, 9])]) (0 + dsize ?d)
      (8 + BLOB_PACK_HEADER_BYTES + dsize ?d) []"
    by (rule decode_frame [OF hex_reference_codec valid_sample_digest ok _ _ _ _ head])
      (simp_all add: sample_digest_def BLOB_PACK_HEADER_BYTES_def u64_max_def)
  then have "decode_blob_pack sample_hash hex_reference no_headers {?d}
     (BLOB_PACK_MAGIC @ [1] @ replicate 32 0xAA @ be_bytes 8 2 @ [7, 9]) =
     Inr ([(?d, [7, 9])], stats_of [(?d, [7, 9])])"
    by (simp add: decode_blob_pack_def BLOB_PACK_MAGIC_def decode_frames.simps [of _ _ _ _ _ _ "[]"]
        validate_metadata_of_def no_headers_def differs_def stats_of_def payload_total_def framed_total_def)
  with decoded_pack_is_verified [OF this] show ?thesis by simp
qed

text \<open>
  C22. Grouping queued blobs for upload loses none and repeats none: every one is in exactly one
  pack or sent alone, a pack has at least two members and respects both limits. Choosing what to
  request together gives distinct digests within both limits, and at least one when some digest
  fits. The byte limit is below the largest counter, where saturation would hide an excess.
\<close>

theorem packing_respects_limits:
  assumes "max_bytes limits < u64_max" "group_into_packs size_of ms limits = (packs, singles)"
    and "blob_pack_chunk ds limits = Inr chunk" "0 < max_items limits"
  shows "mset (concat packs) + mset singles = mset ms \<and>
    (\<forall>p \<in> set packs. 2 \<le> length p \<and> length p \<le> max_items limits \<and>
       sum_list (map size_of p) \<le> max_bytes limits) \<and>
    distinct chunk \<and> set chunk \<subseteq> set ds \<and> length chunk \<le> max_items limits \<and>
    sum_list (map dsize chunk) \<le> max_bytes limits \<and>
    ((\<exists>d \<in> set ds. dsize d \<le> max_bytes limits) \<longrightarrow> chunk \<noteq> [])"
proof -
  have "open_ok size_of limits [] 0" by (simp add: open_ok_def)
  from group_loop_spec [OF assms(2) [unfolded group_into_packs_def] assms(1) this]
    chunk_loop_spec [OF assms(3) [unfolded blob_pack_chunk_def] assms(1)]
    chunk_loop_progress [OF assms(3) [unfolded blob_pack_chunk_def] assms(4,1)]
  show ?thesis by (auto simp: pack_ok_def)
qed

theorem packing_respects_limits_witness:
  "group_into_packs (\<lambda>n. n) [3, 9, 4, 5, 2] \<lparr>max_items = 2, max_bytes = 8\<rparr> = ([[3, 4], [5, 2]], [9]) \<and>
   blob_pack_chunk [sample_digest 9, sample_digest 3, sample_digest 3, sample_digest 5, sample_digest 1]
     \<lparr>max_items = 2, max_bytes = 8\<rparr> = Inr [sample_digest 3, sample_digest 5] \<and>
   mset (concat [[3, 4], [5, 2]]) + mset [9] = mset [3, 9, 4, 5, 2 :: nat] \<and>
   distinct [sample_digest 3, sample_digest 5]"
proof -
  have group: "group_into_packs (\<lambda>n. n) [3, 9, 4, 5, 2] \<lparr>max_items = 2, max_bytes = 8\<rparr> = ([[3, 4], [5, 2]], [9])"
    by (simp add: group_into_packs_def close_pack_def saturating_add_def u64_max_def)
  have chunk: "blob_pack_chunk [sample_digest 9, sample_digest 3, sample_digest 3, sample_digest 5, sample_digest 1]
     \<lparr>max_items = 2, max_bytes = 8\<rparr> = Inr [sample_digest 3, sample_digest 5]"
    using valid_sample_digest [unfolded valid_digest_def]
    by (simp add: blob_pack_chunk_def saturating_add_def u64_max_def) (simp add: sample_digest_def)
  show ?thesis
    using packing_respects_limits [OF _ group chunk] group chunk by (simp add: u64_max_def)
qed

end
