(* ===== verification/Upload_Queue.thy ===== *)
theory Upload_Queue
  imports Blob_Pack Ordered_Map
begin

text \<open>
  The background upload queue (\<open>mbx-cache-core/src/uploads.rs\<close>). Connections queue blobs and
  action results; one worker takes what is pending, uploads the blobs of the batch, packed where
  the server takes packs, and then the action results, each after the blobs it refers to. The
  queue and every handler are functions; the answers of the server and of the file system are
  their arguments; a step relation interleaves the connections, the worker and the uploads in
  flight.
\<close>

section \<open>Digests as map keys\<close>

text \<open>\<open>Digest\<close> derives its order: field by field.\<close>

instantiation digest_ext :: (linorder) linorder
begin

definition less_eq_digest_ext :: "'a digest_scheme \<Rightarrow> 'a digest_scheme \<Rightarrow> bool" where
  "less_eq_digest_ext d e \<longleftrightarrow>
     (algorithm d, hash d, dsize d, digest.more d) \<le> (algorithm e, hash e, dsize e, digest.more e)"

definition less_digest_ext :: "'a digest_scheme \<Rightarrow> 'a digest_scheme \<Rightarrow> bool" where
  "less_digest_ext d e \<longleftrightarrow>
     (algorithm d, hash d, dsize d, digest.more d) < (algorithm e, hash e, dsize e, digest.more e)"

instance
  by standard (auto simp: less_eq_digest_ext_def less_digest_ext_def)

end

section \<open>Tickets\<close>

datatype upload_outcome = Uploaded | Skipped | Upload_failed

definition published :: "upload_outcome \<Rightarrow> bool" where
  "published r \<longleftrightarrow> r = Uploaded"

text \<open>
  A ticket is a shared future of the outcome its sender sends: a number, with a slot. A shared
  future is computed when one of its clones is polled, so \<open>peek\<close> sees an outcome only after some
  task has awaited the ticket. What the upload is for is read by no operation.
\<close>

datatype upload_object = Blob_object digest | Result_object digest

record slot =
  sent :: "upload_outcome option"
  polled :: bool
  object :: upload_object

type_synonym ticket = nat

definition peek :: "slot \<Rightarrow> upload_outcome option" where
  "peek s = (if polled s then sent s else None)"

section \<open>Connections\<close>

record 'g connection =
  tickets :: "ticket list"
  action_diagnostic :: "(string \<times> string option \<times> 'g) option"
  bypass :: "string option"

definition record_ticket :: "ticket \<Rightarrow> 'g connection \<Rightarrow> 'g connection" where
  "record_ticket t c = c\<lparr>tickets := tickets c @ [t]\<rparr>"

definition prerequisites :: "'g connection \<Rightarrow> ticket list" where
  "prerequisites c = tickets c"

definition record_action_diagnostic ::
  "string \<Rightarrow> string option \<Rightarrow> 'g \<Rightarrow> 'g connection \<Rightarrow> 'g connection" where
  "record_action_diagnostic result_name crate g c = c\<lparr>action_diagnostic := Some (result_name, crate, g)\<rparr>"

definition hold_bypass :: "string \<Rightarrow> 'g connection \<Rightarrow> string option \<times> 'g connection" where
  "hold_bypass reason c = (bypass c, c\<lparr>bypass := Some reason\<rparr>)"

definition take_bypass :: "'g connection \<Rightarrow> string option \<times> 'g connection" where
  "take_bypass c = (bypass c, c\<lparr>bypass := None\<rparr>)"

definition take_action_diagnostic ::
  "string \<Rightarrow> string option \<Rightarrow> 'g connection \<Rightarrow> 'g option \<times> 'g connection" where
  "take_action_diagnostic result_name crate c =
     (case action_diagnostic c of
        Some (r, n, g) \<Rightarrow>
          if r = result_name \<and> n = crate then (Some g, c\<lparr>action_diagnostic := None\<rparr>) else (None, c)
      | None \<Rightarrow> (None, c))"

section \<open>The queue\<close>

datatype queued_upload =
    Blob digest string ticket
  | Action_result digest "ticket list" ticket

definition is_blob :: "queued_upload \<Rightarrow> bool" where
  "is_blob u = (case u of Blob _ _ _ \<Rightarrow> True | Action_result _ _ _ \<Rightarrow> False)"

record upload_queue =
  slots :: "slot list"
  pending :: "queued_upload list"
  blob_tickets :: "(digest, ticket) btree_map"
  action_tickets :: "(digest, ticket) btree_map"
  notified :: bool
  draining :: bool
  worker :: bool

definition new_queue :: upload_queue where
  "new_queue = \<lparr>slots = [], pending = [], blob_tickets = [], action_tickets = [], notified = False,
     draining = False, worker = False\<rparr>"

definition ticket_channel :: "upload_object \<Rightarrow> upload_queue \<Rightarrow> ticket \<times> upload_queue" where
  "ticket_channel x q =
     (length (slots q), q\<lparr>slots := slots q @ [\<lparr>sent = None, polled = False, object = x\<rparr>]\<rparr>)"

definition send :: "ticket \<Rightarrow> upload_outcome \<Rightarrow> upload_queue \<Rightarrow> upload_queue" where
  "send t r q = q\<lparr>slots := (slots q)[t := (slots q ! t)\<lparr>sent := Some r\<rparr>]\<rparr>"

definition mark_polled :: "ticket \<Rightarrow> upload_queue \<Rightarrow> upload_queue" where
  "mark_polled t q = q\<lparr>slots := (slots q)[t := (slots q ! t)\<lparr>polled := True\<rparr>]\<rparr>"

text \<open>\<open>ensure_worker\<close> spawns the worker when no handle is held; \<open>notify_one\<close> stores one permit.\<close>

definition push :: "queued_upload \<Rightarrow> upload_queue \<Rightarrow> upload_queue" where
  "push u q = q\<lparr>pending := pending q @ [u], worker := True, notified := True\<rparr>"

definition reusable :: "upload_queue \<Rightarrow> ticket \<Rightarrow> bool" where
  "reusable q t \<longleftrightarrow> (case peek (slots q ! t) of None \<Rightarrow> True | Some r \<Rightarrow> r = Uploaded)"

definition start_blob ::
  "digest \<Rightarrow> string \<Rightarrow> 'g connection \<Rightarrow> upload_queue \<Rightarrow> 'g connection \<times> upload_queue" where
  "start_blob d path c q =
     (let (t, q) = ticket_channel (Blob_object d) q
      in (record_ticket t c, push (Blob d path t) (q\<lparr>blob_tickets := bt_insert d t (blob_tickets q)\<rparr>)))"

definition queue_blob ::
  "digest \<Rightarrow> string \<Rightarrow> 'g connection \<Rightarrow> upload_queue \<Rightarrow> 'g connection \<times> upload_queue" where
  "queue_blob d path c q =
     (case bt_get (blob_tickets q) d of
        Some t \<Rightarrow> if reusable q t then (record_ticket t c, q) else start_blob d path c q
      | None \<Rightarrow> start_blob d path c q)"

definition queue_action_result :: "digest \<Rightarrow> 'g connection \<Rightarrow> upload_queue \<Rightarrow> upload_queue" where
  "queue_action_result a c q =
     (let ts = (if prerequisites c = [] then map snd (blob_tickets q) else prerequisites c);
          (t, q) = ticket_channel (Result_object a) q
      in push (Action_result a ts t) (q\<lparr>action_tickets := bt_insert a t (action_tickets q)\<rparr>))"

text \<open>
  Waiting for the results of some actions, once their tickets are settled: the actions this queue
  holds a ticket for, and those of them that did not publish. Each awaited ticket is polled.
\<close>

definition held_tickets :: "digest list \<Rightarrow> upload_queue \<Rightarrow> (digest \<times> ticket) list" where
  "held_tickets as q =
     List.map_filter (\<lambda>a. map_option (\<lambda>t. (a, t)) (bt_get (action_tickets q) a)) as"

definition settled :: "upload_queue \<Rightarrow> ticket \<Rightarrow> bool" where
  "settled q t \<longleftrightarrow> sent (slots q ! t) \<noteq> None"

definition wait_for_action_outcomes ::
  "digest list \<Rightarrow> upload_queue \<Rightarrow> ((digest set \<times> digest set) \<times> upload_queue) option" where
  "wait_for_action_outcomes as q =
     (let ts = held_tickets as q
      in if list_all (\<lambda>(a, t). settled q t) ts
         then Some ((fst ` set ts, fst ` set (filter (\<lambda>(a, t). sent (slots q ! t) \<noteq> Some Uploaded) ts)),
                fold (mark_polled \<circ> snd) ts q)
         else None)"

definition wait_for_actions :: "digest list \<Rightarrow> upload_queue \<Rightarrow> (digest set \<times> upload_queue) option" where
  "wait_for_actions as q = map_option (\<lambda>((held, unpublished), q). (unpublished, q)) (wait_for_action_outcomes as q)"

text \<open>
  Draining, with the handle of the worker taken; the caller runs the worker's loop itself when
  there is no handle.
\<close>

definition drain :: "upload_queue \<Rightarrow> upload_queue" where
  "drain q = q\<lparr>draining := True, notified := notified q \<or> worker q, worker := False\<rparr>"

section \<open>The uploads of a batch\<close>

datatype sink_event = Blob_uploaded u64 | Action_uploaded | Blob_pack_uploaded u64 | Upload_failure

text \<open>
  The queue, what was reported to the sink, the blobs the server has accepted and the action
  results sent to it, each with its ticket.
\<close>

record upload_world =
  queue :: upload_queue
  events :: "sink_event list"
  accepted :: "digest set"
  results_put :: "(digest \<times> ticket) list"

definition report :: "sink_event \<Rightarrow> upload_world \<Rightarrow> upload_world" where
  "report e w = w\<lparr>events := events w @ [e]\<rparr>"

definition finish_with :: "ticket \<Rightarrow> upload_outcome \<Rightarrow> upload_world \<Rightarrow> upload_world" where
  "finish_with t r w = w\<lparr>queue := send t r (queue w)\<rparr>"

record pack_entry =
  entry_digest :: digest
  entry_path :: string
  entry_done :: ticket

text \<open>What is in flight: a pack, a pack found present and framed, a single blob, an action result.\<close>

datatype work = Pack "pack_entry list" | Framed "pack_entry list" | Single pack_entry
  | Awaiting digest "ticket list" ticket

text \<open>The server's answer to one blob: accepted, a source that is gone, another error.\<close>

datatype put_answer = Put_ok | Put_source_missing | Put_error

definition upload_blob ::
  "(string \<Rightarrow> bool) \<Rightarrow> put_answer \<Rightarrow> digest \<Rightarrow> string \<Rightarrow> upload_world \<Rightarrow> upload_outcome \<times> upload_world" where
  "upload_blob file_exists answer d path w =
     (if \<not> file_exists path then (Skipped, report Upload_failure w)
      else (case answer of
          Put_ok \<Rightarrow> (Uploaded, report (Blob_uploaded (dsize d)) (w\<lparr>accepted := insert d (accepted w)\<rparr>))
        | Put_source_missing \<Rightarrow> (Skipped, report Upload_failure w)
        | Put_error \<Rightarrow> (Upload_failed, report Upload_failure w)))"

definition upload_member ::
  "(string \<Rightarrow> bool) \<Rightarrow> put_answer \<Rightarrow> pack_entry \<Rightarrow> upload_world \<Rightarrow> upload_world" where
  "upload_member file_exists answer m w =
     (let (r, w) = upload_blob file_exists answer (entry_digest m) (entry_path m) w
      in finish_with (entry_done m) r w)"

definition upload_members :: "pack_entry list \<Rightarrow> work list" where
  "upload_members ms = map Single ms"

definition skip_absent :: "pack_entry \<Rightarrow> upload_world \<Rightarrow> upload_world" where
  "skip_absent m w = finish_with (entry_done m) Skipped (report Upload_failure w)"

definition accept_member :: "pack_entry \<Rightarrow> upload_world \<Rightarrow> upload_world" where
  "accept_member m w = finish_with (entry_done m) Uploaded (report (Blob_uploaded (dsize (entry_digest m))) w)"

text \<open>\<open>upload_pack\<close>: first what is gone is skipped, then the rest is sent in one request.\<close>

definition upload_pack_present ::
  "(string \<Rightarrow> bool) \<Rightarrow> pack_entry list \<Rightarrow> upload_world \<Rightarrow> work list \<times> upload_world" where
  "upload_pack_present file_exists pack w =
     (let present = filter (\<lambda>m. file_exists (entry_path m)) pack;
          w = fold skip_absent (filter (\<lambda>m. \<not> file_exists (entry_path m)) pack) w
      in (if length present < 2 then upload_members present else [Framed present], w))"

definition upload_pack_send ::
  "bool \<Rightarrow> pack_entry list \<Rightarrow> upload_world \<Rightarrow> work list \<times> upload_world" where
  "upload_pack_send receipt present w =
     (if receipt
      then ([], fold accept_member present (report (Blob_pack_uploaded (length present))
               (w\<lparr>accepted := accepted w \<union> entry_digest ` set present\<rparr>)))
      else (upload_members present, w))"

text \<open>\<open>upload_action_result\<close>: the prerequisites in turn, each awaited, then the request.\<close>

definition await_prerequisite ::
  "digest \<Rightarrow> ticket \<Rightarrow> ticket list \<Rightarrow> ticket \<Rightarrow> upload_world \<Rightarrow> (work list \<times> upload_world) option" where
  "await_prerequisite a t ts done w =
     (case sent (slots (queue w) ! t) of
        None \<Rightarrow> None
      | Some r \<Rightarrow>
          (let w = w\<lparr>queue := mark_polled t (queue w)\<rparr>
           in if published r then Some ([Awaiting a ts done], w)
              else Some ([], finish_with done Skipped w)))"

definition put_action_result :: "bool \<Rightarrow> digest \<Rightarrow> ticket \<Rightarrow> upload_world \<Rightarrow> upload_world" where
  "put_action_result ok a done w =
     (let w = w\<lparr>results_put := results_put w @ [(a, done)]\<rparr>
      in if ok then finish_with done Uploaded (report Action_uploaded w)
         else finish_with done Upload_failed (report Upload_failure w))"

inductive work_step :: "upload_world \<Rightarrow> work \<Rightarrow> work list \<Rightarrow> upload_world \<Rightarrow> bool" where
  pack_present: "upload_pack_present file_exists ms w = (us, w') \<Longrightarrow> work_step w (Pack ms) us w'"
| pack_send: "upload_pack_send receipt ms w = (us, w') \<Longrightarrow> work_step w (Framed ms) us w'"
| single: "upload_member file_exists answer m w = w' \<Longrightarrow> work_step w (Single m) [] w'"
| await: "await_prerequisite a t ts done w = Some (us, w') \<Longrightarrow> work_step w (Awaiting a (t # ts) done) us w'"
| put_result: "put_action_result ok a done w = w' \<Longrightarrow> work_step w (Awaiting a [] done) [] w'"

section \<open>The worker\<close>

definition run_upload :: "queued_upload \<Rightarrow> work" where
  "run_upload u =
     (case u of
        Blob d path t \<Rightarrow> Single \<lparr>entry_digest = d, entry_path = path, entry_done = t\<rparr>
      | Action_result a ts t \<Rightarrow> Awaiting a ts t)"

definition run_phase :: "queued_upload list \<Rightarrow> work list" where
  "run_phase us = map run_upload us"

fun pack_members_of :: "queued_upload list \<Rightarrow> pack_entry list" where
  "pack_members_of [] = []"
| "pack_members_of (Blob d path t # us) =
     \<lparr>entry_digest = d, entry_path = path, entry_done = t\<rparr> # pack_members_of us"
| "pack_members_of (Action_result a ts t # us) = pack_members_of us"

definition run_blob_phase :: "pack_limits option \<Rightarrow> queued_upload list \<Rightarrow> work list" where
  "run_blob_phase limits blobs =
     (if length blobs < 2 then run_phase blobs
      else (case limits of
          None \<Rightarrow> run_phase blobs
        | Some l \<Rightarrow>
            (let (packs, singles) = group_into_packs (\<lambda>m. dsize (entry_digest m)) (pack_members_of blobs) l
             in map Pack packs @ upload_members singles)))"

text \<open>
  Where the worker is: at the head of its loop, after it took nothing and before it reads
  \<open>draining\<close>, asleep, in the blobs of a batch with the results that follow, in the results.
\<close>

datatype phase = Not_started | Looping | Took_nothing | Waiting
  | Blobs "work list" "queued_upload list" | Results "work list" | Stopped

definition take_batch :: "pack_limits option \<Rightarrow> upload_queue \<Rightarrow> phase \<times> upload_queue" where
  "take_batch limits q =
     (if pending q = [] then (Took_nothing, q)
      else (Blobs (run_blob_phase limits (filter is_blob (pending q)))
              (filter (\<lambda>u. \<not> is_blob u) (pending q)), q\<lparr>pending := []\<rparr>))"

definition loop_again :: "upload_queue \<Rightarrow> phase" where
  "loop_again q = (if draining q then Stopped else Waiting)"

inductive worker_step :: "phase \<Rightarrow> upload_world \<Rightarrow> phase \<Rightarrow> upload_world \<Rightarrow> bool" where
  take_work: "take_batch limits (queue w) = (p, q) \<Longrightarrow> worker_step Looping w p (w\<lparr>queue := q\<rparr>)"
| decide: "loop_again (queue w) = p \<Longrightarrow> worker_step Took_nothing w p w"
| wake: "notified (queue w) \<Longrightarrow>
    worker_step Waiting w Looping (w\<lparr>queue := (queue w)\<lparr>notified := False\<rparr>\<rparr>)"
| blob_work: "work_step w u us w' \<Longrightarrow>
    worker_step (Blobs (xs @ u # ys) rs) w (Blobs (xs @ us @ ys) rs) w'"
| blobs_done: "worker_step (Blobs [] rs) w (Results (run_phase rs)) w"
| result_work: "work_step w u us w' \<Longrightarrow> worker_step (Results (xs @ u # ys)) w (Results (xs @ us @ ys)) w'"
| results_done: "worker_step (Results []) w Looping w"

section \<open>The system\<close>

text \<open>
  The connections by number; for the specification, the digests each has queued, and for the
  ticket of an action result the digests its connection had queued before it.
\<close>

record 'g upload_system =
  world :: upload_world
  phase :: phase
  conns :: "nat \<Rightarrow> 'g connection"
  asked :: "nat \<Rightarrow> digest list"
  needs :: "ticket \<Rightarrow> digest list"

definition new_connection :: "'g connection" where
  "new_connection = \<lparr>tickets = [], action_diagnostic = None, bypass = None\<rparr>"

definition new_system :: "'g upload_system" where
  "new_system = \<lparr>world = \<lparr>queue = new_queue, events = [], accepted = {}, results_put = []\<rparr>,
     phase = Not_started, conns = (\<lambda>_. new_connection), asked = (\<lambda>_. []), needs = (\<lambda>_. [])\<rparr>"

definition spawned :: "phase \<Rightarrow> phase" where
  "spawned p = (if p = Not_started then Looping else p)"

definition set_queue :: "upload_queue \<Rightarrow> 'g upload_system \<Rightarrow> 'g upload_system" where
  "set_queue q s = s\<lparr>world := (world s)\<lparr>queue := q\<rparr>\<rparr>"

definition start_draining :: "'g upload_system \<Rightarrow> 'g upload_system" where
  "start_draining s = set_queue (drain (queue (world s))) s\<lparr>
     phase := if worker (queue (world s)) then phase s else Looping\<rparr>"

text \<open>Once the queue drains, the session accepts no more requests.\<close>

inductive system_step :: "'g upload_system \<Rightarrow> 'g upload_system \<Rightarrow> bool" where
  blob: "\<not> draining (queue (world s)) \<Longrightarrow>
    queue_blob d path (conns s n) (queue (world s)) = (c, q) \<Longrightarrow>
    system_step s (set_queue q s\<lparr>conns := (conns s)(n := c), asked := (asked s)(n := asked s n @ [d]),
      phase := if worker q then spawned (phase s) else phase s\<rparr>)"
| result: "\<not> draining (queue (world s)) \<Longrightarrow>
    queue_action_result a (conns s n) (queue (world s)) = q \<Longrightarrow>
    system_step s (set_queue q s\<lparr>needs := (needs s)(length (slots (queue (world s))) := asked s n),
      phase := spawned (phase s)\<rparr>)"
| connect: "system_step s (s\<lparr>conns := (conns s)(n := new_connection), asked := (asked s)(n := [])\<rparr>)"
| wait_results: "wait_for_action_outcomes as (queue (world s)) = Some (r, q) \<Longrightarrow> system_step s (set_queue q s)"
| start_drain: "\<not> draining (queue (world s)) \<Longrightarrow>
    system_step s (start_draining s)"
| run: "worker_step (phase s) (world s) p w \<Longrightarrow> system_step s (s\<lparr>world := w, phase := p\<rparr>)"

end
