(* ===== verification/Upload_Invariant.thy ===== *)
theory Upload_Invariant
  imports Upload_Queue
begin

text \<open>
  The invariant of the upload queue: the tickets not settled are exactly those of what is queued
  or in flight, each once; what a result awaits is settled before the results of its batch run;
  an outcome \<open>Uploaded\<close> means that the server has accepted the blob; and a sleeping worker has a
  wake-up stored whenever there is work. Every step of the worker and of a connection keeps it.
\<close>

section \<open>Slots\<close>

definition obj :: "upload_queue \<Rightarrow> ticket \<Rightarrow> upload_object" where
  "obj q t = object (slots q ! t)"

definition snt :: "upload_queue \<Rightarrow> ticket \<Rightarrow> upload_outcome option" where
  "snt q t = sent (slots q ! t)"

definition unsettled :: "upload_queue \<Rightarrow> ticket set" where
  "unsettled q = {t. t < length (slots q) \<and> snt q t = None}"

lemma finite_unsettled [simp]: "finite (unsettled q)"
  by (simp add: unsettled_def)

lemma unsettled_less: "t \<in> unsettled q \<Longrightarrow> t < length (slots q)"
  by (simp add: unsettled_def)

text \<open>What no step undoes: tickets stay, with their object, and a settled one keeps its outcome.\<close>

definition grows :: "upload_queue \<Rightarrow> upload_queue \<Rightarrow> bool" where
  "grows q q' \<longleftrightarrow> length (slots q) \<le> length (slots q') \<and>
     (\<forall>t < length (slots q). obj q' t = obj q t \<and> (snt q t \<noteq> None \<longrightarrow> snt q' t = snt q t))"

text \<open>What the uploads in flight leave alone.\<close>

definition same_book :: "upload_queue \<Rightarrow> upload_queue \<Rightarrow> bool" where
  "same_book q q' \<longleftrightarrow> pending q' = pending q \<and> blob_tickets q' = blob_tickets q \<and>
     action_tickets q' = action_tickets q \<and> notified q' = notified q \<and> draining q' = draining q \<and>
     worker q' = worker q \<and> length (slots q') = length (slots q)"

lemma grows_refl [simp]: "grows q q"
  by (simp add: grows_def)

lemma grows_trans: "grows q q' \<Longrightarrow> grows q' q'' \<Longrightarrow> grows q q''"
  by (auto simp: grows_def)

lemma grows_same_slots: "slots q' = slots q \<Longrightarrow> grows q q'"
  by (simp add: grows_def obj_def snt_def)

lemma same_book_refl [simp]: "same_book q q"
  by (simp add: same_book_def)

lemma same_book_trans: "same_book q q' \<Longrightarrow> same_book q' q'' \<Longrightarrow> same_book q q''"
  by (simp add: same_book_def)

lemma send_slots [simp]: "length (slots (send t r q)) = length (slots q)"
  by (simp add: send_def)

lemma send_obj [simp]: "obj (send t r q) i = obj q i"
  by (cases "i = t"; cases "t < length (slots q)") (simp_all add: send_def obj_def nth_list_update list_update_beyond)

lemma send_snt: "t < length (slots q) \<Longrightarrow> snt (send t r q) i = (if i = t then Some r else snt q i)"
  by (simp add: send_def snt_def nth_list_update)

lemma send_unsettled: "t < length (slots q) \<Longrightarrow> unsettled (send t r q) = unsettled q - {t}"
  by (auto simp: unsettled_def send_snt split: if_splits)

lemma send_same_book [simp]: "same_book q (send t r q)"
  by (simp add: same_book_def) (simp add: send_def)

lemma send_grows: "t \<in> unsettled q \<Longrightarrow> grows q (send t r q)"
  by (auto simp: grows_def send_snt unsettled_def)

lemma mark_polled_slots [simp]:
  "length (slots (mark_polled t q)) = length (slots q)" "obj (mark_polled t q) i = obj q i"
  "snt (mark_polled t q) i = snt q i" "unsettled (mark_polled t q) = unsettled q"
proof -
  show len: "length (slots (mark_polled t q)) = length (slots q)" by (simp add: mark_polled_def)
  show "obj (mark_polled t q) i = obj q i"
    by (cases "i = t"; cases "t < length (slots q)")
      (simp_all add: mark_polled_def obj_def nth_list_update list_update_beyond)
  have snt: "snt (mark_polled t q) i = snt q i" for i
    by (cases "i = t"; cases "t < length (slots q)")
      (simp_all add: mark_polled_def snt_def nth_list_update list_update_beyond)
  then show "snt (mark_polled t q) i = snt q i" .
  show "unsettled (mark_polled t q) = unsettled q" by (simp add: unsettled_def snt len)
qed

lemma mark_polled_same_book [simp]: "same_book q (mark_polled t q)" "grows q (mark_polled t q)"
  by (simp_all add: same_book_def grows_def) (simp add: mark_polled_def)

lemma fold_mark_polled:
  "same_book q (fold (mark_polled \<circ> snd) ts q) \<and> grows q (fold (mark_polled \<circ> snd) ts q) \<and>
   grows (fold (mark_polled \<circ> snd) ts q) q \<and> unsettled (fold (mark_polled \<circ> snd) ts q) = unsettled q"
proof (induction ts arbitrary: q)
  case (Cons x ts)
  have undo: "grows (mark_polled (snd x) q) q" by (simp add: grows_def)
  from Cons [of "mark_polled (snd x) q"] show ?case
    by (auto intro: same_book_trans [OF mark_polled_same_book(1)] grows_trans [OF mark_polled_same_book(2)]
        grows_trans [OF _ undo])
qed simp

lemma fold_send:
  assumes "distinct ts" "set ts \<subseteq> unsettled q"
  shows "same_book q (fold (\<lambda>t. send t r) ts q) \<and> grows q (fold (\<lambda>t. send t r) ts q) \<and>
    unsettled (fold (\<lambda>t. send t r) ts q) = unsettled q - set ts \<and>
    (\<forall>t. snt (fold (\<lambda>t. send t r) ts q) t = (if t \<in> set ts then Some r else snt q t))"
  using assms
proof (induction ts arbitrary: q)
  case (Cons t ts)
  have t: "t < length (slots q)" "t \<in> unsettled q" using Cons.prems(2) by (auto simp: unsettled_def)
  have "set ts \<subseteq> unsettled (send t r q)" using Cons.prems t(1) by (auto simp: send_unsettled)
  from Cons.IH [OF _ this] Cons.prems(1) t(1) show ?case
    by (auto simp: send_unsettled send_snt intro: same_book_trans [OF send_same_book] grows_trans [OF send_grows [OF t(2)]])
qed simp

section \<open>One upload\<close>

fun work_tickets :: "work \<Rightarrow> ticket list" where
  "work_tickets (Pack ms) = map entry_done ms"
| "work_tickets (Framed ms) = map entry_done ms"
| "work_tickets (Single m) = [entry_done m]"
| "work_tickets (Awaiting a ts t) = [t]"

definition entry_ok :: "upload_queue \<Rightarrow> pack_entry \<Rightarrow> bool" where
  "entry_ok q m \<longleftrightarrow> obj q (entry_done m) = Blob_object (entry_digest m) \<and> entry_done m < length (slots q)"

text \<open>Every digest a result needs is accepted already or behind a prerequisite still to be awaited.\<close>

definition covered :: "upload_queue \<Rightarrow> digest list \<Rightarrow> digest set \<Rightarrow> ticket list \<Rightarrow> bool" where
  "covered q needed acc ts \<longleftrightarrow>
     (\<forall>t \<in> set ts. t < length (slots q) \<and> (\<exists>d. obj q t = Blob_object d)) \<and>
     (\<forall>d \<in> set needed. d \<in> acc \<or> Blob_object d \<in> obj q ` set ts)"

fun work_ok :: "upload_queue \<Rightarrow> (ticket \<Rightarrow> digest list) \<Rightarrow> digest set \<Rightarrow> work \<Rightarrow> bool" where
  "work_ok q nd acc (Pack ms) \<longleftrightarrow> list_all (entry_ok q) ms"
| "work_ok q nd acc (Framed ms) \<longleftrightarrow> list_all (entry_ok q) ms"
| "work_ok q nd acc (Single m) \<longleftrightarrow> entry_ok q m"
| "work_ok q nd acc (Awaiting a ts t) \<longleftrightarrow>
     obj q t = Result_object a \<and> t < length (slots q) \<and> covered q (nd t) acc ts"

definition accepted_ok :: "upload_queue \<Rightarrow> digest set \<Rightarrow> bool" where
  "accepted_ok q acc \<longleftrightarrow>
     (\<forall>t < length (slots q). \<forall>d. obj q t = Blob_object d \<and> snt q t = Some Uploaded \<longrightarrow> d \<in> acc)"

lemma entry_ok_grows: "grows q q' \<Longrightarrow> entry_ok q m \<Longrightarrow> entry_ok q' m"
  by (auto simp: grows_def entry_ok_def)

lemma covered_grows: "grows q q' \<Longrightarrow> acc \<subseteq> acc' \<Longrightarrow> covered q needed acc ts \<Longrightarrow> covered q' needed acc' ts"
proof -
  assume a: "grows q q'" "acc \<subseteq> acc'" "covered q needed acc ts"
  have same: "obj q' t = obj q t \<and> t < length (slots q')" if "t \<in> set ts" for t
    using a(1,3) that by (auto simp: grows_def covered_def)
  then have "obj q' ` set ts = obj q ` set ts" by simp
  with same a(2,3) show ?thesis by (auto simp: covered_def)
qed

lemma work_ok_grows:
  assumes "grows q q'" "acc \<subseteq> acc'" "\<forall>t < length (slots q). nd' t = nd t" "work_ok q nd acc u"
  shows "work_ok q' nd' acc' u"
proof (cases u)
  case (Awaiting a ts t)
  with assms(3,4) have "nd' t = nd t" by simp
  with Awaiting assms covered_grows [OF assms(1,2)] show ?thesis by (auto simp: grows_def)
qed (use assms in \<open>auto simp: list_all_iff intro: entry_ok_grows\<close>)

lemma report_fields [simp]:
  "queue (report e w) = queue w" "accepted (report e w) = accepted w" "results_put (report e w) = results_put w"
  "queue (finish_with t r w) = send t r (queue w)" "accepted (finish_with t r w) = accepted w"
  "results_put (finish_with t r w) = results_put w"
  by (simp_all add: report_def finish_with_def)

lemma fold_skip_absent:
  "queue (fold skip_absent ms w) = fold (\<lambda>t. send t Skipped) (map entry_done ms) (queue w)"
  "accepted (fold skip_absent ms w) = accepted w" "results_put (fold skip_absent ms w) = results_put w"
  by (induction ms arbitrary: w) (simp_all add: skip_absent_def)

lemma fold_accept_member:
  "queue (fold accept_member ms w) = fold (\<lambda>t. send t Uploaded) (map entry_done ms) (queue w)"
  "accepted (fold accept_member ms w) = accepted w" "results_put (fold accept_member ms w) = results_put w"
  by (induction ms arbitrary: w) (simp_all add: accept_member_def)

lemma mset_map_partition:
  "mset (map f (filter P xs)) + mset (map f (filter (\<lambda>x. \<not> P x) xs)) = mset (map f xs)"
  by (induction xs) auto

lemma mset_le_unsettled:
  "mset ts \<subseteq># mset_set (unsettled q) \<longleftrightarrow> distinct ts \<and> set ts \<subseteq> unsettled q"
proof
  assume le: "mset ts \<subseteq># mset_set (unsettled q)"
  have "count (mset ts) t = (if t \<in> set ts then 1 else 0)" for t
  proof (cases "t \<in> set ts")
    case True
    then have "1 \<le> count (mset ts) t" by (simp add: Suc_le_eq)
    moreover have "count (mset ts) t \<le> count (mset_set (unsettled q)) t" using le by (rule mset_subset_eq_count)
    moreover have "count (mset_set (unsettled q)) t \<le> 1" by (simp add: count_mset_set')
    ultimately have "count (mset ts) t = 1" by linarith
    with True show ?thesis by simp
  qed (simp add: count_eq_zero_iff)
  then have "distinct ts" by (simp add: distinct_count_atmost_1)
  moreover have "set ts \<subseteq> unsettled q" using set_mset_mono [OF le] by simp
  ultimately show "distinct ts \<and> set ts \<subseteq> unsettled q" by simp
next
  assume "distinct ts \<and> set ts \<subseteq> unsettled q"
  then show "mset ts \<subseteq># mset_set (unsettled q)"
    using subset_imp_msubset_mset_set [of "set ts" "unsettled q"] by (simp add: mset_set_set)
qed

lemma mset_unsettled_minus:
  assumes "distinct ts" "set ts \<subseteq> unsettled q" "unsettled q' = unsettled q - set ts"
  shows "mset_set (unsettled q') + mset ts = mset_set (unsettled q)"
proof -
  have "mset_set (unsettled q) = mset_set (unsettled q') + mset_set (set ts)"
    using assms(2,3) by (subst mset_set_Union [symmetric]) (auto simp: Un_absorb2)
  with assms(1) show ?thesis by (simp add: mset_set_set)
qed

definition work_done ::
  "upload_queue \<Rightarrow> digest set \<Rightarrow> ticket list \<Rightarrow> upload_queue \<Rightarrow> digest set \<Rightarrow> ticket list \<Rightarrow> bool" where
  "work_done q acc ts q' acc' ts' \<longleftrightarrow>
     same_book q q' \<and> grows q q' \<and> acc \<subseteq> acc' \<and> accepted_ok q' acc' \<and>
     mset_set (unsettled q') + mset ts = mset_set (unsettled q) + mset ts'"

lemma work_done_sends:
  assumes "accepted_ok q acc" "acc \<subseteq> acc'" "distinct ts" "set ts \<subseteq> unsettled q"
    and "mset ts1 + mset ts = mset ts0"
    and "r = Uploaded \<Longrightarrow> \<forall>t \<in> set ts. \<forall>d. obj q t = Blob_object d \<longrightarrow> d \<in> acc'"
  shows "work_done q acc ts0 (fold (\<lambda>t. send t r) ts q) acc' ts1"
proof -
  let ?q = "fold (\<lambda>t. send t r) ts q"
  note s = fold_send [OF assms(3,4), of r]
  have "accepted_ok ?q acc'"
    unfolding accepted_ok_def
  proof (intro allI impI)
    fix t d
    assume t: "t < length (slots ?q)" "obj ?q t = Blob_object d \<and> snt ?q t = Some Uploaded"
    then have "t < length (slots q)" "obj q t = Blob_object d" using s by (auto simp: same_book_def grows_def)
    with t s assms(1,2,6) show "d \<in> acc'" by (cases "t \<in> set ts") (auto simp: accepted_ok_def)
  qed
  moreover have "mset_set (unsettled ?q) + mset ts0 = mset_set (unsettled q) + mset ts1"
    using mset_unsettled_minus [OF assms(3,4)] s assms(5) by (metis union_assoc union_commute)
  ultimately show ?thesis using s assms(2) by (simp add: work_done_def)
qed

lemma accepted_ok_polled: "accepted_ok (mark_polled t q) acc = accepted_ok q acc"
  by (simp add: accepted_ok_def)

lemma upload_member_queue:
  obtains r where "queue (upload_member file_exists answer m w) = send (entry_done m) r (queue w)"
    "results_put (upload_member file_exists answer m w) = results_put w"
    "accepted w \<subseteq> accepted (upload_member file_exists answer m w)"
    "r = Uploaded \<Longrightarrow> entry_digest m \<in> accepted (upload_member file_exists answer m w)"
proof -
  obtain r w' where up: "upload_blob file_exists answer (entry_digest m) (entry_path m) w = (r, w')" by fastforce
  then have "queue w' = queue w" "results_put w' = results_put w" "accepted w \<subseteq> accepted w'"
    "r = Uploaded \<Longrightarrow> entry_digest m \<in> accepted w'"
    by (auto simp: upload_blob_def split: if_splits put_answer.splits)
  with that [of r] up show thesis by (simp add: upload_member_def)
qed

lemma work_step_spec:
  assumes "work_step w u us w'" "work_ok (queue w) nd (accepted w) u" "accepted_ok (queue w) (accepted w)"
    and "mset (work_tickets u) \<subseteq># mset_set (unsettled (queue w))"
  shows "work_done (queue w) (accepted w) (work_tickets u) (queue w') (accepted w') (concat (map work_tickets us)) \<and>
    list_all (work_ok (queue w) nd (accepted w')) us \<and>
    (\<exists>new. results_put w' = results_put w @ new \<and>
       (\<forall>(a, t) \<in> set new. t < length (slots (queue w)) \<and> set (nd t) \<subseteq> accepted w'))"
  using assms
proof (cases rule: work_step.cases)
  case (pack_present file_exists ms)
  let ?in = "filter (\<lambda>m. file_exists (entry_path m)) ms" and ?out = "filter (\<lambda>m. \<not> file_exists (entry_path m)) ms"
  have ts: "distinct (map entry_done ms)" "set (map entry_done ms) \<subseteq> unsettled (queue w)"
    using assms(4) [unfolded pack_present(1) work_tickets.simps mset_le_unsettled] by simp_all
  have w': "queue w' = fold (\<lambda>t. send t Skipped) (map entry_done ?out) (queue w)"
    "accepted w' = accepted w" "results_put w' = results_put w"
    using pack_present(2) by (auto simp: upload_pack_present_def Let_def fold_skip_absent)
  have us: "concat (map work_tickets us) = map entry_done ?in" "list_all (work_ok (queue w) nd (accepted w')) us"
    using pack_present assms(2)
    by (auto simp: upload_pack_present_def upload_members_def Let_def list_all_iff concat_map_singleton comp_def
        split: if_splits)
  have "distinct (map entry_done ?out)" "set (map entry_done ?out) \<subseteq> unsettled (queue w)"
    using ts by (auto simp: distinct_map_filter)
  moreover have "mset (map entry_done ?in) + mset (map entry_done ?out) = mset (map entry_done ms)"
    by (rule mset_map_partition)
  ultimately have "work_done (queue w) (accepted w) (map entry_done ms)
      (fold (\<lambda>t. send t Skipped) (map entry_done ?out) (queue w)) (accepted w) (map entry_done ?in)"
    by (intro work_done_sends [OF assms(3) order_refl]) auto
  then show ?thesis using w' us pack_present(1) by simp
next
  case (pack_send receipt ms)
  have ts: "distinct (map entry_done ms)" "set (map entry_done ms) \<subseteq> unsettled (queue w)"
    using assms(4) [unfolded pack_send(1) work_tickets.simps mset_le_unsettled] by simp_all
  show ?thesis
  proof (cases receipt)
    case True
    with pack_send(2) have w': "queue w' = fold (\<lambda>t. send t Uploaded) (map entry_done ms) (queue w)"
      "accepted w' = accepted w \<union> entry_digest ` set ms" "results_put w' = results_put w" "us = []"
      by (auto simp: upload_pack_send_def fold_accept_member)
    have "\<forall>t \<in> set (map entry_done ms). \<forall>d. obj (queue w) t = Blob_object d \<longrightarrow> d \<in> accepted w'"
      using assms(2) pack_send(1) w'(2) by (auto simp: list_all_iff entry_ok_def)
    with work_done_sends [OF assms(3) _ ts, of "accepted w'" "[]" _ Uploaded] w' pack_send(1) show ?thesis by simp
  next
    case False
    with pack_send assms(2,3) show ?thesis
      by (auto simp: upload_pack_send_def upload_members_def work_done_def list_all_iff concat_map_singleton comp_def)
  qed
next
  case (single file_exists answer m)
  have t: "entry_done m \<in> unsettled (queue w)" using assms(4) single(1) by simp
  obtain r where r: "queue w' = send (entry_done m) r (queue w)" "results_put w' = results_put w"
    "accepted w \<subseteq> accepted w'" "r = Uploaded \<Longrightarrow> entry_digest m \<in> accepted w'"
    using upload_member_queue [of file_exists answer m w] single(3) by metis
  have "r = Uploaded \<Longrightarrow> \<forall>t \<in> set [entry_done m]. \<forall>d. obj (queue w) t = Blob_object d \<longrightarrow> d \<in> accepted w'"
    using r(4) assms(2) single(1) by (simp add: entry_ok_def)
  from work_done_sends [OF assms(3) r(3) _ _ _ this, of "[]" "work_tickets u"] r t single(1,2) show ?thesis
    by simp
next
  case (await a t ts dn)
  obtain o1 where o1: "snt (queue w) t = Some o1" using await(2) by (auto simp: await_prerequisite_def snt_def split: option.splits)
  let ?q = "mark_polled t (queue w)"
  have dn: "dn \<in> unsettled ?q" using assms(4) await(1) by simp
  show ?thesis
  proof (cases "published o1")
    case True
    with await(2) o1 have w': "us = [Awaiting a ts dn]" "queue w' = ?q" "accepted w' = accepted w" "results_put w' = results_put w"
      by (auto simp: await_prerequisite_def snt_def Let_def)
    obtain d where d: "t < length (slots (queue w))" "obj (queue w) t = Blob_object d"
      using assms(2) await(1) by (auto simp: covered_def)
    then have "d \<in> accepted w" using assms(3) o1 True by (auto simp: accepted_ok_def published_def)
    then have "covered (queue w) (nd dn) (accepted w) ts"
      using assms(2) await(1) d(2) by (auto simp: covered_def)
    with w' await(1) assms(2,3) show ?thesis by (simp add: work_done_def accepted_ok_polled)
  next
    case False
    with await(2) o1 have w': "us = []" "queue w' = send dn Skipped ?q" "accepted w' = accepted w" "results_put w' = results_put w"
      by (auto simp: await_prerequisite_def snt_def Let_def)
    have "work_done ?q (accepted w) [dn] (send dn Skipped ?q) (accepted w) []"
      using work_done_sends [of ?q "accepted w" "accepted w" "[dn]" "[]" "[dn]" Skipped] assms(3) dn
      by (simp add: accepted_ok_polled)
    then have "work_done (queue w) (accepted w) [dn] (send dn Skipped ?q) (accepted w) []"
      by (auto simp: work_done_def intro: same_book_trans [OF mark_polled_same_book(1) send_same_book]
          grows_trans [OF mark_polled_same_book(2)])
    with w' await(1) show ?thesis by simp
  qed
next
  case (put_result ok a dn)
  have t: "dn \<in> unsettled (queue w)" using assms(4) put_result(1) by simp
  have w': "queue w' = send dn (if ok then Uploaded else Upload_failed) (queue w)" "accepted w' = accepted w"
    "results_put w' = results_put w @ [(a, dn)]"
    unfolding put_result(3) [symmetric] by (simp_all add: put_action_result_def Let_def)
  have "\<forall>t \<in> set [dn]. \<forall>d. obj (queue w) t = Blob_object d \<longrightarrow> d \<in> accepted w'"
    using assms(2) put_result(1) by simp
  from work_done_sends [OF assms(3) order_refl, of "[dn]" "[]" "[dn]" "if ok then Uploaded else Upload_failed"] this
  show ?thesis using w' put_result(1,2) t assms(2) by (auto simp: covered_def)
qed

section \<open>The invariant\<close>

fun item_ticket :: "queued_upload \<Rightarrow> ticket" where
  "item_ticket (Blob d path t) = t"
| "item_ticket (Action_result a ts t) = t"

fun works :: "phase \<Rightarrow> work list" where
  "works (Blobs us rs) = us"
| "works (Results us) = us"
| "works p = []"

fun held_back :: "phase \<Rightarrow> queued_upload list" where
  "held_back (Blobs us rs) = rs"
| "held_back p = []"

fun awaited :: "work \<Rightarrow> ticket list" where
  "awaited (Awaiting a ts t) = ts"
| "awaited u = []"

definition is_awaiting :: "work \<Rightarrow> bool" where
  "is_awaiting u = (case u of Awaiting a ts t \<Rightarrow> True | _ \<Rightarrow> False)"

text \<open>The tickets not settled are exactly those of what is queued or in flight, each once.\<close>

definition live_ok :: "upload_queue \<Rightarrow> phase \<Rightarrow> bool" where
  "live_ok q p \<longleftrightarrow> mset_set (unsettled q) =
     mset (map item_ticket (pending q)) + mset (concat (map work_tickets (works p))) +
     mset (map item_ticket (held_back p))"

definition items_ok :: "upload_queue \<Rightarrow> (ticket \<Rightarrow> digest list) \<Rightarrow> digest set \<Rightarrow> phase \<Rightarrow> bool" where
  "items_ok q nd acc p \<longleftrightarrow>
     (\<forall>u \<in> run_upload ` set (pending q) \<union> set (works p) \<union> run_upload ` set (held_back p). work_ok q nd acc u)"

text \<open>What a result awaits is settled before the results run: no result waits for ever.\<close>

fun phase_ok :: "upload_queue \<Rightarrow> phase \<Rightarrow> bool" where
  "phase_ok q (Blobs us rs) \<longleftrightarrow>
     list_all (\<lambda>u. \<not> is_awaiting u) us \<and> list_all (\<lambda>u. \<not> is_blob u) rs \<and>
     (\<forall>r \<in> set rs. set (awaited (run_upload r)) \<inter> unsettled q \<subseteq> set (concat (map work_tickets us)))"
| "phase_ok q (Results us) \<longleftrightarrow>
     list_all is_awaiting us \<and> (\<forall>u \<in> set us. set (awaited u) \<inter> unsettled q = {})"
| "phase_ok q p \<longleftrightarrow> True"

definition puts_ok :: "upload_queue \<Rightarrow> (ticket \<Rightarrow> digest list) \<Rightarrow> digest set \<Rightarrow> (digest \<times> ticket) list \<Rightarrow> bool" where
  "puts_ok q nd acc puts \<longleftrightarrow> (\<forall>(a, t) \<in> set puts. t < length (slots q) \<and> set (nd t) \<subseteq> acc)"

definition maps_ok :: "upload_queue \<Rightarrow> bool" where
  "maps_ok q \<longleftrightarrow> bt_inv (blob_tickets q) \<and>
     (\<forall>(d, t) \<in> set (blob_tickets q). t < length (slots q) \<and> obj q t = Blob_object d)"

definition conns_ok :: "upload_queue \<Rightarrow> (nat \<Rightarrow> 'g connection) \<Rightarrow> (nat \<Rightarrow> digest list) \<Rightarrow> bool" where
  "conns_ok q cs ask \<longleftrightarrow>
     (\<forall>n. (\<forall>t \<in> set (tickets (cs n)). t < length (slots q)) \<and>
        map (obj q) (tickets (cs n)) = map Blob_object (ask n))"

text \<open>The worker never sleeps on work: a permit is stored whenever there is any.\<close>

definition wake_ok :: "upload_queue \<Rightarrow> phase \<Rightarrow> bool" where
  "wake_ok q p \<longleftrightarrow>
     (p = Not_started \<longrightarrow> pending q = [] \<and> \<not> draining q) \<and>
     (\<not> draining q \<longrightarrow> (worker q \<longleftrightarrow> p \<noteq> Not_started) \<and> p \<noteq> Stopped) \<and>
     ((p = Took_nothing \<or> p = Waiting) \<and> pending q \<noteq> [] \<longrightarrow> notified q) \<and>
     (p = Waiting \<and> draining q \<longrightarrow> notified q)"

definition book_ok :: "upload_world \<Rightarrow> phase \<Rightarrow> (ticket \<Rightarrow> digest list) \<Rightarrow> bool" where
  "book_ok w p nd \<longleftrightarrow>
     live_ok (queue w) p \<and> items_ok (queue w) nd (accepted w) p \<and> phase_ok (queue w) p \<and>
     accepted_ok (queue w) (accepted w) \<and> puts_ok (queue w) nd (accepted w) (results_put w) \<and>
     maps_ok (queue w) \<and> wake_ok (queue w) p"

definition system_ok :: "'g upload_system \<Rightarrow> bool" where
  "system_ok s \<longleftrightarrow> book_ok (world s) (phase s) (needs s) \<and>
     conns_ok (queue (world s)) (conns s) (asked s)"

lemma conns_ok_grows:
  assumes "grows q q'" "conns_ok q cs ask"
  shows "conns_ok q' cs ask"
proof -
  have "t < length (slots q') \<and> obj q' t = obj q t" if "t \<in> set (tickets (cs n))" for t n
  proof -
    have "t < length (slots q)" using assms(2) that by (auto simp: conns_ok_def)
    with assms(1) show ?thesis by (auto simp: grows_def)
  qed
  then show ?thesis using assms(2) by (auto simp: conns_ok_def cong: map_cong)
qed

lemma maps_ok_grows: "grows q q' \<Longrightarrow> blob_tickets q' = blob_tickets q \<Longrightarrow> maps_ok q \<Longrightarrow> maps_ok q'"
  by (auto simp: grows_def maps_ok_def)

lemma puts_ok_grows:
  "grows q q' \<Longrightarrow> acc \<subseteq> acc' \<Longrightarrow> \<forall>t < length (slots q). nd' t = nd t \<Longrightarrow> puts_ok q nd acc puts \<Longrightarrow>
   puts_ok q' nd' acc' puts"
  by (fastforce simp: grows_def puts_ok_def)

lemma group_loop_parts:
  assumes "group_loop size_of limits ms packs singles current n = (packs', singles')"
    and "\<forall>p \<in> set packs. 2 \<le> length p"
  shows "(\<forall>p \<in> set packs'. 2 \<le> length p) \<and>
    mset (concat packs') + mset singles' = mset (concat packs) + mset singles + mset current + mset ms"
  using assms
proof (induction size_of limits ms packs singles current n rule: group_loop.induct)
  case (2 size_of limits m ms packs singles current n)
  show ?case
  proof (cases "size_of m > max_bytes limits")
    case True
    then show ?thesis using 2(1) [OF True] 2(4,5) by simp
  next
    case small: False
    show ?thesis
    proof (cases "(length current \<ge> max_items limits \<or> saturating_add n (size_of m) > max_bytes limits) \<and> current \<noteq> []")
      case True
      obtain packs1 singles1 where close: "close_pack current packs singles = (packs1, singles1)" by fastforce
      then have "\<forall>p \<in> set packs1. 2 \<le> length p"
        "mset (concat packs1) + mset singles1 = mset (concat packs) + mset singles + mset current"
        using 2(5) by (auto simp: close_pack_def split: if_splits)
      with 2(2) [OF small refl True close [symmetric] refl] 2(4) small True close show ?thesis by simp
    next
      case False
      have "group_loop size_of limits ms packs singles (current @ [m]) (saturating_add n (size_of m)) =
          (packs', singles')"
        using 2(4) small False by (auto simp: Let_def)
      from 2(3) [OF small refl False this 2(5)] show ?thesis by simp
    qed
  qed
qed (auto simp: close_pack_def split: if_splits)

section \<open>The worker keeps the invariant\<close>

lemma pack_members_of_blobs:
  "list_all is_blob us \<Longrightarrow> map Single (pack_members_of us) = map run_upload us"
  by (induction us rule: pack_members_of.induct) (auto simp: is_blob_def run_upload_def)

lemma run_upload_tickets [simp]: "work_tickets (run_upload u) = [item_ticket u]"
  by (cases u) (simp_all add: run_upload_def)

lemma run_upload_awaiting [simp]: "is_awaiting (run_upload u) \<longleftrightarrow> \<not> is_blob u"
  by (cases u) (simp_all add: run_upload_def is_awaiting_def is_blob_def)

lemma concat_run_upload: "concat (map work_tickets (map run_upload us)) = map item_ticket us"
  by (induction us) simp_all

lemma run_blob_phase_spec:
  assumes "list_all is_blob blobs" "\<forall>u \<in> set blobs. work_ok q nd acc (run_upload u)"
  shows "mset (concat (map work_tickets (run_blob_phase limits blobs))) = mset (map item_ticket blobs)"
    "list_all (\<lambda>u. \<not> is_awaiting u) (run_blob_phase limits blobs)"
    "list_all (work_ok q nd acc) (run_blob_phase limits blobs)"
proof -
  let ?good = "\<lambda>us. mset (concat (map work_tickets us)) = mset (map item_ticket blobs) \<and>
    list_all (\<lambda>u. \<not> is_awaiting u) us \<and> list_all (work_ok q nd acc) us"
  have alone: "?good (run_phase blobs)"
    using assms concat_run_upload [of blobs] by (simp add: run_phase_def list_all_iff)
  have packed: "?good (map Pack packs @ upload_members singles)"
    if "group_into_packs size_of (pack_members_of blobs) l = (packs, singles)" for size_of l packs singles
  proof -
    let ?ms = "pack_members_of blobs"
    have parts: "mset (concat packs) + mset singles = mset ?ms"
      using group_loop_parts [OF that [unfolded group_into_packs_def]] by simp
    then have sub: "set (concat packs) \<union> set singles = set ?ms"
      by (metis set_mset_mset set_mset_union)
    have "mset (map entry_done (concat packs)) + mset (map entry_done singles) = mset (map entry_done ?ms)"
      using parts by (metis image_mset_union mset_map)
    moreover have "map entry_done ?ms = concat (map work_tickets (map Single ?ms))"
      by (simp add: concat_map_singleton comp_def)
    moreover have "concat (map work_tickets (map Pack packs @ upload_members singles)) =
      map entry_done (concat packs) @ map entry_done singles"
      by (induction packs) (simp_all add: upload_members_def concat_map_singleton comp_def)
    ultimately have tickets:
      "mset (concat (map work_tickets (map Pack packs @ upload_members singles))) = mset (map item_ticket blobs)"
      by (simp add: pack_members_of_blobs [OF assms(1)] concat_run_upload del: map_map)
    have "entry_ok q m" if "m \<in> set ?ms" for m
    proof -
      have "Single m \<in> run_upload ` set blobs"
        using that arg_cong [OF pack_members_of_blobs [OF assms(1)], of set] by auto
      with assms(2) have "work_ok q nd acc (Single m)" by (metis imageE)
      then show ?thesis by simp
    qed
    then have "\<forall>m \<in> set (concat packs) \<union> set singles. entry_ok q m" unfolding sub by blast
    then have ok: "\<forall>p \<in> set packs. list_all (entry_ok q) p" "\<forall>m \<in> set singles. entry_ok q m"
      by (auto simp: list_all_iff)
    then have "list_all (\<lambda>u. \<not> is_awaiting u) (map Pack packs @ upload_members singles)"
      "list_all (work_ok q nd acc) (map Pack packs @ upload_members singles)"
      by (auto simp: upload_members_def is_awaiting_def list_all_iff)
    with tickets show ?thesis by (intro conjI)
  qed
  have "?good (run_blob_phase limits blobs)"
  proof (cases "length blobs < 2 \<or> limits = None")
    case True
    then have "run_blob_phase limits blobs = run_phase blobs" by (auto simp: run_blob_phase_def)
    with alone show ?thesis by simp
  next
    case False
    then obtain l where l: "limits = Some l" "\<not> length blobs < 2" by auto
    obtain packs singles where
      g: "group_into_packs (\<lambda>m. dsize (entry_digest m)) (pack_members_of blobs) l = (packs, singles)" by fastforce
    with l have "run_blob_phase limits blobs = map Pack packs @ upload_members singles"
      by (simp add: run_blob_phase_def)
    with packed [OF g] show ?thesis by (simp only:)
  qed
  then show "mset (concat (map work_tickets (run_blob_phase limits blobs))) = mset (map item_ticket blobs)"
    "list_all (\<lambda>u. \<not> is_awaiting u) (run_blob_phase limits blobs)"
    "list_all (work_ok q nd acc) (run_blob_phase limits blobs)" by simp_all
qed

lemma work_done_unsettled: "work_done q acc ts q' acc' ts' \<Longrightarrow> unsettled q' \<subseteq> unsettled q"
  by (fastforce simp: work_done_def grows_def same_book_def unsettled_def)

lemma work_done_left:
  assumes "work_done q acc ts q' acc' ts'" "t \<in> set ts" "t \<in> unsettled q'"
  shows "t \<in> set ts'"
proof -
  have "count (mset_set (unsettled q')) t = 1" "count (mset_set (unsettled q)) t \<le> 1"
    using assms(3) by (simp_all add: count_mset_set')
  moreover have "1 \<le> count (mset ts) t" using assms(2) by (simp add: Suc_le_eq)
  moreover have "count (mset_set (unsettled q')) t + count (mset ts) t =
    count (mset_set (unsettled q)) t + count (mset ts') t"
    using assms(1) by (metis work_done_def count_union)
  ultimately have "0 < count (mset ts') t" by linarith
  then show ?thesis by simp
qed

lemma work_step_awaiting:
  assumes "work_step w u us w'" "u' \<in> set us"
  shows "is_awaiting u' = is_awaiting u" "set (awaited u') \<subseteq> set (awaited u)"
  using assms
  by (auto simp: upload_pack_present_def upload_pack_send_def upload_members_def await_prerequisite_def
      is_awaiting_def Let_def split: if_splits option.splits elim!: work_step.cases)

lemma work_in_phase:
  assumes "work_step w u us w'" "works p = xs @ u # ys" "works p' = xs @ us @ ys" "held_back p' = held_back p"
    and "live_ok (queue w) p" "items_ok (queue w) nd (accepted w) p" "accepted_ok (queue w) (accepted w)"
    and "puts_ok (queue w) nd (accepted w) (results_put w)"
  shows "work_done (queue w) (accepted w) (work_tickets u) (queue w') (accepted w') (concat (map work_tickets us))"
    "live_ok (queue w') p'" "items_ok (queue w') nd (accepted w') p'" "accepted_ok (queue w') (accepted w')"
    "puts_ok (queue w') nd (accepted w') (results_put w')"
proof -
  have ok: "work_ok (queue w) nd (accepted w) u" using assms(2,6) by (simp add: items_ok_def)
  have "mset (work_tickets u) \<subseteq># mset_set (unsettled (queue w))"
    using assms(2,5) by (simp add: live_ok_def)
  note spec = work_step_spec [OF assms(1) ok assms(7) this]
  then show wd: "work_done (queue w) (accepted w) (work_tickets u) (queue w') (accepted w') (concat (map work_tickets us))"
    by simp
  then have grows: "grows (queue w) (queue w')" "accepted w \<subseteq> accepted w'" "pending (queue w') = pending (queue w)"
    by (simp_all add: work_done_def same_book_def)
  from wd assms(2-5) show "live_ok (queue w') p'"
    by (simp add: live_ok_def work_done_def same_book_def)
  have keep: "work_ok (queue w) nd a v \<Longrightarrow> a \<subseteq> accepted w' \<Longrightarrow> work_ok (queue w') nd (accepted w') v" for v a
    using work_ok_grows [OF grows(1)] by blast
  show "items_ok (queue w') nd (accepted w') p'"
    using assms(2-4,6) spec grows(2,3) keep [of "accepted w"] keep [of "accepted w'"]
    by (auto simp: items_ok_def list_all_iff)
  from wd show "accepted_ok (queue w') (accepted w')" by (simp add: work_done_def)
  obtain new where new: "results_put w' = results_put w @ new"
    "\<forall>(a, t) \<in> set new. t < length (slots (queue w)) \<and> set (nd t) \<subseteq> accepted w'"
    using spec by blast
  have "puts_ok (queue w') nd (accepted w') (results_put w)"
    by (rule puts_ok_grows [OF grows(1,2) _ assms(8)]) simp
  moreover have "length (slots (queue w')) = length (slots (queue w))"
    using wd by (simp add: work_done_def same_book_def)
  ultimately show "puts_ok (queue w') nd (accepted w') (results_put w')"
    using new by (simp add: puts_ok_def ball_Un)
qed

lemma not_blob: "\<not> is_blob u \<Longrightarrow> \<exists>a ts t. u = Action_result a ts t"
  by (cases u) (simp_all add: is_blob_def)

lemma result_obj:
  "work_ok q nd acc (run_upload u) \<Longrightarrow> \<not> is_blob u \<Longrightarrow> \<exists>a. obj q (item_ticket u) = Result_object a"
  by (cases u) (simp_all add: is_blob_def run_upload_def)

lemma take_batch_ok:
  assumes "take_batch limits q = (p, q')" "live_ok q Looping" "items_ok q nd acc Looping"
  shows "live_ok q' p \<and> items_ok q' nd acc p \<and> phase_ok q' p"
proof (cases "pending q = []")
  case True
  with assms show ?thesis by (auto simp: take_batch_def live_ok_def items_ok_def)
next
  case False
  define bs rs where "bs = filter is_blob (pending q)" and "rs = filter (\<lambda>u. \<not> is_blob u) (pending q)"
  have p: "p = Blobs (run_blob_phase limits bs) rs" and q': "q' = q\<lparr>pending := []\<rparr>"
    using assms(1) False by (simp_all add: take_batch_def bs_def rs_def)
  have same: "slots q' = slots q" "unsettled q' = unsettled q" "pending q' = []"
    by (simp_all add: q' unsettled_def snt_def)
  have ok: "\<forall>u \<in> run_upload ` set (pending q). work_ok q nd acc u" using assms(3) by (simp add: items_ok_def)
  then have "\<forall>u \<in> set bs. work_ok q nd acc (run_upload u)" by (simp add: bs_def)
  note blobs = run_blob_phase_spec [OF _ this, of limits]
  have bs: "list_all is_blob bs" by (simp add: bs_def list_all_iff)
  have split: "mset (map item_ticket bs) + mset (map item_ticket rs) = mset (map item_ticket (pending q))"
    unfolding bs_def rs_def by (rule mset_map_partition)
  have "mset (concat (map work_tickets (run_blob_phase limits bs))) = mset (map item_ticket bs)"
    using blobs(1) [OF bs] .
  with split assms(2) have live: "live_ok q' p" by (simp add: live_ok_def same p)
  have grows: "grows q q'" by (simp add: same grows_same_slots)
  have "work_ok q nd acc u" if "u \<in> set (works p) \<union> run_upload ` set (held_back p)" for u
    using that ok blobs(3) [OF bs] by (auto simp: p rs_def list_all_iff)
  then have items: "items_ok q' nd acc p"
    using work_ok_grows [OF grows order_refl, of nd nd acc] by (simp add: items_ok_def same)
  have "t \<in> set (concat (map work_tickets (run_blob_phase limits bs)))"
    if inr: "r \<in> set rs" and t: "t \<in> set (awaited (run_upload r))" "t \<in> unsettled q" for r t
  proof -
    have r: "r \<in> set (pending q)" "\<not> is_blob r" using inr by (simp_all add: rs_def)
    obtain a ts d0 where a: "r = Action_result a ts d0" using not_blob [OF r(2)] by blast
    have "work_ok q nd acc (run_upload r)" using ok r(1) by simp
    with a t(1) have blob: "\<exists>d. obj q t = Blob_object d" by (simp add: run_upload_def covered_def)
    have "mset_set (unsettled q) = mset (map item_ticket (pending q))" using assms(2) by (simp add: live_ok_def)
    from arg_cong [OF this, of set_mset] t(2) obtain u where u: "u \<in> set (pending q)" "t = item_ticket u" by auto
    with ok have "work_ok q nd acc (run_upload u)" by simp
    then have "is_blob u" using blob u(2) result_obj by fastforce
    with u have "t \<in> set (map item_ticket bs)" by (auto simp: bs_def)
    then show ?thesis using arg_cong [OF blobs(1) [OF bs], of set_mset] by simp
  qed
  then have "phase_ok q' p"
    using blobs(2) [OF bs] unfolding p phase_ok.simps same by (simp add: rs_def list_all_iff) blast
  with live items show ?thesis by blast
qed

lemma wake_ok_work: "same_book q q' \<Longrightarrow> wake_ok q (Blobs us rs) \<Longrightarrow> wake_ok q' (Blobs us' rs)"
  "same_book q q' \<Longrightarrow> wake_ok q (Results us) \<Longrightarrow> wake_ok q' (Results us')"
  by (simp_all add: wake_ok_def same_book_def)

lemma phase_ok_blob_work:
  assumes "work_step w u us w'" "phase_ok q (Blobs (xs @ u # ys) rs)"
    and "work_done q acc (work_tickets u) q' acc' (concat (map work_tickets us))"
  shows "phase_ok q' (Blobs (xs @ us @ ys) rs)"
proof -
  have "list_all (\<lambda>u. \<not> is_awaiting u) (xs @ us @ ys)"
    using assms(2) work_step_awaiting(1) [OF assms(1)] by (auto simp: list_all_iff)
  moreover have "t \<in> set (concat (map work_tickets (xs @ us @ ys)))"
    if "r \<in> set rs" "t \<in> set (awaited (run_upload r))" "t \<in> unsettled q'" for r t
  proof -
    have "t \<in> unsettled q" using that(3) work_done_unsettled [OF assms(3)] by blast
    with assms(2) that(1,2) have "t \<in> set (concat (map work_tickets (xs @ u # ys)))" by auto
    then show ?thesis using work_done_left [OF assms(3) _ that(3)] by auto
  qed
  moreover have "list_all (\<lambda>u. \<not> is_blob u) rs" using assms(2) by simp
  ultimately show ?thesis unfolding phase_ok.simps by blast
qed

lemma phase_ok_result_work:
  assumes "work_step w u us w'" "phase_ok q (Results (xs @ u # ys))" "unsettled q' \<subseteq> unsettled q"
  shows "phase_ok q' (Results (xs @ us @ ys))"
proof -
  have "list_all is_awaiting (xs @ us @ ys)"
    using assms(2) work_step_awaiting(1) [OF assms(1)] by (auto simp: list_all_iff)
  moreover have "set (awaited v) \<inter> unsettled q' = {}" if "v \<in> set (xs @ us @ ys)" for v
  proof (cases "v \<in> set us")
    case True
    have "set (awaited u) \<inter> unsettled q = {}" using assms(2) by simp
    with work_step_awaiting(2) [OF assms(1) True] assms(3) show ?thesis by blast
  next
    case False
    with that assms(2) have "set (awaited v) \<inter> unsettled q = {}" by auto
    with assms(3) show ?thesis by blast
  qed
  ultimately show ?thesis by simp
qed

lemma worker_step_ok:
  assumes "worker_step p w p' w'" "book_ok w p nd"
  shows "book_ok w' p' nd \<and> grows (queue w) (queue w')"
  using assms
proof (cases rule: worker_step.cases)
  case (take_work limits q)
  have "slots q = slots (queue w)" "blob_tickets q = blob_tickets (queue w)"
    using take_work(3) by (auto simp: take_batch_def split: if_splits)
  then have grows: "grows (queue w) q" "blob_tickets q = blob_tickets (queue w)" by (simp_all add: grows_same_slots)
  have "wake_ok q p'"
    using assms(2) take_work(1,3) by (auto simp: book_ok_def wake_ok_def take_batch_def split: if_splits)
  moreover have "accepted_ok q (accepted w)"
    using assms(2) \<open>slots q = slots (queue w)\<close> by (simp add: book_ok_def accepted_ok_def obj_def snt_def)
  ultimately show ?thesis
    using take_batch_ok [OF take_work(3), of nd "accepted w"] assms(2) take_work(1,2) grows maps_ok_grows [OF grows]
      puts_ok_grows [OF grows(1), where acc = "accepted w" and acc' = "accepted w" and nd = nd and nd' = nd
        and puts = "results_put w"]
    by (simp add: book_ok_def)
next
  case decide
  then show ?thesis
    using assms(2)
    by (cases "draining (queue w)") (auto simp: book_ok_def loop_again_def live_ok_def items_ok_def wake_ok_def)
next
  case wake
  have same: "grows (queue w) (queue w')" "unsettled (queue w') = unsettled (queue w)"
    "slots (queue w') = slots (queue w)"
    unfolding wake(3) by (simp_all add: grows_same_slots unsettled_def snt_def)
  have "work_ok (queue w') nd (accepted w) u" if "work_ok (queue w) nd (accepted w) u" for u
    by (rule work_ok_grows [OF same(1) order_refl _ that]) simp
  then show ?thesis
    using assms(2) same maps_ok_grows [OF same(1)] wake
      puts_ok_grows [OF same(1), where acc = "accepted w" and acc' = "accepted w" and nd = nd and nd' = nd
        and puts = "results_put w"]
    by (auto simp: book_ok_def live_ok_def items_ok_def wake_ok_def accepted_ok_def obj_def snt_def)
next
  case (blob_work u us xs ys rs)
  have ok: "live_ok (queue w) p" "items_ok (queue w) nd (accepted w) p" "accepted_ok (queue w) (accepted w)"
    "puts_ok (queue w) nd (accepted w) (results_put w)" "phase_ok (queue w) p" "maps_ok (queue w)" "wake_ok (queue w) p"
    using assms(2) by (simp_all add: book_ok_def)
  have eqs: "works p = xs @ u # ys" "works p' = xs @ us @ ys" "held_back p' = held_back p"
    by (simp_all add: blob_work(1,2))
  note w' = work_in_phase [OF blob_work(3) eqs ok(1-4)]
  have gs: "grows (queue w) (queue w')" "same_book (queue w) (queue w')" using w'(1) by (simp_all add: work_done_def)
  have "maps_ok (queue w')"
    by (rule maps_ok_grows [OF gs(1) _ ok(6)]) (use gs(2) in \<open>simp add: same_book_def\<close>)
  moreover have "phase_ok (queue w') p'"
    using phase_ok_blob_work [OF blob_work(3) _ w'(1)] ok(5) unfolding blob_work(1,2) by blast
  moreover have "wake_ok (queue w') p'" using wake_ok_work(1) [OF gs(2)] ok(7) unfolding blob_work(1,2) by blast
  ultimately show ?thesis using w'(2-5) gs(1) by (simp add: book_ok_def)
next
  case (blobs_done rs)
  have "list_all is_awaiting (run_phase rs)" using assms(2) blobs_done by (simp add: book_ok_def run_phase_def list_all_iff)
  then show ?thesis
    using assms(2) blobs_done concat_run_upload [of rs]
    by (auto simp: book_ok_def live_ok_def items_ok_def wake_ok_def run_phase_def)
next
  case (result_work u us xs ys)
  have ok: "live_ok (queue w) p" "items_ok (queue w) nd (accepted w) p" "accepted_ok (queue w) (accepted w)"
    "puts_ok (queue w) nd (accepted w) (results_put w)" "phase_ok (queue w) p" "maps_ok (queue w)" "wake_ok (queue w) p"
    using assms(2) by (simp_all add: book_ok_def)
  have eqs: "works p = xs @ u # ys" "works p' = xs @ us @ ys" "held_back p' = held_back p"
    by (simp_all add: result_work(1,2))
  note w' = work_in_phase [OF result_work(3) eqs ok(1-4)]
  have gs: "grows (queue w) (queue w')" "same_book (queue w) (queue w')" using w'(1) by (simp_all add: work_done_def)
  have "maps_ok (queue w')"
    by (rule maps_ok_grows [OF gs(1) _ ok(6)]) (use gs(2) in \<open>simp add: same_book_def\<close>)
  moreover have "phase_ok (queue w') p'"
    using phase_ok_result_work [OF result_work(3) _ work_done_unsettled [OF w'(1)]] ok(5) unfolding result_work(1,2) by blast
  moreover have "wake_ok (queue w') p'" using wake_ok_work(2) [OF gs(2)] ok(7) unfolding result_work(1,2) by blast
  ultimately show ?thesis using w'(2-5) gs(1) by (simp add: book_ok_def)
next
  case results_done
  then show ?thesis
    using assms(2) by (auto simp: book_ok_def live_ok_def items_ok_def wake_ok_def)
qed

section \<open>The connections keep the invariant\<close>

lemma new_slot:
  assumes "slots q' = slots q @ [\<lparr>sent = None, polled = False, object = x\<rparr>]"
  shows "grows q q'" "obj q' (length (slots q)) = x" "unsettled q' = insert (length (slots q)) (unsettled q)"
    "mset_set (unsettled q') = add_mset (length (slots q)) (mset_set (unsettled q))"
proof -
  show "grows q q'" "obj q' (length (slots q)) = x"
    using assms by (auto simp: grows_def obj_def snt_def nth_append)
  show un: "unsettled q' = insert (length (slots q)) (unsettled q)"
    using assms by (auto simp: unsettled_def snt_def nth_append less_Suc_eq)
  have "length (slots q) \<notin> unsettled q" by (simp add: unsettled_def)
  then show "mset_set (unsettled q') = add_mset (length (slots q)) (mset_set (unsettled q))"
    by (simp add: un)
qed

lemma spawned_simps [simp]:
  "works (spawned p) = works p" "held_back (spawned p) = held_back p" "phase_ok q (spawned p) = phase_ok q p"
  by (cases p; simp add: spawned_def)+

lemma phase_ok_new_slot:
  assumes "phase_ok q p" "items_ok q nd acc p" "unsettled q' = insert (length (slots q)) (unsettled q)"
  shows "phase_ok q' p"
proof -
  have fresh: "length (slots q) \<notin> set (awaited u)" if "work_ok q nd acc u" for u
    using that by (cases u) (auto simp: covered_def)
  show ?thesis
  proof (cases p)
    case (Blobs us rs)
    with assms(2) fresh have "\<forall>r \<in> set rs. length (slots q) \<notin> set (awaited (run_upload r))"
      by (auto simp: items_ok_def)
    with assms(1,3) Blobs show ?thesis by auto
  next
    case (Results us)
    with assms(2) fresh have "\<forall>u \<in> set us. length (slots q) \<notin> set (awaited u)" by (auto simp: items_ok_def)
    with assms(1,3) Results show ?thesis by auto
  qed simp_all
qed

lemma add_item_ok:
  assumes "book_ok w p nd" "slots q' = slots (queue w) @ [\<lparr>sent = None, polled = False, object = x\<rparr>]"
    and "pending q' = pending (queue w) @ [u]" "item_ticket u = length (slots (queue w))"
    and "notified q'" "worker q'" "\<not> draining q'" "\<not> draining (queue w)" "maps_ok q'"
    and "\<forall>t < length (slots (queue w)). nd' t = nd t" "work_ok q' nd' (accepted w) (run_upload u)"
  shows "book_ok (w\<lparr>queue := q'\<rparr>) (spawned p) nd'"
proof -
  let ?q = "queue w"
  note new = new_slot [OF assms(2)]
  have ok: "live_ok ?q p" "items_ok ?q nd (accepted w) p" "phase_ok ?q p" "accepted_ok ?q (accepted w)"
    "puts_ok ?q nd (accepted w) (results_put w)" "wake_ok ?q p"
    using assms(1) by (simp_all add: book_ok_def)
  have "live_ok q' (spawned p)" using ok(1) assms(3,4) by (simp add: live_ok_def new(4))
  moreover have "items_ok q' nd' (accepted w) (spawned p)"
    using ok(2) assms(3,11) work_ok_grows [OF new(1) order_refl assms(10)] by (auto simp: items_ok_def)
  moreover have "phase_ok q' (spawned p)" using phase_ok_new_slot [OF ok(3,2) new(3)] by simp
  moreover have "accepted_ok q' (accepted w)"
    using ok(4) assms(2) by (auto simp: accepted_ok_def obj_def snt_def nth_append less_Suc_eq)
  moreover have "puts_ok q' nd' (accepted w) (results_put w)"
    by (rule puts_ok_grows [OF new(1) order_refl assms(10) ok(5)])
  moreover have "wake_ok q' (spawned p)" using ok(6) assms(5-8) by (auto simp: wake_ok_def spawned_def)
  ultimately show ?thesis using assms(9) by (simp add: book_ok_def)
qed

lemma maps_ok_insert:
  assumes "maps_ok q" "grows q q'" "t < length (slots q')" "obj q' t = Blob_object d"
    and "blob_tickets q' = bt_insert d t (blob_tickets q)"
  shows "maps_ok q'"
proof -
  have "t' < length (slots q') \<and> obj q' t' = Blob_object d'" if "(d', t') \<in> set (blob_tickets q)" for d' t'
    using assms(1,2) that by (auto simp: maps_ok_def grows_def)
  then show ?thesis
    using assms set_bt_insert [of d t "blob_tickets q"] by (auto simp: maps_ok_def)
qed

lemma conns_ok_record:
  assumes "conns_ok q cs ask" "t < length (slots q)" "obj q t = Blob_object d"
  shows "conns_ok q (cs(n := record_ticket t (cs n))) (ask(n := ask n @ [d]))"
  using assms by (auto simp: conns_ok_def record_ticket_def)

lemma start_blob_ok:
  assumes "start_blob d path (conns s n) (queue (world s)) = (c, q)" "system_ok s" "\<not> draining (queue (world s))"
  shows "book_ok ((world s)\<lparr>queue := q\<rparr>) (spawned (phase s)) (needs s) \<and> worker q \<and>
    conns_ok q ((conns s)(n := c)) ((asked s)(n := asked s n @ [d]))"
proof -
  let ?q = "queue (world s)" and ?t = "length (slots (queue (world s)))"
  have q: "slots q = slots ?q @ [\<lparr>sent = None, polled = False, object = Blob_object d\<rparr>]"
    "pending q = pending ?q @ [Blob d path ?t]" "notified q" "worker q" "draining q = draining ?q"
    "blob_tickets q = bt_insert d ?t (blob_tickets ?q)" "c = record_ticket ?t (conns s n)"
    using assms(1) by (auto simp: start_blob_def ticket_channel_def push_def)
  note new = new_slot [OF q(1)]
  have len: "?t < length (slots q)" by (simp add: q(1))
  have book: "book_ok (world s) (phase s) (needs s)" using assms(2) by (simp add: system_ok_def)
  have "maps_ok q"
    using maps_ok_insert [OF _ new(1) len new(2) q(6)] book by (simp add: book_ok_def)
  moreover have "work_ok q (needs s) (accepted (world s)) (run_upload (Blob d path ?t))"
    using new(2) len by (simp add: run_upload_def entry_ok_def)
  ultimately have "book_ok ((world s)\<lparr>queue := q\<rparr>) (spawned (phase s)) (needs s)"
    using add_item_ok [OF book q(1,2)] q(3-5) assms(3) by simp
  moreover have "conns_ok q ((conns s)(n := c)) ((asked s)(n := asked s n @ [d]))"
    unfolding q(7) using conns_ok_record [OF conns_ok_grows [OF new(1), of "conns s" "asked s"] len new(2)] assms(2)
    by (simp add: system_ok_def)
  ultimately show ?thesis using q(4) by simp
qed

lemma queue_action_result_ok:
  assumes "queue_action_result a (conns s n) (queue (world s)) = q" "system_ok s" "\<not> draining (queue (world s))"
  shows "book_ok ((world s)\<lparr>queue := q\<rparr>) (spawned (phase s))
      ((needs s)(length (slots (queue (world s))) := asked s n)) \<and>
    grows (queue (world s)) q"
proof -
  let ?q = "queue (world s)" and ?t = "length (slots (queue (world s)))"
  let ?ts = "if prerequisites (conns s n) = [] then map snd (blob_tickets ?q) else prerequisites (conns s n)"
  have q: "slots q = slots ?q @ [\<lparr>sent = None, polled = False, object = Result_object a\<rparr>]"
    "pending q = pending ?q @ [Action_result a ?ts ?t]" "notified q" "worker q" "draining q = draining ?q"
    "blob_tickets q = blob_tickets ?q"
    using assms(1) by (auto simp: queue_action_result_def ticket_channel_def push_def Let_def)
  note new = new_slot [OF q(1)]
  have book: "book_ok (world s) (phase s) (needs s)" and conns: "conns_ok ?q (conns s) (asked s)"
    using assms(2) by (simp_all add: system_ok_def)
  have maps: "maps_ok ?q" "maps_ok q" using book maps_ok_grows [OF new(1) q(6)] by (simp_all add: book_ok_def)
  have "covered ?q (asked s n) (accepted (world s)) ?ts"
  proof (cases "tickets (conns s n) = []")
    case True
    then have "asked s n = []" using conns by (metis conns_ok_def list.map_disc_iff)
    with True maps(1) show ?thesis by (auto simp: covered_def prerequisites_def maps_ok_def)
  next
    case False
    have "map (obj ?q) (tickets (conns s n)) = map Blob_object (asked s n)"
      "\<forall>t \<in> set (tickets (conns s n)). t < length (slots ?q)"
      using conns by (simp_all add: conns_ok_def)
    from arg_cong [OF this(1), of set] this(2) False show ?thesis by (auto simp: covered_def prerequisites_def)
  qed
  then have "covered q (asked s n) (accepted (world s)) ?ts" by (rule covered_grows [OF new(1) order_refl])
  then have "work_ok q ((needs s)(?t := asked s n)) (accepted (world s)) (run_upload (Action_result a ?ts ?t))"
    using new(2) by (simp add: run_upload_def q(1))
  then have "book_ok ((world s)\<lparr>queue := q\<rparr>) (spawned (phase s)) ((needs s)(?t := asked s n))"
    using add_item_ok [OF book q(1,2)] q(3-5) assms(3) maps(2) by simp
  with new(1) show ?thesis by simp
qed

lemma book_ok_same:
  assumes "book_ok w p nd" "grows (queue w) q" "grows q (queue w)" "same_book (queue w) q"
    "unsettled q = unsettled (queue w)"
  shows "book_ok (w\<lparr>queue := q\<rparr>) p nd"
proof -
  have book: "pending q = pending (queue w)" "length (slots q) = length (slots (queue w))"
    using assms(4) by (simp_all add: same_book_def)
  have "items_ok q nd (accepted w) p"
    using assms(1) work_ok_grows [OF assms(2) order_refl, of nd nd "accepted w"] by (auto simp: book_ok_def items_ok_def book)
  moreover have "phase_ok q p" using assms(1,5) by (cases p) (auto simp: book_ok_def)
  moreover have "accepted_ok q (accepted w)"
    unfolding accepted_ok_def
  proof (intro allI impI)
    fix t d
    assume t: "t < length (slots q)" "obj q t = Blob_object d \<and> snt q t = Some Uploaded"
    then have "obj (queue w) t = Blob_object d \<and> snt (queue w) t = Some Uploaded"
      using assms(3) by (auto simp: grows_def)
    with t(1) assms(1) book(2) show "d \<in> accepted w" by (simp add: book_ok_def accepted_ok_def)
  qed
  moreover have "puts_ok q nd (accepted w) (results_put w)"
    using assms(1) by (simp add: book_ok_def puts_ok_def book)
  moreover have "maps_ok q" using maps_ok_grows [OF assms(2)] assms(1,4) by (simp add: book_ok_def same_book_def)
  moreover have "wake_ok q p" using assms(1,4) by (simp add: book_ok_def wake_ok_def same_book_def)
  ultimately show ?thesis using assms(1,5) by (simp add: book_ok_def live_ok_def book)
qed

lemma drain_ok:
  assumes "book_ok w p nd" "\<not> draining (queue w)"
  shows "book_ok (w\<lparr>queue := drain (queue w)\<rparr>) (if worker (queue w) then p else Looping) nd \<and>
    grows (queue w) (drain (queue w))"
proof -
  let ?q = "drain (queue w)" and ?p = "if worker (queue w) then p else Looping"
  have same: "slots ?q = slots (queue w)" "pending ?q = pending (queue w)" "blob_tickets ?q = blob_tickets (queue w)"
    by (simp_all add: drain_def)
  have grows: "grows (queue w) ?q" by (simp add: same grows_same_slots)
  have un: "unsettled ?q = unsettled (queue w)" by (simp add: unsettled_def snt_def same)
  have p: "works ?p = works p" "held_back ?p = held_back p" "phase_ok ?q ?p"
    using assms un by (cases p; simp add: book_ok_def wake_ok_def)+
  have "items_ok ?q nd (accepted w) ?p"
    using assms(1) work_ok_grows [OF grows order_refl, of nd nd "accepted w"]
    by (auto simp: book_ok_def items_ok_def same p)
  moreover have "wake_ok ?q ?p" using assms by (auto simp: book_ok_def wake_ok_def drain_def)
  moreover have "maps_ok ?q" using maps_ok_grows [OF grows same(3)] assms(1) by (simp add: book_ok_def)
  ultimately show ?thesis
    using assms(1) p grows by (simp add: book_ok_def live_ok_def same un accepted_ok_def puts_ok_def obj_def snt_def)
qed

lemma system_step_ok:
  assumes "system_step s s'" "system_ok s"
  shows "system_ok s'"
  using assms
proof (cases rule: system_step.cases)
  case (blob d path n c q)
  let ?q = "queue (world s)"
  have book: "book_ok (world s) (phase s) (needs s)" and conns: "conns_ok ?q (conns s) (asked s)"
    using assms(2) by (simp_all add: system_ok_def)
  show ?thesis
  proof (cases "\<exists>t. bt_get (blob_tickets ?q) d = Some t \<and> reusable ?q t")
    case True
    then obtain t where t: "bt_get (blob_tickets ?q) d = Some t" "reusable ?q t" by blast
    then have cq: "c = record_ticket t (conns s n)" "q = ?q" using blob(3) by (simp_all add: queue_blob_def)
    have "(d, t) \<in> set (blob_tickets ?q)" using t(1) by (rule map_of_SomeD)
    with book have "t < length (slots ?q)" "obj ?q t = Blob_object d" by (auto simp: book_ok_def maps_ok_def)
    from conns_ok_record [OF conns this] have "conns_ok ?q ((conns s)(n := c)) ((asked s)(n := asked s n @ [d]))"
      by (simp add: cq)
    moreover have "(if worker ?q then spawned (phase s) else phase s) = phase s"
      using book blob(2) by (auto simp: book_ok_def wake_ok_def spawned_def)
    ultimately show ?thesis using book blob(1) cq by (simp add: system_ok_def set_queue_def)
  next
    case False
    then have "start_blob d path (conns s n) ?q = (c, q)"
      using blob(3) by (auto simp: queue_blob_def split: option.splits if_splits)
    from start_blob_ok [OF this assms(2) blob(2)] blob(1) show ?thesis by (simp add: system_ok_def set_queue_def)
  qed
next
  case (result a n q)
  from queue_action_result_ok [OF result(3) assms(2) result(2)] result(1) assms(2) conns_ok_grows
  show ?thesis by (auto simp: system_ok_def set_queue_def)
next
  case (connect n)
  with assms(2) show ?thesis by (auto simp: system_ok_def conns_ok_def new_connection_def)
next
  case (wait_results as r q)
  let ?q = "queue (world s)"
  have "q = fold (mark_polled \<circ> snd) (held_tickets as ?q) ?q"
    using wait_results(2) by (auto simp: wait_for_action_outcomes_def Let_def split: if_splits)
  with fold_mark_polled have same: "same_book ?q q" "grows ?q q" "grows q ?q" "unsettled q = unsettled ?q" by auto
  have book: "book_ok (world s) (phase s) (needs s)" and conns: "conns_ok ?q (conns s) (asked s)"
    using assms(2) by (simp_all add: system_ok_def)
  from book_ok_same [OF book same(2,3,1,4)] conns_ok_grows [OF same(2) conns] wait_results(1)
  show ?thesis by (simp add: system_ok_def set_queue_def)
next
  case start_drain
  from drain_ok [of "world s" "phase s" "needs s"] start_drain assms(2) conns_ok_grows show ?thesis
    by (auto simp: system_ok_def set_queue_def start_draining_def)
next
  case (run p w)
  from worker_step_ok [OF run(2), of "needs s"] run(1) assms(2) conns_ok_grows show ?thesis
    by (auto simp: system_ok_def)
qed

lemma system_ok_new: "system_ok new_system"
  by (simp add: system_ok_def new_system_def book_ok_def live_ok_def items_ok_def accepted_ok_def puts_ok_def
      maps_ok_def wake_ok_def conns_ok_def new_queue_def new_connection_def unsettled_def)

interpretation uploads: guarded_steps system_step "\<lambda>s. s = new_system" system_ok
  by unfold_locales (simp_all add: system_ok_new system_step_ok)

lemma reachable_ok:
  assumes "system_step\<^sup>*\<^sup>* new_system s"
  shows "system_ok s"
  using uploads.reached_holds [OF assms] by simp

end
