(* ===== verification/Upload_Properties.thy ===== *)
theory Upload_Properties
  imports Upload_Invariant
begin

text \<open>
  What the upload queue promises: results follow their blobs, draining ends and settles every
  upload, and no digest is uploaded twice.
\<close>

section \<open>Draining ends\<close>

fun work_size :: "work \<Rightarrow> nat" where
  "work_size (Pack ms) = 3 * length ms + 3"
| "work_size (Framed ms) = 2 * length ms + 2"
| "work_size (Single m) = 1"
| "work_size (Awaiting a ts t) = length ts + 1"

definition item_size :: "queued_upload \<Rightarrow> nat" where
  "item_size u = work_size (run_upload u) + 9"

fun phase_size :: "phase \<Rightarrow> nat" where
  "phase_size (Blobs us rs) = sum_list (map work_size us) + sum_list (map (\<lambda>r. work_size (run_upload r) + 4) rs) + 5"
| "phase_size (Results us) = sum_list (map work_size us) + 4"
| "phase_size Looping = 3"
| "phase_size Took_nothing = 2"
| "phase_size Waiting = 1"
| "phase_size Not_started = 0"
| "phase_size Stopped = 0"

definition run_size :: "phase \<Rightarrow> upload_world \<Rightarrow> nat" where
  "run_size p w = phase_size p + sum_list (map item_size (pending (queue w))) + (if notified (queue w) then 5 else 0)"

lemma work_step_size:
  assumes "work_step w u us w'"
  shows "sum_list (map work_size us) < work_size u"
  using assms
proof (cases rule: work_step.cases)
  case (pack_present file_exists ms)
  have "length (filter (\<lambda>m. file_exists (entry_path m)) ms) \<le> length ms" by (rule length_filter_le)
  then have "2 * length (filter (\<lambda>m. file_exists (entry_path m)) ms) < Suc (3 * length ms)" by linarith
  with pack_present show ?thesis
    by (auto simp: upload_pack_present_def upload_members_def Let_def comp_def sum_list_triv split: if_splits)
next
  case (pack_send receipt ms)
  then show ?thesis
    by (auto simp: upload_pack_send_def upload_members_def comp_def sum_list_triv split: if_splits)
next
  case (await a t ts dn)
  then show ?thesis by (auto simp: await_prerequisite_def Let_def split: option.splits if_splits)
qed simp_all

lemma run_blob_phase_size:
  assumes "list_all is_blob blobs"
  shows "sum_list (map work_size (run_blob_phase limits blobs)) \<le> 5 * length blobs"
proof (cases "length blobs < 2 \<or> limits = None")
  case True
  have "work_size (run_upload u) = 1" if "u \<in> set blobs" for u
    using assms that by (cases u) (auto simp: list_all_iff is_blob_def run_upload_def)
  then have "map work_size (map run_upload blobs) = map (\<lambda>_. 1) blobs" by simp
  then have "sum_list (map work_size (map run_upload blobs)) = length blobs" by (simp only: sum_list_triv) simp
  moreover have "run_blob_phase limits blobs = map run_upload blobs"
    using True by (auto simp: run_blob_phase_def run_phase_def)
  ultimately show ?thesis by simp
next
  case False
  then obtain l where l: "limits = Some l" "\<not> length blobs < 2" by auto
  let ?ms = "pack_members_of blobs"
  obtain packs singles where g: "group_into_packs (\<lambda>m. dsize (entry_digest m)) ?ms l = (packs, singles)" by fastforce
  have parts: "\<forall>p \<in> set packs. 2 \<le> length p" "mset (concat packs) + mset singles = mset ?ms"
    using group_loop_parts [OF g [unfolded group_into_packs_def]] by simp_all
  have "length ?ms = length blobs"
    using arg_cong [OF pack_members_of_blobs [OF assms], of length] by simp
  then have len: "length (concat packs) + length singles = length blobs"
    using arg_cong [OF parts(2), of size] by simp
  have "sum_list (map work_size (map Pack packs)) \<le> 5 * length (concat packs)"
    using parts(1) by (induction packs) (auto simp: algebra_simps)
  moreover have "sum_list (map work_size (upload_members singles)) = length singles"
    by (simp add: upload_members_def comp_def sum_list_triv)
  moreover have "run_blob_phase limits blobs = map Pack packs @ upload_members singles"
    using l g by (simp add: run_blob_phase_def)
  ultimately show ?thesis using len by simp
qed

lemma sum_list_partition:
  "sum_list (map f xs) = sum_list (map f (filter P xs)) + sum_list (map f (filter (\<lambda>x. \<not> P x) xs))" for f :: "'a \<Rightarrow> nat"
  by (induction xs) auto

lemma take_batch_size:
  assumes "take_batch limits q = (p, q')" "pending q \<noteq> []"
  shows "phase_size p < 3 + sum_list (map item_size (pending q))"
proof -
  define bs rs where "bs = filter is_blob (pending q)" and "rs = filter (\<lambda>u. \<not> is_blob u) (pending q)"
  have p: "p = Blobs (run_blob_phase limits bs) rs" using assms by (simp add: take_batch_def bs_def rs_def)
  have sum: "sum_list (map item_size (pending q)) = sum_list (map item_size bs) + sum_list (map item_size rs)"
    unfolding bs_def rs_def by (rule sum_list_partition)
  have blobs: "sum_list (map work_size (run_blob_phase limits bs)) \<le> 5 * length bs"
    by (rule run_blob_phase_size) (simp add: bs_def list_all_iff)
  have "sum_list (map item_size us) \<ge> 9 * length us" for us by (induction us) (auto simp: item_size_def)
  then have nine: "9 * length bs \<le> sum_list (map item_size bs)" .
  have rest: "sum_list (map (\<lambda>r. work_size (run_upload r) + 4) us) + 5 * length us = sum_list (map item_size us)" for us
    by (induction us) (auto simp: item_size_def)
  have "1 \<le> length bs + length rs"
    using assms(2) by (cases "pending q") (auto simp: bs_def rs_def)
  with sum blobs nine rest [of rs] show ?thesis unfolding p by simp
qed

lemma work_step_book:
  assumes "work_step w u us w'"
  shows "same_book (queue w) (queue w')"
proof -
  have fold: "same_book q (fold (\<lambda>t. send t r) ts q)" for r ts q
    by (induction ts arbitrary: q) (auto intro: same_book_trans [OF send_same_book])
  show ?thesis
    using assms
  proof (cases rule: work_step.cases)
    case (single file_exists answer m)
    then show ?thesis using upload_member_queue [of file_exists answer m w] by (metis send_same_book)
  next
    case (await a t ts dn)
    then show ?thesis
      by (auto simp: await_prerequisite_def Let_def split: option.splits if_splits
          intro: same_book_trans [OF mark_polled_same_book(1) send_same_book])
  next
    case (put_result ok a dn)
    then show ?thesis by (cases ok) (auto simp: put_action_result_def Let_def)
  qed (auto simp: upload_pack_present_def upload_pack_send_def Let_def fold_skip_absent fold_accept_member fold
      split: if_splits)
qed

lemma draining_step:
  assumes "worker_step p w p' w'" "draining (queue w)"
  shows "run_size p' w' < run_size p w" "draining (queue w')"
    "(p' = Took_nothing \<or> p' = Stopped \<longrightarrow> pending (queue w') = []) \<or> (p = Took_nothing \<and> pending (queue w) \<noteq> [])"
proof -
  have "run_size p' w' < run_size p w \<and> draining (queue w') \<and>
    ((p' = Took_nothing \<or> p' = Stopped \<longrightarrow> pending (queue w') = []) \<or> (p = Took_nothing \<and> pending (queue w) \<noteq> []))"
    using assms
  proof (cases rule: worker_step.cases)
    case (take_work limits q)
    show ?thesis
    proof (cases "pending (queue w) = []")
      case True
      with take_work assms(2) show ?thesis by (auto simp: take_batch_def run_size_def)
    next
      case False
      have "q = (queue w)\<lparr>pending := []\<rparr>" "p' \<noteq> Took_nothing" "p' \<noteq> Stopped"
        using False take_work(3) by (auto simp: take_batch_def)
      with take_batch_size [OF take_work(3) False] take_work(1,2) assms(2) show ?thesis
        by (simp add: run_size_def)
    qed
  next
    case (blob_work u us xs ys rs)
    with work_step_size [OF blob_work(3)] work_step_book [OF blob_work(3)] assms(2) show ?thesis
      by (simp add: run_size_def same_book_def)
  next
    case (blobs_done rs)
    have "sum_list (map work_size (run_phase rs)) \<le> sum_list (map (\<lambda>r. work_size (run_upload r) + 4) rs)"
      by (induction rs) (simp_all add: run_phase_def)
    with blobs_done assms(2) show ?thesis by (simp add: run_size_def)
  next
    case (result_work u us xs ys)
    with work_step_size [OF result_work(3)] work_step_book [OF result_work(3)] assms(2) show ?thesis
      by (simp add: run_size_def same_book_def)
  qed (use assms(2) in \<open>auto simp: run_size_def loop_again_def\<close>)
  then show "run_size p' w' < run_size p w" "draining (queue w')"
    "(p' = Took_nothing \<or> p' = Stopped \<longrightarrow> pending (queue w') = []) \<or> (p = Took_nothing \<and> pending (queue w) \<noteq> [])"
    by simp_all
qed

definition worker_run :: "phase \<times> upload_world \<Rightarrow> phase \<times> upload_world \<Rightarrow> bool" where
  "worker_run = (\<lambda>(p, w) (p', w'). worker_step p w p' w')"

lemma worker_progress:
  assumes "book_ok w p nd" "draining (queue w)" "p \<noteq> Stopped"
  shows "\<exists>p' w'. worker_step p w p' w'"
proof (cases p)
  case Looping
  obtain p' q where "take_batch None (queue w) = (p', q)" by fastforce
  with Looping worker_step.take_work show ?thesis by blast
next
  case Waiting
  with assms(1,2) have "notified (queue w)" by (simp add: book_ok_def wake_ok_def)
  with Waiting worker_step.wake show ?thesis by blast
next
  case (Blobs us rs)
  show ?thesis
  proof (cases us)
    case Nil
    with Blobs worker_step.blobs_done show ?thesis by blast
  next
    case (Cons u us')
    with assms(1) Blobs have "\<not> is_awaiting u" by (simp add: book_ok_def)
    then obtain vs w' where "work_step w u vs w'"
      by (cases u) (auto simp: is_awaiting_def intro: work_step.pack_present [OF surjective_pairing]
          work_step.pack_send [OF surjective_pairing] work_step.single [OF refl])
    with worker_step.blob_work [of w u vs w' "[]" us' rs] show ?thesis by (auto simp: Blobs Cons)
  qed
next
  case (Results us)
  show ?thesis
  proof (cases us)
    case Nil
    with Results worker_step.results_done show ?thesis by blast
  next
    case (Cons u us')
    with assms(1) Results have u: "is_awaiting u" "set (awaited u) \<inter> unsettled (queue w) = {}"
      "work_ok (queue w) nd (accepted w) u"
      by (simp_all add: book_ok_def items_ok_def)
    then obtain a ts dn where a: "u = Awaiting a ts dn" by (cases u) (auto simp: is_awaiting_def)
    have "\<exists>vs w'. work_step w u vs w'"
    proof (cases ts)
      case Nil
      with a work_step.put_result [OF refl] show ?thesis by blast
    next
      case (Cons t ts')
      with u(2,3) a have "snt (queue w) t \<noteq> None" by (auto simp: unsettled_def covered_def)
      then have "await_prerequisite a t ts' dn w \<noteq> None"
        by (auto simp: await_prerequisite_def snt_def Let_def split: option.split)
      then obtain vs w' where "await_prerequisite a t ts' dn w = Some (vs, w')" by auto
      with a Cons work_step.await show ?thesis by blast
    qed
    then show ?thesis using worker_step.result_work [of w u _ _ "[]" us'] by (auto simp: Results Cons)
  qed
next
  case Took_nothing
  with worker_step.decide [OF refl] show ?thesis by blast
next
  case Not_started
  with assms(1,2) show ?thesis by (simp add: book_ok_def wake_ok_def)
qed (use assms(3) in simp)

lemma drained_run:
  assumes "worker_run\<^sup>*\<^sup>* (p, w) (p', w')" "book_ok w p nd" "draining (queue w)"
  shows "book_ok w' p' nd \<and> draining (queue w')"
  using assms
proof (induction "(p', w')" arbitrary: p' w' rule: rtranclp_induct)
  case (step y)
  obtain p1 w1 where y: "y = (p1, w1)" by fastforce
  then have "worker_step p1 w1 p' w'" using step.hyps(2) by (simp add: worker_run_def)
  with step.hyps(3) [OF y step.prems] worker_step_ok draining_step(2) show ?case by blast
qed auto

lemma drained_run_pending:
  assumes "worker_run\<^sup>*\<^sup>* (p, w) (p', w')" "draining (queue w)" "\<not> (p = Took_nothing \<and> pending (queue w) \<noteq> [])"
    and "p \<noteq> Stopped"
  shows "draining (queue w') \<and> (p' = Took_nothing \<or> p' = Stopped \<longrightarrow> pending (queue w') = [])"
  using assms
proof (induction "(p', w')" arbitrary: p' w' rule: rtranclp_induct)
  case (step y)
  obtain p1 w1 where y: "y = (p1, w1)" by fastforce
  then have "worker_step p1 w1 p' w'" using step.hyps(2) by (simp add: worker_run_def)
  with step.hyps(3) [OF y step.prems] draining_step(2,3) show ?case by blast
qed auto

lemma stopped_settled:
  assumes "book_ok w Stopped nd" "pending (queue w) = []" "t < length (slots (queue w))"
  shows "sent (slots (queue w) ! t) \<noteq> None"
proof -
  have "mset_set (unsettled (queue w)) = {#}" using assms(1,2) by (simp add: book_ok_def live_ok_def)
  then have "unsettled (queue w) = {}" by (simp add: mset_set_empty_iff)
  with assms(3) show ?thesis by (auto simp: unsettled_def snt_def)
qed

section \<open>No blob twice\<close>

text \<open>Every ticket of a blob is the current one of its digest or has failed.\<close>

definition unique_ok :: "upload_queue \<Rightarrow> bool" where
  "unique_ok q \<longleftrightarrow>
     (\<forall>t < length (slots q). \<forall>d. obj q t = Blob_object d \<longrightarrow>
        bt_get (blob_tickets q) d = Some t \<or> (\<exists>r. snt q t = Some r \<and> r \<noteq> Uploaded))"

lemma unique_ok_grows:
  assumes "unique_ok q" "grows q q'" "length (slots q') = length (slots q)" "blob_tickets q' = blob_tickets q"
  shows "unique_ok q'"
  using assms by (fastforce simp: unique_ok_def grows_def)

lemma worker_step_slots:
  assumes "worker_step p w p' w'"
  shows "length (slots (queue w')) = length (slots (queue w))" "blob_tickets (queue w') = blob_tickets (queue w)"
  using assms by (auto elim!: worker_step.cases dest!: work_step_book simp: take_batch_def same_book_def split: if_splits)

lemma start_blob_unique:
  assumes "start_blob d path c q = (c', q')" "unique_ok q" "maps_ok q"
    and "\<forall>t. bt_get (blob_tickets q) d = Some t \<longrightarrow> \<not> reusable q t"
  shows "unique_ok q'"
  unfolding unique_ok_def
proof (intro allI impI)
  let ?t = "length (slots q)"
  have q': "slots q' = slots q @ [\<lparr>sent = None, polled = False, object = Blob_object d\<rparr>]"
    "blob_tickets q' = bt_insert d ?t (blob_tickets q)"
    using assms(1) by (auto simp: start_blob_def ticket_channel_def push_def)
  have get: "bt_get (blob_tickets q') e = (if e = d then Some ?t else bt_get (blob_tickets q) e)" for e
    using assms(3) by (simp add: q'(2) maps_ok_def)
  note new = new_slot [OF q'(1)]
  fix t e
  assume t: "t < length (slots q')" "obj q' t = Blob_object e"
  show "bt_get (blob_tickets q') e = Some t \<or> (\<exists>r. snt q' t = Some r \<and> r \<noteq> Uploaded)"
  proof (cases "t = ?t")
    case True
    with t(2) new(2) get show ?thesis by simp
  next
    case False
    then have less: "t < length (slots q)" using t(1) q'(1) by simp
    then have same: "obj q t = Blob_object e" "snt q' t = snt q t"
      using new(1) t(2) q'(1) by (simp_all add: grows_def obj_def snt_def nth_append)
    from assms(2) less same(1) consider "bt_get (blob_tickets q) e = Some t" | "\<exists>r. snt q t = Some r \<and> r \<noteq> Uploaded"
      by (auto simp: unique_ok_def)
    then show ?thesis
    proof cases
      case 1
      show ?thesis
      proof (cases "e = d")
        case True
        with 1 assms(4) have "\<not> reusable q t" by blast
        then have "\<exists>r. snt q t = Some r \<and> r \<noteq> Uploaded"
          by (auto simp: reusable_def peek_def snt_def split: option.splits if_splits)
        with same(2) show ?thesis by simp
      qed (use 1 get in simp)
    qed (use same(2) in simp)
  qed
qed

lemma system_step_unique:
  assumes "system_step s s'" "system_ok s" "unique_ok (queue (world s))"
  shows "unique_ok (queue (world s'))"
  using assms(1)
proof (cases rule: system_step.cases)
  case (blob d path n c q)
  have maps: "maps_ok (queue (world s))" using assms(2) by (simp add: system_ok_def book_ok_def)
  have "unique_ok q"
  proof (cases "\<exists>t. bt_get (blob_tickets (queue (world s))) d = Some t \<and> reusable (queue (world s)) t")
    case True
    with blob(3) assms(3) show ?thesis by (auto simp: queue_blob_def)
  next
    case False
    with blob(3) have "start_blob d path (conns s n) (queue (world s)) = (c, q)"
      by (auto simp: queue_blob_def split: option.splits if_splits)
    from start_blob_unique [OF this assms(3) maps] False show ?thesis by blast
  qed
  then show ?thesis by (simp add: blob(1) set_queue_def)
next
  case (result a n q)
  have "slots q = slots (queue (world s)) @ [\<lparr>sent = None, polled = False, object = Result_object a\<rparr>]"
    "blob_tickets q = blob_tickets (queue (world s))"
    using result(3) by (auto simp: queue_action_result_def ticket_channel_def push_def Let_def)
  then have "unique_ok q"
    using assms(3) by (auto simp: unique_ok_def obj_def snt_def nth_append less_Suc_eq)
  then show ?thesis by (simp add: result(1) set_queue_def)
next
  case (wait_results as r q)
  let ?q = "queue (world s)"
  have "q = fold (mark_polled \<circ> snd) (held_tickets as ?q) ?q"
    using wait_results(2) by (auto simp: wait_for_action_outcomes_def Let_def split: if_splits)
  with fold_mark_polled have same: "same_book ?q q" "grows ?q q" by auto
  have "unique_ok q"
    by (rule unique_ok_grows [OF assms(3) same(2)]) (use same(1) in \<open>simp_all add: same_book_def\<close>)
  then show ?thesis by (simp add: wait_results(1) set_queue_def)
next
  case start_drain
  then show ?thesis
    using assms(3) by (simp add: start_draining_def set_queue_def drain_def unique_ok_def obj_def snt_def)
next
  case (run p w)
  have "book_ok (world s) (phase s) (needs s)" using assms(2) by (simp add: system_ok_def)
  then have "grows (queue (world s)) (queue w)" using worker_step_ok [OF run(2)] by blast
  then have "unique_ok (queue w)" by (rule unique_ok_grows [OF assms(3) _ worker_step_slots [OF run(2)]])
  then show ?thesis by (simp add: run(1))
qed (use assms(3) in simp)

interpretation once: layered_steps system_step "\<lambda>s. s = new_system" system_ok "\<lambda>s. unique_ok (queue (world s))"
proof
  show "unique_ok (queue (world s))" if "s = new_system" for s
    using that by (simp add: unique_ok_def new_system_def new_queue_def)
qed (rule system_step_unique)

lemma reachable_unique:
  assumes "system_step\<^sup>*\<^sup>* new_system s"
  shows "unique_ok (queue (world s))"
  using once.both.reached_holds [OF assms] by simp

section \<open>Properties\<close>

text \<open>
  C23. An action result is sent to the server only when the server has accepted every blob its
  connection queued before it, in every reachable state, whatever the interleaving of connections,
  the batches, the packing, the order in which uploads finish, and the failures on the way.
\<close>

theorem results_follow_their_blobs:
  assumes "system_step\<^sup>*\<^sup>* new_system s" "(a, t) \<in> set (results_put (world s))"
  shows "set (needs s t) \<subseteq> accepted (world s)"
  using reachable_ok [OF assms(1)] assms(2) by (auto simp: system_ok_def book_ok_def puts_ok_def)

section \<open>A run\<close>

text \<open>
  One connection queues a blob and an action result; the worker uploads both and finds nothing
  more; then the connection queues another blob.
\<close>

definition run_queue :: "slot list \<Rightarrow> queued_upload list \<Rightarrow> upload_queue" where
  "run_queue ss us = \<lparr>slots = ss, pending = us, blob_tickets = [(sample_digest 2, 0)],
     action_tickets = [(sample_digest 3, 1)], notified = True, draining = False, worker = True\<rparr>"

definition run_world ::
  "slot list \<Rightarrow> queued_upload list \<Rightarrow> sink_event list \<Rightarrow> digest set \<Rightarrow> (digest \<times> ticket) list \<Rightarrow> upload_world" where
  "run_world ss us es acc puts = \<lparr>queue = run_queue ss us, events = es, accepted = acc, results_put = puts\<rparr>"

definition run_system :: "phase \<Rightarrow> upload_world \<Rightarrow> unit upload_system" where
  "run_system p w = \<lparr>world = w, phase = p,
      conns = (\<lambda>_. new_connection)(0 := new_connection\<lparr>tickets := [0]\<rparr>),
      asked = (\<lambda>_. [])(0 := [sample_digest 2]), needs = (\<lambda>_. [])(1 := [sample_digest 2])\<rparr>"

definition blob_slot :: "upload_outcome option \<Rightarrow> bool \<Rightarrow> slot" where
  "blob_slot r p = \<lparr>sent = r, polled = p, object = Blob_object (sample_digest 2)\<rparr>"

definition result_slot :: "upload_outcome option \<Rightarrow> slot" where
  "result_slot r = \<lparr>sent = r, polled = False, object = Result_object (sample_digest 3)\<rparr>"

definition first_queued :: "unit upload_system" where
  "first_queued = \<lparr>world = \<lparr>queue = \<lparr>slots = [blob_slot None False], pending = [Blob (sample_digest 2) ''p'' 0],
      blob_tickets = [(sample_digest 2, 0)], action_tickets = [], notified = True, draining = False, worker = True\<rparr>,
      events = [], accepted = {}, results_put = []\<rparr>, phase = Looping,
     conns = (\<lambda>_. new_connection)(0 := new_connection\<lparr>tickets := [0]\<rparr>),
     asked = (\<lambda>_. [])(0 := [sample_digest 2]), needs = (\<lambda>_. [])\<rparr>"

lemmas run_defs = run_system_def run_world_def run_queue_def blob_slot_def result_slot_def

abbreviation run_result :: queued_upload where
  "run_result \<equiv> Action_result (sample_digest 3) [0] 1"

abbreviation run_waiting :: "ticket list \<Rightarrow> work" where
  "run_waiting ts \<equiv> Awaiting (sample_digest 3) ts 1"

abbreviation run_entry :: pack_entry where
  "run_entry \<equiv> \<lparr>entry_digest = sample_digest 2, entry_path = ''p'', entry_done = 0\<rparr>"

lemma run_queued:
  "system_step\<^sup>*\<^sup>* new_system (run_system Looping
     (run_world [blob_slot None False, result_slot None] [Blob (sample_digest 2) ''p'' 0, run_result] [] {} []))"
proof -
  have "system_step new_system first_queued"
    using system_step.blob [of "new_system :: unit upload_system" "sample_digest 2" "''p''" 0, OF _ prod.collapse [symmetric]]
    by (simp add: first_queued_def run_defs new_system_def new_queue_def new_connection_def queue_blob_def start_blob_def
        ticket_channel_def push_def record_ticket_def spawned_def set_queue_def)
  moreover have "system_step first_queued (run_system Looping
     (run_world [blob_slot None False, result_slot None] [Blob (sample_digest 2) ''p'' 0, run_result] [] {} []))"
    using system_step.result [of first_queued "sample_digest 3" 0, OF _ refl]
    by (simp add: first_queued_def run_defs new_connection_def ticket_channel_def push_def queue_action_result_def
        prerequisites_def spawned_def set_queue_def)
  ultimately show ?thesis by (meson rtranclp.rtrancl_into_rtrancl rtranclp.rtrancl_refl)
qed

lemma run_step: "worker_step p w p' w' \<Longrightarrow> system_step (run_system p w) (run_system p' w')"
  using system_step.run [of "run_system p w" p' w'] by (simp add: run_system_def)

lemma run_finished:
  "system_step\<^sup>*\<^sup>* new_system (run_system Looping
     (run_world [blob_slot (Some Uploaded) True, result_slot (Some Uploaded)] [] [Blob_uploaded 2, Action_uploaded]
       {sample_digest 2} [(sample_digest 3, 1)]))"
proof -
  let ?w1 = "run_world [blob_slot None False, result_slot None] [Blob (sample_digest 2) ''p'' 0, run_result] [] {} []"
  let ?w2 = "run_world [blob_slot None False, result_slot None] [] [] {} []"
  let ?w3 = "run_world [blob_slot (Some Uploaded) False, result_slot None] [] [Blob_uploaded 2] {sample_digest 2} []"
  let ?w4 = "run_world [blob_slot (Some Uploaded) True, result_slot None] [] [Blob_uploaded 2] {sample_digest 2} []"
  let ?w5 = "run_world [blob_slot (Some Uploaded) True, result_slot (Some Uploaded)] []
    [Blob_uploaded 2, Action_uploaded] {sample_digest 2} [(sample_digest 3, 1)]"
  have "worker_step Looping ?w1 (Blobs [Single run_entry] [run_result]) ?w2"
    using worker_step.take_work [of None ?w1 "Blobs [Single run_entry] [run_result]" "queue ?w2"]
    by (simp add: run_defs take_batch_def run_blob_phase_def run_phase_def run_upload_def is_blob_def)
  moreover have "worker_step (Blobs [Single run_entry] [run_result]) ?w2 (Blobs [] [run_result]) ?w3"
    using worker_step.blob_work [OF work_step.single [of "\<lambda>_. True" Put_ok run_entry ?w2, OF refl], of "[]" "[]" "[run_result]"]
    by (simp add: run_defs upload_member_def upload_blob_def finish_with_def send_def report_def)
      (simp add: sample_digest_def)
  moreover have "worker_step (Blobs [] [run_result]) ?w3 (Results [run_waiting [0]]) ?w3"
    using worker_step.blobs_done [of "[run_result]" ?w3] by (simp add: run_phase_def run_upload_def)
  moreover have "worker_step (Results [run_waiting [0]]) ?w3 (Results [run_waiting []]) ?w4"
    using worker_step.result_work [OF work_step.await, of "sample_digest 3" 0 "[]" 1 ?w3 "[run_waiting []]" ?w4 "[]" "[]"]
    by (simp add: run_defs await_prerequisite_def mark_polled_def published_def)
  moreover have "worker_step (Results [run_waiting []]) ?w4 (Results []) ?w5"
    using worker_step.result_work [OF work_step.put_result [of True "sample_digest 3" 1 ?w4, OF refl], of "[]" "[]"]
    by (simp add: run_defs put_action_result_def finish_with_def send_def report_def)
  moreover have "worker_step (Results []) ?w5 Looping ?w5" by (rule worker_step.results_done)
  ultimately show ?thesis
    using run_queued by (meson run_step rtranclp.rtrancl_into_rtrancl)
qed

theorem results_follow_their_blobs_witness:
  "\<exists>s :: unit upload_system. system_step\<^sup>*\<^sup>* new_system s \<and> results_put (world s) = [(sample_digest 3, 1)] \<and>
     needs s 1 = [sample_digest 2] \<and> sample_digest 2 \<in> accepted (world s)"
  using results_follow_their_blobs [OF run_finished, of "sample_digest 3" 1] run_finished
  by (intro exI [of _ "run_system Looping (run_world [blob_slot (Some Uploaded) True, result_slot (Some Uploaded)] []
      [Blob_uploaded 2, Action_uploaded] {sample_digest 2} [(sample_digest 3, 1)])"] conjI)
    (simp_all add: run_system_def run_world_def)

text \<open>
  C24. Once draining has begun the worker has no infinite run, and it gets stuck nowhere but at
  its end: no result waits for a ticket that nothing will settle, and no sleep misses its wake-up.
\<close>

theorem draining_worker_stops:
  assumes "system_step\<^sup>*\<^sup>* new_system s" "draining (queue (world s))"
  shows "(\<nexists>f. f 0 = (phase s, world s) \<and> (\<forall>i. worker_run (f i) (f (Suc i)))) \<and>
    (\<forall>p w. worker_run\<^sup>*\<^sup>* (phase s, world s) (p, w) \<and> p \<noteq> Stopped \<longrightarrow> (\<exists>c. worker_run (p, w) c))"
proof (intro conjI notI allI impI)
  have book: "book_ok (world s) (phase s) (needs s)" using reachable_ok [OF assms(1)] by (simp add: system_ok_def)
  assume "\<exists>f. f 0 = (phase s, world s) \<and> (\<forall>i. worker_run (f i) (f (Suc i)))"
  then obtain f where f: "f 0 = (phase s, world s)" "\<And>i. worker_run (f i) (f (Suc i))" by blast
  have "draining (queue (snd (f i))) \<and> run_size (fst (f i)) (snd (f i)) + i \<le> run_size (phase s) (world s)" for i
  proof (induction i)
    case (Suc i)
    then show ?case
      using draining_step(1,2) [of "fst (f i)" "snd (f i)" "fst (f (Suc i))" "snd (f (Suc i))"] f(2) [of i]
      by (auto simp: worker_run_def split: prod.splits)
  qed (use f(1) assms(2) in simp)
  from this [of "Suc (run_size (phase s) (world s))"] show False by simp
next
  fix p w
  assume run: "worker_run\<^sup>*\<^sup>* (phase s, world s) (p, w) \<and> p \<noteq> Stopped"
  have "book_ok (world s) (phase s) (needs s)" using reachable_ok [OF assms(1)] by (simp add: system_ok_def)
  with drained_run assms(2) run have "book_ok w p (needs s)" "draining (queue w)" by blast+
  with worker_progress run show "\<exists>c. worker_run (p, w) c" by (fastforce simp: worker_run_def)
qed

theorem draining_worker_stops_witness:
  "\<exists>s :: unit upload_system. system_step\<^sup>*\<^sup>* new_system s \<and> length (pending (queue (world s))) = 2 \<and>
     (\<nexists>f. f 0 = (phase s, world s) \<and> (\<forall>i. worker_run (f i) (f (Suc i))))"
proof -
  let ?s = "run_system Looping (run_world [blob_slot None False, result_slot None]
    [Blob (sample_digest 2) ''p'' 0, run_result] [] {} [])"
  have "system_step ?s (start_draining ?s)" by (rule system_step.start_drain) (simp add: run_defs)
  then have "system_step\<^sup>*\<^sup>* new_system (start_draining ?s)" by (rule rtranclp.rtrancl_into_rtrancl [OF run_queued])
  moreover have "draining (queue (world (start_draining ?s)))" "length (pending (queue (world (start_draining ?s)))) = 2"
    by (simp_all add: start_draining_def set_queue_def drain_def run_defs)
  ultimately show ?thesis using draining_worker_stops [of "start_draining ?s"] by blast
qed

text \<open>
  C25. When a drain begins and the worker is not just between an empty look at the queue and its
  look at the draining flag while something was queued, then nothing is queued when the worker
  stops and every upload ever queued has an outcome.
\<close>

theorem drain_settles_everything:
  assumes "system_step\<^sup>*\<^sup>* new_system s" "\<not> draining (queue (world s))"
    and "\<not> (phase s = Took_nothing \<and> pending (queue (world s)) \<noteq> [])"
    and "worker_run\<^sup>*\<^sup>* (phase (start_draining s), world (start_draining s)) (Stopped, w)"
  shows "pending (queue w) = [] \<and> (\<forall>t < length (slots (queue w)). sent (slots (queue w) ! t) \<noteq> None)"
proof -
  let ?s = "start_draining s"
  have "system_step\<^sup>*\<^sup>* new_system ?s"
    by (rule rtranclp.rtrancl_into_rtrancl [OF assms(1) system_step.start_drain [OF assms(2)]])
  then have book: "book_ok (world ?s) (phase ?s) (needs ?s)" using reachable_ok by (auto simp: system_ok_def)
  have wake: "wake_ok (queue (world s)) (phase s)"
    using reachable_ok [OF assms(1)] by (simp add: system_ok_def book_ok_def)
  have drained: "draining (queue (world ?s))" "\<not> (phase ?s = Took_nothing \<and> pending (queue (world ?s)) \<noteq> [])"
    "phase ?s \<noteq> Stopped"
    using assms(2,3) wake by (auto simp: start_draining_def set_queue_def drain_def wake_ok_def)
  have "pending (queue w) = []" using drained_run_pending [OF assms(4) drained] by simp
  moreover have "book_ok w Stopped (needs ?s)" using drained_run [OF assms(4) book drained(1)] by simp
  ultimately show ?thesis using stopped_settled by blast
qed

abbreviation run_end :: upload_world where
  "run_end \<equiv> run_world [blob_slot (Some Uploaded) True, result_slot (Some Uploaded)] []
     [Blob_uploaded 2, Action_uploaded] {sample_digest 2} [(sample_digest 3, 1)]"

theorem drain_settles_everything_witness:
  "\<exists>w. worker_run\<^sup>*\<^sup>* (phase (start_draining (run_system Looping run_end)), world (start_draining (run_system Looping run_end)))
       (Stopped, w) \<and> pending (queue w) = [] \<and> length (slots (queue w)) = 2 \<and>
     sent (slots (queue w) ! 0) \<noteq> None \<and> sent (slots (queue w) ! 1) \<noteq> None"
proof -
  let ?s = "start_draining (run_system Looping run_end)"
  have p: "phase ?s = Looping" and q: "pending (queue (world ?s)) = []" "draining (queue (world ?s))"
    "length (slots (queue (world ?s))) = 2"
    by (simp_all add: start_draining_def set_queue_def drain_def run_defs)
  have "worker_step Looping (world ?s) Took_nothing (world ?s)"
    using worker_step.take_work [of None "world ?s" Took_nothing "queue (world ?s)"] q by (simp add: take_batch_def)
  moreover have "worker_step Took_nothing (world ?s) Stopped (world ?s)"
    by (rule worker_step.decide) (use q(2) in \<open>simp add: loop_again_def\<close>)
  ultimately have "worker_run (phase ?s, world ?s) (Took_nothing, world ?s)"
    "worker_run (Took_nothing, world ?s) (Stopped, world ?s)" unfolding worker_run_def p by simp_all
  then have run: "worker_run\<^sup>*\<^sup>* (phase ?s, world ?s) (Stopped, world ?s)" by (meson converse_rtranclp_into_rtranclp rtranclp.rtrancl_refl)
  have "pending (queue (world ?s)) = [] \<and>
      (\<forall>t < length (slots (queue (world ?s))). sent (slots (queue (world ?s)) ! t) \<noteq> None)"
    by (rule drain_settles_everything [OF run_finished _ _ run]) (simp_all add: run_defs)
  with run q(3) show ?thesis by auto
qed

text \<open>
  C26. A digest is uploaded once: of all the uploads ever queued for it, at most one is in flight
  or has succeeded, so a blob is neither sent twice at the same time nor again after it was
  accepted.
\<close>

theorem one_upload_per_digest:
  assumes "system_step\<^sup>*\<^sup>* new_system s" "t < length (slots (queue (world s)))" "t' < length (slots (queue (world s)))"
    and "object (slots (queue (world s)) ! t) = Blob_object d" "object (slots (queue (world s)) ! t') = Blob_object d"
    and "sent (slots (queue (world s)) ! t) \<in> {None, Some Uploaded}"
    and "sent (slots (queue (world s)) ! t') \<in> {None, Some Uploaded}"
  shows "t = t'"
proof -
  have "bt_get (blob_tickets (queue (world s))) d = Some u"
    if "u < length (slots (queue (world s)))" "object (slots (queue (world s)) ! u) = Blob_object d"
      "sent (slots (queue (world s)) ! u) \<in> {None, Some Uploaded}" for u
    using reachable_unique [OF assms(1)] that by (auto simp: unique_ok_def obj_def snt_def)
  from this [OF assms(2,4,6)] this [OF assms(3,5,7)] show ?thesis by simp
qed

theorem one_upload_per_digest_witness:
  "system_step\<^sup>*\<^sup>* new_system (run_system Looping run_end) \<and>
   {t. t < 2 \<and> object (slots (queue run_end) ! t) = Blob_object (sample_digest 2) \<and>
      sent (slots (queue run_end) ! t) = Some Uploaded} = {0}"
proof -
  have "t = 0" if "t < 2" "object (slots (queue run_end) ! t) = Blob_object (sample_digest 2)"
    "sent (slots (queue run_end) ! t) = Some Uploaded" for t
    by (rule one_upload_per_digest [OF run_finished, of t 0 "sample_digest 2"])
      (use that in \<open>simp_all add: run_defs\<close>)
  moreover have "object (slots (queue run_end) ! 0) = Blob_object (sample_digest 2)"
    "sent (slots (queue run_end) ! 0) = Some Uploaded"
    by (simp_all add: run_defs)
  ultimately show ?thesis using run_finished by auto
qed

text \<open>
  That exception is real: the worker takes an empty batch, a connection queues a blob, the
  drain begins, and the worker reads the flag and stops with the blob still queued.
\<close>

lemma drain_can_lose_an_upload:
  "\<exists>s :: unit upload_system. system_step\<^sup>*\<^sup>* new_system s \<and> phase s = Stopped \<and> pending (queue (world s)) \<noteq> []"
proof -
  let ?s0 = "run_system Took_nothing run_end"
  have "worker_step Looping run_end Took_nothing run_end"
    using worker_step.take_work [of None run_end Took_nothing "queue run_end"] by (simp add: take_batch_def run_defs)
  then have r0: "system_step\<^sup>*\<^sup>* new_system ?s0"
    by (rule rtranclp.rtrancl_into_rtrancl [OF run_finished run_step])
  obtain c q where cq: "queue_blob (sample_digest 4) ''r'' (conns ?s0 0) (queue (world ?s0)) = (c, q)" by fastforce
  then have q: "pending q \<noteq> []" "worker q" "\<not> draining q"
    by (auto simp: run_defs queue_blob_def start_blob_def ticket_channel_def push_def sample_digest_def)
  let ?s1 = "set_queue q ?s0\<lparr>conns := (conns ?s0)(0 := c), asked := (asked ?s0)(0 := asked ?s0 0 @ [sample_digest 4]),
    phase := if worker q then spawned (phase ?s0) else phase ?s0\<rparr>"
  have "system_step ?s0 ?s1" by (rule system_step.blob [OF _ cq]) (simp add: run_defs)
  moreover have s1: "phase ?s1 = Took_nothing" "queue (world ?s1) = q"
    using q(2) by (simp_all add: run_system_def spawned_def set_queue_def)
  ultimately have r1: "system_step\<^sup>*\<^sup>* new_system ?s1" using r0 by (meson rtranclp.rtrancl_into_rtrancl)
  have "system_step ?s1 (start_draining ?s1)" by (rule system_step.start_drain) (simp only: s1 q(3) not_False_eq_True)
  with r1 have r2: "system_step\<^sup>*\<^sup>* new_system (start_draining ?s1)" by (rule rtranclp.rtrancl_into_rtrancl)
  have s2: "phase (start_draining ?s1) = Took_nothing" "draining (queue (world (start_draining ?s1)))"
    "pending (queue (world (start_draining ?s1))) \<noteq> []"
    using q s1 by (simp_all add: start_draining_def set_queue_def drain_def)
  then have "worker_step (phase (start_draining ?s1)) (world (start_draining ?s1)) Stopped (world (start_draining ?s1))"
    by (simp add: worker_step.decide loop_again_def)
  from system_step.run [OF this] r2 s2(3) show ?thesis
    by (intro exI [of _ "start_draining ?s1\<lparr>world := world (start_draining ?s1), phase := Stopped\<rparr>"])
      (auto intro: rtranclp.rtrancl_into_rtrancl)
qed

text \<open>
  A blob whose upload has failed is handed out again as if in flight until some task has awaited
  its ticket: \<open>peek\<close> sees no outcome before that.
\<close>

lemma unpolled_failure_is_reused:
  assumes "bt_get (blob_tickets q) d = Some t" "sent (slots q ! t) = Some Upload_failed" "\<not> polled (slots q ! t)"
  shows "queue_blob d path c q = (record_ticket t c, q)"
  using assms by (simp add: queue_blob_def reusable_def peek_def)

end
