(* ===== verification/Local_Store.thy ===== *)
theory Local_Store
  imports Protocol Ordered_Map Bytes
begin

text \<open>
  The local cache (\<open>mbx-cache-core/src/local.rs\<close>): a content-addressed store of blobs and an
  index from action digests to result records, both directories of files. A store is the two
  directories as maps from paths to files. Other processes share it: the operations take what
  those processes did at the points where the code does not hold a lock, as functions on stores.
  The hash functions and the JSON forms of records and directories are arguments.
\<close>

section \<open>Files and paths\<close>

record stored_file =
  contents :: "byte list"
  accessed :: nat

type_synonym files = "(string, stored_file) btree_map"

record store =
  blobs :: files
  records :: files

datatype store_error = Bad_address digest_error | Not_blake3 | Blob_corrupt | Bytes_mismatch
  | Staged_mismatch | Staged_size | Source_changed | Not_published | Unsupported_version
  | Record_invalid | Missing_blob | Conflict | Kept_changing

text \<open>Paths are relative to the root of the store.\<close>

definition cas_path :: "digest \<Rightarrow> store_error + string" where
  "cas_path d =
     (case validate_digest d of
        Inl e \<Rightarrow> Inl (Bad_address e)
      | Inr _ \<Rightarrow> Inr (''cas/v1/'' @ algorithm d @ ''/'' @ take 2 (hash d) @ ''/'' @ hash d @ ''-'' @ show_nat (dsize d)))"

definition record_path :: "digest \<Rightarrow> store_error + string" where
  "record_path a =
     (case validate_digest a of
        Inl e \<Rightarrow> Inl (Bad_address e)
      | Inr _ \<Rightarrow>
          if algorithm a \<noteq> ''blake3'' then Inl Not_blake3
          else Inr (''action-results/v1/'' @ algorithm a @ ''/'' @ take 2 (hash a) @ ''/'' @ hash a @ ''-'' @
                 show_nat (dsize a) @ ''.json''))"

section \<open>The content-addressed store\<close>

definition matches_file :: "(digest_algorithm \<Rightarrow> byte list \<Rightarrow> string) \<Rightarrow> digest \<Rightarrow> byte list \<Rightarrow> digest_error + bool" where
  "matches_file hash_of d bs =
     (case validate_digest d of
        Inl e \<Rightarrow> Inl e
      | Inr _ \<Rightarrow>
          (case algorithm_kind d of
             Inl e \<Rightarrow> Inl e
           | Inr a \<Rightarrow> Inr (dsize d = length bs \<and> hash d = hash_of a bs)))"

definition cas_find ::
  "(digest_algorithm \<Rightarrow> byte list \<Rightarrow> string) \<Rightarrow> digest \<Rightarrow> store \<Rightarrow> store_error + string option" where
  "cas_find hash_of d s =
     (case cas_path d of
        Inl e \<Rightarrow> Inl e
      | Inr p \<Rightarrow>
          (case bt_get (blobs s) p of
             None \<Rightarrow> Inr None
           | Some f \<Rightarrow>
               (case matches_file hash_of d (contents f) of
                  Inl e \<Rightarrow> Inl (Bad_address e)
                | Inr ok \<Rightarrow> if ok then Inr (Some p) else Inl Blob_corrupt)))"

definition put_blob :: "string \<Rightarrow> byte list \<Rightarrow> nat \<Rightarrow> store \<Rightarrow> store" where
  "put_blob p bs now s = s\<lparr>blobs := bt_insert p \<lparr>contents = bs, accessed = now\<rparr> (blobs s)\<rparr>"

text \<open>Publishing without replacing: another writer's blob has to verify.\<close>

definition persist_noclobber ::
  "(digest_algorithm \<Rightarrow> byte list \<Rightarrow> string) \<Rightarrow> digest \<Rightarrow> string \<Rightarrow> byte list \<Rightarrow> nat \<Rightarrow> store \<Rightarrow>
   (store_error + string) \<times> store" where
  "persist_noclobber hash_of d p bs now s =
     (case bt_get (blobs s) p of
        None \<Rightarrow> (Inr p, put_blob p bs now s)
      | Some _ \<Rightarrow>
          (case cas_find hash_of d s of
             Inl e \<Rightarrow> (Inl e, s)
           | Inr None \<Rightarrow> (Inl Not_published, s)
           | Inr (Some q) \<Rightarrow> (Inr q, s)))"

definition publish_blob ::
  "(digest_algorithm \<Rightarrow> byte list \<Rightarrow> string) \<Rightarrow> digest \<Rightarrow> string \<Rightarrow> byte list \<Rightarrow> nat \<Rightarrow> bool \<Rightarrow> store \<Rightarrow>
   (store_error + string) \<times> store" where
  "publish_blob hash_of d p bs now replace_invalid s =
     (if replace_invalid then (Inr p, put_blob p bs now s) else persist_noclobber hash_of d p bs now s)"

text \<open>\<open>others\<close> is what other processes do between the first look and the publication.\<close>

definition store_with ::
  "(digest_algorithm \<Rightarrow> byte list \<Rightarrow> string) \<Rightarrow> (store \<Rightarrow> store) \<Rightarrow> nat \<Rightarrow> digest \<Rightarrow> byte list \<Rightarrow> store \<Rightarrow>
   (store_error + string) \<times> store" where
  "store_with hash_of others now d bs s =
     (case cas_path d of
        Inl e \<Rightarrow> (Inl e, s)
      | Inr p \<Rightarrow>
          (case cas_find hash_of d s of
             Inr (Some existing) \<Rightarrow> (Inr existing, s)
           | r \<Rightarrow>
               if matches_file hash_of d bs \<noteq> Inr True then (Inl Staged_mismatch, s)
               else publish_blob hash_of d p bs now (r \<noteq> Inr None) (others s)))"

definition store_bytes ::
  "(digest_algorithm \<Rightarrow> byte list \<Rightarrow> string) \<Rightarrow> (store \<Rightarrow> store) \<Rightarrow> nat \<Rightarrow> digest \<Rightarrow> byte list \<Rightarrow> store \<Rightarrow>
   (store_error + string) \<times> store" where
  "store_bytes hash_of others now d bs s =
     (case matches_bytes hash_of d bs of
        Inl e \<Rightarrow> (Inl (Bad_address e), s)
      | Inr ok \<Rightarrow> if \<not> ok then (Inl Bytes_mismatch, s) else store_with hash_of others now d bs s)"

text \<open>
  Storing a file: \<open>bs\<close> is the source as it is hashed and \<open>copy\<close> what the copy holds;
  \<open>unchanged\<close> says whether the source looks the same before and after. On Unix the source is
  hashed, elsewhere the copy.
\<close>

definition store_file_inner ::
  "(digest_algorithm \<Rightarrow> byte list \<Rightarrow> string) \<Rightarrow> (store \<Rightarrow> store) \<Rightarrow> nat \<Rightarrow> bool \<Rightarrow> bool \<Rightarrow> digest \<Rightarrow>
   byte list \<Rightarrow> byte list \<Rightarrow> bool \<Rightarrow> store \<Rightarrow> (store_error + string) \<times> store" where
  "store_file_inner hash_of others now unix verify d bs copy unchanged s =
     (case cas_path d of
        Inl e \<Rightarrow> (Inl e, s)
      | Inr p \<Rightarrow>
          (case cas_find hash_of d s of
             Inr (Some existing) \<Rightarrow> (Inr existing, s)
           | r \<Rightarrow>
               (let hash_source = verify \<and> unix
                in if hash_source \<and> matches_file hash_of d bs \<noteq> Inr True then (Inl Staged_mismatch, s)
                   else if hash_source \<and> \<not> unchanged then (Inl Source_changed, s)
                   else if verify \<and> \<not> hash_source \<and> matches_file hash_of d copy \<noteq> Inr True
                   then (Inl Staged_mismatch, s)
                   else if length copy \<noteq> dsize d then (Inl Staged_size, s)
                   else publish_blob hash_of d p copy now (r \<noteq> Inr None) (others s))))"

definition store_file ::
  "(digest_algorithm \<Rightarrow> byte list \<Rightarrow> string) \<Rightarrow> (store \<Rightarrow> store) \<Rightarrow> nat \<Rightarrow> bool \<Rightarrow> digest \<Rightarrow>
   byte list \<Rightarrow> byte list \<Rightarrow> bool \<Rightarrow> store \<Rightarrow> (store_error + string) \<times> store" where
  "store_file hash_of others now unix d bs copy unchanged s =
     store_file_inner hash_of others now unix True d bs copy unchanged s"

definition store_verified_file ::
  "(digest_algorithm \<Rightarrow> byte list \<Rightarrow> string) \<Rightarrow> (store \<Rightarrow> store) \<Rightarrow> nat \<Rightarrow> bool \<Rightarrow> digest \<Rightarrow>
   byte list \<Rightarrow> byte list \<Rightarrow> bool \<Rightarrow> store \<Rightarrow> (store_error + string) \<times> store" where
  "store_verified_file hash_of others now unix d bs copy unchanged s =
     store_file_inner hash_of others now unix False d bs copy unchanged s"

datatype rename_answer = Renamed | Rename_taken | Rename_failed

definition adopt_verified_file ::
  "(digest_algorithm \<Rightarrow> byte list \<Rightarrow> string) \<Rightarrow> (store \<Rightarrow> store) \<Rightarrow> nat \<Rightarrow> bool \<Rightarrow> rename_answer \<Rightarrow> digest \<Rightarrow>
   byte list \<Rightarrow> store \<Rightarrow> (store_error + string) \<times> store" where
  "adopt_verified_file hash_of others now unix answer d bs s =
     (if length bs \<noteq> dsize d then (Inl Staged_size, s)
      else
        (case cas_path d of
           Inl e \<Rightarrow> (Inl e, s)
         | Inr p \<Rightarrow>
             (case cas_find hash_of d s of
                Inr (Some existing) \<Rightarrow> (Inr existing, s)
              | Inl _ \<Rightarrow> store_file_inner hash_of others now unix False d bs bs True s
              | Inr None \<Rightarrow>
                  (case answer of
                     Renamed \<Rightarrow> (Inr p, put_blob p bs now (others s))
                   | Rename_taken \<Rightarrow>
                       (case cas_find hash_of d (others s) of
                          Inl e \<Rightarrow> (Inl e, others s)
                        | Inr None \<Rightarrow> (Inl Not_published, others s)
                        | Inr (Some q) \<Rightarrow> (Inr q, others s))
                   | Rename_failed \<Rightarrow> store_file_inner hash_of others now unix False d bs bs True (others s)))))"

section \<open>Records and directories\<close>

record action_result =
  result_version :: nat
  result_action :: digest
  result_metadata :: "digest option"
  output_root :: "digest option"

record directory =
  dir_files :: "digest list"
  dir_children :: "digest list"

record captured_output =
  captured_stdout :: digest
  captured_stderr :: digest

text \<open>The JSON forms: what bytes parse to, and the canonical bytes of a result.\<close>

record json_forms =
  parse_result :: "byte list \<Rightarrow> action_result option"
  canonical_result :: "action_result \<Rightarrow> byte list"
  parse_directory :: "byte list \<Rightarrow> directory option"
  parse_captured :: "byte list \<Rightarrow> captured_output option"

definition parse_record :: "json_forms \<Rightarrow> byte list \<Rightarrow> digest \<Rightarrow> store_error + action_result" where
  "parse_record j bs a =
     (case parse_result j bs of
        None \<Rightarrow> Inl Record_invalid
      | Some r \<Rightarrow>
          if result_version r \<noteq> 1 \<or> result_action r \<noteq> a \<or> canonical_result j r \<noteq> bs then Inl Record_invalid
          else Inr r)"

definition find_result :: "json_forms \<Rightarrow> digest \<Rightarrow> store \<Rightarrow> store_error + action_result option" where
  "find_result j a s =
     (case record_path a of
        Inl e \<Rightarrow> Inl e
      | Inr p \<Rightarrow>
          (case bt_get (records s) p of
             None \<Rightarrow> Inr None
           | Some f \<Rightarrow> (case parse_record j (contents f) a of Inl e \<Rightarrow> Inl e | Inr r \<Rightarrow> Inr (Some r))))"

definition present :: "(digest_algorithm \<Rightarrow> byte list \<Rightarrow> string) \<Rightarrow> store \<Rightarrow> digest \<Rightarrow> bool" where
  "present hash_of s d = (case cas_find hash_of d s of Inr (Some _) \<Rightarrow> True | _ \<Rightarrow> False)"

definition read_blob :: "store \<Rightarrow> digest \<Rightarrow> byte list option" where
  "read_blob s d =
     (case cas_path d of Inl _ \<Rightarrow> None | Inr p \<Rightarrow> map_option contents (bt_get (blobs s) p))"

definition read_directory :: "json_forms \<Rightarrow> store \<Rightarrow> digest \<Rightarrow> directory option" where
  "read_directory j s d = Option.bind (read_blob s d) (parse_directory j)"
section \<open>Addresses are injective\<close>

lemma show_nat_inj: "show_nat m = show_nat n \<Longrightarrow> m = n"
proof (induction m arbitrary: n rule: show_nat.induct)
  case (1 m)
  have digit: "char_of_digit a = char_of_digit b \<Longrightarrow> a < 10 \<Longrightarrow> b < 10 \<Longrightarrow> a = b" for a b
    by (metis digit_of_char_of_digit option.inject)
  have ne: "show_nat k \<noteq> []" "[] \<noteq> show_nat k" for k by (subst show_nat.simps; simp)+
  show ?case
  proof (cases "m < 10")
    case True
    with 1(2) ne have "n < 10" by (subst (asm) (1 2) show_nat.simps) (auto split: if_splits)
    with True 1(2) digit show ?thesis by (subst (asm) (1 2) show_nat.simps) simp
  next
    case False
    with 1(2) ne have big: "\<not> n < 10" by (subst (asm) (1 2) show_nat.simps) (auto split: if_splits)
    with False 1(2) have "show_nat (m div 10) = show_nat (n div 10)" "char_of_digit (m mod 10) = char_of_digit (n mod 10)"
      by (subst (asm) (1 2) show_nat.simps; simp)+
    with 1(1) [OF False] digit have "m div 10 = n div 10" "m mod 10 = n mod 10" by simp_all
    then show ?thesis by (metis div_mult_mod_eq)
  qed
qed

lemma valid_parts:
  assumes "valid_digest d"
  shows "length (algorithm d) = 6" "length (hash d) = 64"
proof -
  obtain a where "algorithm d = algorithm_name a" using assms parse_algorithm_Some by (auto simp: valid_digest_iff)
  then show "length (algorithm d) = 6" by (cases a) (simp_all add: algorithm_name_def)
  show "length (hash d) = 64" using assms by (simp add: valid_digest_iff)
qed

lemma cas_path_valid:
  "cas_path d = Inr p \<longleftrightarrow> valid_digest d \<and>
     p = ''cas/v1/'' @ algorithm d @ ''/'' @ take 2 (hash d) @ ''/'' @ hash d @ ''-'' @ show_nat (dsize d)"
  by (auto simp: cas_path_def valid_digest_def split: sum.splits)

lemma cas_path_inject:
  assumes "cas_path d = Inr p" "cas_path e = Inr p"
  shows "d = e"
proof -
  let ?tail = "\<lambda>d. take 2 (hash d) @ ''/'' @ hash d @ ''-'' @ show_nat (dsize d)"
  have v: "valid_digest d" "valid_digest e" using assms by (simp_all add: cas_path_valid)
  have "algorithm d @ ''/'' @ ?tail d = algorithm e @ ''/'' @ ?tail e" using assms by (simp add: cas_path_valid)
  then have "algorithm d = algorithm e" "?tail d = ?tail e"
    using valid_parts(1) [OF v(1)] valid_parts(1) [OF v(2)] by (simp_all add: append_eq_append_conv)
  moreover from this(2) have "hash d @ ''-'' @ show_nat (dsize d) = hash e @ ''-'' @ show_nat (dsize e)"
    using valid_parts(2) [OF v(1)] valid_parts(2) [OF v(2)] by (simp add: append_eq_append_conv)
  then have "hash d = hash e" "show_nat (dsize d) = show_nat (dsize e)"
    using valid_parts(2) [OF v(1)] valid_parts(2) [OF v(2)] by (simp_all add: append_eq_append_conv)
  ultimately show ?thesis using show_nat_inj by (cases d; cases e) auto
qed

definition stored_digests :: "store \<Rightarrow> digest set" where
  "stored_digests s = {d. \<exists>p. cas_path d = Inr p \<and> p \<in> fst ` set (blobs s)}"

lemma finite_stored [simp]: "finite (stored_digests s)"
proof -
  have "stored_digests s \<subseteq> {d. cas_path d \<in> Inr ` fst ` set (blobs s)}" by (auto simp: stored_digests_def)
  moreover have "inj_on cas_path {d. cas_path d \<in> Inr ` fst ` set (blobs s)}"
    by (rule inj_onI) (auto intro: cas_path_inject)
  then have "finite {d. cas_path d \<in> Inr ` fst ` set (blobs s)}"
    using finite_imageD [of cas_path "{d. cas_path d \<in> Inr ` fst ` set (blobs s)}"]
      finite_subset [of "cas_path ` {d. cas_path d \<in> Inr ` fst ` set (blobs s)}" "Inr ` fst ` set (blobs s)"]
    by blast
  ultimately show ?thesis by (rule finite_subset)
qed

lemma read_blob_stored: "read_blob s d = Some bs \<Longrightarrow> d \<in> stored_digests s"
  by (auto simp: read_blob_def stored_digests_def split: sum.splits dest!: map_of_SomeD) force

lemma read_directory_stored: "read_directory j s d = Some dir \<Longrightarrow> d \<in> stored_digests s"
  using read_blob_stored by (fastforce simp: read_directory_def bind_eq_Some_conv)

section \<open>Walking output trees\<close>

text \<open>
  \<open>directory_is_intact\<close>, with the directories still to be visited as a stack: the children of a
  directory come before its later siblings.
\<close>

function directories_intact ::
  "(digest_algorithm \<Rightarrow> byte list \<Rightarrow> string) \<Rightarrow> json_forms \<Rightarrow> store \<Rightarrow> digest set \<Rightarrow> digest list \<Rightarrow> bool" where
  "directories_intact hash_of j s seen [] \<longleftrightarrow> True"
| "directories_intact hash_of j s seen (d # ds) \<longleftrightarrow>
     (if d \<in> seen then directories_intact hash_of j s seen ds
      else if \<not> present hash_of s d then False
      else (case read_directory j s d of
          None \<Rightarrow> False
        | Some dir \<Rightarrow>
            list_all (present hash_of s) (dir_files dir) \<and>
            directories_intact hash_of j s (insert d seen) (dir_children dir @ ds)))"
  by pat_completeness auto

lemma fresh_directory_decreases:
  assumes "read_directory j s d = Some dir" "d \<notin> seen"
  shows "card (stored_digests s - insert d seen) < card (stored_digests s - seen)"
  using read_directory_stored [OF assms(1)] assms(2) by (intro psubset_card_mono) auto

termination directories_intact
  by (relation "measures [\<lambda>(_, _, s, seen, _). card (stored_digests s - seen), \<lambda>(_, _, _, _, ds). length ds]")
    (auto dest: fresh_directory_decreases)

definition is_intact ::
  "(digest_algorithm \<Rightarrow> byte list \<Rightarrow> string) \<Rightarrow> json_forms \<Rightarrow> store \<Rightarrow> action_result \<Rightarrow> bool" where
  "is_intact hash_of j s r \<longleftrightarrow>
     present hash_of s (result_action r) \<and>
     (case result_metadata r of None \<Rightarrow> True | Some m \<Rightarrow> present hash_of s m) \<and>
     (case output_root r of None \<Rightarrow> True | Some d \<Rightarrow> directories_intact hash_of j s {} [d])"

text \<open>The walk of \<open>named_objects\<close>: a vector used as a stack, popped at its end.\<close>

function walk_objects :: "json_forms \<Rightarrow> store \<Rightarrow> digest set \<Rightarrow> digest list \<Rightarrow> digest list \<Rightarrow> digest list" where
  "walk_objects j s seen objects pending =
     (if pending = [] then objects
      else
        (let d = last pending; pending = butlast pending
         in if d \<in> seen then walk_objects j s seen objects pending
            else (case read_directory j s d of
                None \<Rightarrow> walk_objects j s (insert d seen) (objects @ [d]) pending
              | Some dir \<Rightarrow>
                  walk_objects j s (insert d seen) (objects @ [d] @ dir_files dir) (pending @ dir_children dir))))"
  by pat_completeness auto

lemma card_Diff_insert_le: "card (stored_digests s - insert d seen) \<le> card (stored_digests s - seen)"
  by (intro card_mono) auto

termination walk_objects
proof (relation "measures [\<lambda>(_, s, seen, _, _). card (stored_digests s - seen), \<lambda>(_, _, _, _, ds). length ds]", goal_cases)
  case (3 j s seen objects pending d rest)
  then show ?case using card_Diff_insert_le [of s d seen] by (auto simp: le_less)
qed (auto dest: fresh_directory_decreases)

declare walk_objects.simps [simp del]

definition named_objects :: "json_forms \<Rightarrow> store \<Rightarrow> action_result \<Rightarrow> digest list" where
  "named_objects j s r =
     (let objects = [result_action r] @
            (case result_metadata r of
               None \<Rightarrow> []
             | Some m \<Rightarrow>
                 m # (case Option.bind (read_blob s m) (parse_captured j) of
                        None \<Rightarrow> []
                      | Some c \<Rightarrow> [captured_stdout c, captured_stderr c]))
      in walk_objects j s {} objects (case output_root r of None \<Rightarrow> [] | Some d \<Rightarrow> [d]))"

section \<open>Recording uses\<close>

text \<open>Times are nanoseconds since the epoch.\<close>

definition USE_REFRESH :: nat where "USE_REFRESH = 24 * 60 * 60 * 1000000000"

definition set_accessed :: "string \<Rightarrow> nat \<Rightarrow> files \<Rightarrow> files" where
  "set_accessed p now fs =
     (case bt_get fs p of None \<Rightarrow> fs | Some f \<Rightarrow> bt_insert p (f\<lparr>accessed := now\<rparr>) fs)"

definition recently_used :: "stored_file \<Rightarrow> nat \<Rightarrow> bool" where
  "recently_used f now \<longleftrightarrow> USE_REFRESH \<le> now \<and> now - USE_REFRESH < accessed f"

definition record_file_use :: "string \<Rightarrow> nat \<Rightarrow> files \<Rightarrow> files" where
  "record_file_use p now fs =
     (case bt_get fs p of
        None \<Rightarrow> fs
      | Some f \<Rightarrow> if recently_used f now then fs else set_accessed p now fs)"

definition record_blob_use :: "digest \<Rightarrow> nat \<Rightarrow> store \<Rightarrow> store" where
  "record_blob_use d now s =
     (case cas_path d of Inl _ \<Rightarrow> s | Inr p \<Rightarrow> s\<lparr>blobs := record_file_use p now (blobs s)\<rparr>)"

definition record_closure_use :: "json_forms \<Rightarrow> string \<Rightarrow> action_result \<Rightarrow> nat \<Rightarrow> store \<Rightarrow> store" where
  "record_closure_use j p r now s =
     (let s = fold (\<lambda>d. record_blob_use d now) (named_objects j s r) s
      in s\<lparr>records := set_accessed p now (records s)\<rparr>)"

definition record_use :: "json_forms \<Rightarrow> action_result \<Rightarrow> nat \<Rightarrow> store \<Rightarrow> store" where
  "record_use j r now s =
     (case record_path (result_action r) of
        Inl _ \<Rightarrow> s
      | Inr p \<Rightarrow>
          if (case bt_get (records s) p of None \<Rightarrow> False | Some f \<Rightarrow> recently_used f now) then s
          else record_closure_use j p r now s)"

definition record_use_of_stored :: "json_forms \<Rightarrow> action_result \<Rightarrow> nat \<Rightarrow> store \<Rightarrow> store" where
  "record_use_of_stored j r now s =
     (case record_path (result_action r) of Inl _ \<Rightarrow> s | Inr p \<Rightarrow> record_closure_use j p r now s)"

section \<open>Publishing a result\<close>

datatype action_store_outcome = Stored | Unchanged | Kept_existing

definition decide ::
  "(digest_algorithm \<Rightarrow> byte list \<Rightarrow> string) \<Rightarrow> json_forms \<Rightarrow> bool \<Rightarrow> (action_result \<Rightarrow> bool) \<Rightarrow> action_result \<Rightarrow>
   store \<Rightarrow> action_result \<Rightarrow> (store_error + action_store_outcome) option" where
  "decide hash_of j keep_existing is_restorable r s existing =
     (if existing = r then Some (Inr Unchanged)
      else if is_intact hash_of j s existing
      then (if \<not> keep_existing then Some (Inl Conflict)
            else if is_restorable existing then Some (Inr Kept_existing) else None)
      else None)"

definition put_result :: "string \<Rightarrow> byte list \<Rightarrow> nat \<Rightarrow> store \<Rightarrow> store" where
  "put_result p bs now s = s\<lparr>records := bt_insert p \<lparr>contents = bs, accessed = now\<rparr> (records s)\<rparr>"

text \<open>
  One attempt: a look without a lock, then the claim of the slot, a second look at what it holds,
  and the publication. \<open>before\<close> and \<open>after\<close> are what other processes do before the claim and
  between the claim and the publication. \<open>None\<close> asks for another attempt.
\<close>

definition store_attempt ::
  "(digest_algorithm \<Rightarrow> byte list \<Rightarrow> string) \<Rightarrow> json_forms \<Rightarrow> bool \<Rightarrow> (action_result \<Rightarrow> bool) \<Rightarrow> action_result \<Rightarrow>
   string \<Rightarrow> nat \<Rightarrow> (store \<Rightarrow> store) \<Rightarrow> (store \<Rightarrow> store) \<Rightarrow> store \<Rightarrow>
   (store_error + action_store_outcome) option \<times> store" where
  "store_attempt hash_of j keep_existing is_restorable r p now before after s =
     (case (case find_result j (result_action r) s of
              Inr (Some existing) \<Rightarrow> decide hash_of j keep_existing is_restorable r s existing
            | _ \<Rightarrow> None) of
        Some answer \<Rightarrow> (Some answer, s)
      | None \<Rightarrow>
          (let s1 = before s
           in case bt_get (records s1) p of
                None \<Rightarrow>
                  (let s2 = after s1
                   in case bt_get (records s2) p of
                        None \<Rightarrow> (Some (Inr Stored), put_result p (canonical_result j r) now s2)
                      | Some _ \<Rightarrow> (None, s2))
              | Some f \<Rightarrow>
                  (case (case parse_record j (contents f) (result_action r) of
                           Inr existing \<Rightarrow> decide hash_of j keep_existing is_restorable r s1 existing
                         | Inl _ \<Rightarrow> None) of
                     Some answer \<Rightarrow> (Some answer, s1)
                   | None \<Rightarrow> (Some (Inr Stored), put_result p (canonical_result j r) now (after s1)))))"

text \<open>Up to \<open>n\<close> attempts; \<open>others\<close> gives the interference of each.\<close>

fun store_attempts ::
  "nat \<Rightarrow> (digest_algorithm \<Rightarrow> byte list \<Rightarrow> string) \<Rightarrow> json_forms \<Rightarrow> bool \<Rightarrow> (action_result \<Rightarrow> bool) \<Rightarrow> action_result \<Rightarrow>
   string \<Rightarrow> nat \<Rightarrow> (nat \<Rightarrow> (store \<Rightarrow> store) \<times> (store \<Rightarrow> store)) \<Rightarrow> store \<Rightarrow>
   (store_error + action_store_outcome) \<times> store" where
  "store_attempts 0 hash_of j keep_existing is_restorable r p now others s = (Inl Kept_changing, s)"
| "store_attempts (Suc n) hash_of j keep_existing is_restorable r p now others s =
     (case store_attempt hash_of j keep_existing is_restorable r p now (fst (others n)) (snd (others n)) s of
        (Some answer, s') \<Rightarrow> (answer, s')
      | (None, s') \<Rightarrow> store_attempts n hash_of j keep_existing is_restorable r p now others s')"

fun require_blobs ::
  "(digest_algorithm \<Rightarrow> byte list \<Rightarrow> string) \<Rightarrow> store \<Rightarrow> digest list \<Rightarrow> store_error + unit" where
  "require_blobs hash_of s [] = Inr ()"
| "require_blobs hash_of s (d # ds) =
     (case cas_find hash_of d s of
        Inl e \<Rightarrow> Inl e
      | Inr None \<Rightarrow> Inl Missing_blob
      | Inr (Some _) \<Rightarrow> require_blobs hash_of s ds)"

definition option_list :: "'a option \<Rightarrow> 'a list" where
  "option_list x = (case x of None \<Rightarrow> [] | Some v \<Rightarrow> [v])"

definition named_directly :: "action_result \<Rightarrow> digest list" where
  "named_directly r = [result_action r] @ option_list (result_metadata r) @ option_list (output_root r)"

definition store_inner ::
  "(digest_algorithm \<Rightarrow> byte list \<Rightarrow> string) \<Rightarrow> json_forms \<Rightarrow> nat \<Rightarrow> (nat \<Rightarrow> (store \<Rightarrow> store) \<times> (store \<Rightarrow> store)) \<Rightarrow>
   action_result \<Rightarrow> bool \<Rightarrow> (action_result \<Rightarrow> bool) \<Rightarrow> store \<Rightarrow> (store_error + action_store_outcome) \<times> store" where
  "store_inner hash_of j now others r keep_existing is_restorable s =
     (if result_version r \<noteq> 1 then (Inl Unsupported_version, s)
      else
        (case require_blobs hash_of s (named_directly r) of
           Inl e \<Rightarrow> (Inl e, s)
         | Inr _ \<Rightarrow>
             (case record_path (result_action r) of
                Inl e \<Rightarrow> (Inl e, s)
              | Inr p \<Rightarrow> store_attempts 8 hash_of j keep_existing is_restorable r p now others s)))"

definition store_result ::
  "(digest_algorithm \<Rightarrow> byte list \<Rightarrow> string) \<Rightarrow> json_forms \<Rightarrow> nat \<Rightarrow> (nat \<Rightarrow> (store \<Rightarrow> store) \<times> (store \<Rightarrow> store)) \<Rightarrow>
   action_result \<Rightarrow> store \<Rightarrow> (store_error + string) \<times> store" where
  "store_result hash_of j now others r s =
     (case store_inner hash_of j now others r False (\<lambda>_. True) s of
        (Inl e, s') \<Rightarrow> (Inl e, s')
      | (Inr _, s') \<Rightarrow> (record_path (result_action r), s'))"

definition store_unless_restorable ::
  "(digest_algorithm \<Rightarrow> byte list \<Rightarrow> string) \<Rightarrow> json_forms \<Rightarrow> nat \<Rightarrow> (nat \<Rightarrow> (store \<Rightarrow> store) \<times> (store \<Rightarrow> store)) \<Rightarrow>
   action_result \<Rightarrow> (action_result \<Rightarrow> bool) \<Rightarrow> store \<Rightarrow> (store_error + action_store_outcome) \<times> store" where
  "store_unless_restorable hash_of j now others r is_restorable s = store_inner hash_of j now others r True is_restorable s"

section \<open>The store as a map from digests to bytes\<close>

text \<open>What a reader who verifies gets for a digest.\<close>

definition cas_abs :: "(digest_algorithm \<Rightarrow> byte list \<Rightarrow> string) \<Rightarrow> store \<Rightarrow> digest \<Rightarrow> byte list option" where
  "cas_abs hash_of s d =
     (case read_blob s d of
        None \<Rightarrow> None
      | Some bs \<Rightarrow> if matches_file hash_of d bs = Inr True then Some bs else None)"

lemma matches_file_valid: "valid_digest d \<Longrightarrow> matches_file hash_of d bs \<noteq> Inl e"
  by (auto simp: matches_file_def valid_digest_def validate_digest_def split: sum.splits)

lemma cas_find_abs:
  "cas_find hash_of d s = Inr (Some p) \<longleftrightarrow> cas_path d = Inr p \<and> cas_abs hash_of s d \<noteq> None"
proof (cases "cas_path d")
  case (Inr q)
  then have "valid_digest d" by (simp add: cas_path_valid)
  with Inr matches_file_valid [of d hash_of] show ?thesis
    by (auto simp: cas_find_def cas_abs_def read_blob_def split: option.splits sum.splits)
qed (simp add: cas_find_def)

lemma present_abs: "present hash_of s d \<longleftrightarrow> cas_abs hash_of s d \<noteq> None"
proof (cases "cas_path d")
  case (Inl e)
  then show ?thesis by (simp add: present_def cas_find_def cas_abs_def read_blob_def)
next
  case (Inr p)
  have "present hash_of s d \<longleftrightarrow> (\<exists>q. cas_find hash_of d s = Inr (Some q))"
    by (auto simp: present_def split: sum.split option.split)
  with Inr show ?thesis by (simp add: cas_find_abs)
qed

lemma read_put_blob:
  assumes "cas_path d = Inr p" "bt_inv (blobs s)"
  shows "read_blob (put_blob p bs now s) e = (if e = d then Some bs else read_blob s e)"
proof (cases "cas_path e")
  case (Inr q)
  show ?thesis
  proof (cases "e = d")
    case False
    then have "q \<noteq> p" using cas_path_inject assms(1) Inr by blast
    with False Inr assms(2) show ?thesis by (simp add: read_blob_def put_blob_def)
  qed (use assms in \<open>simp add: read_blob_def put_blob_def\<close>)
next
  case (Inl err)
  then show ?thesis using assms(1) by (auto simp: read_blob_def)
qed

lemma abs_put_blob:
  assumes "cas_path d = Inr p" "bt_inv (blobs s)" "matches_file hash_of d bs = Inr True"
  shows "cas_abs hash_of (put_blob p bs now s) = (cas_abs hash_of s)(d \<mapsto> bs)"
  using assms(3) by (auto simp: fun_eq_iff cas_abs_def read_put_blob [OF assms(1,2)])

lemma publish_blob_abs:
  assumes "publish_blob hash_of d p bs now rep s = (Inr q, s')" "cas_path d = Inr p" "bt_inv (blobs s)"
    and "matches_file hash_of d bs = Inr True"
  shows "q = p \<and> (\<exists>bs'. matches_file hash_of d bs' = Inr True \<and> cas_abs hash_of s' = (cas_abs hash_of s)(d \<mapsto> bs'))"
proof (cases "rep \<or> bt_get (blobs s) p = None")
  case True
  then have "q = p" "s' = put_blob p bs now s"
    using assms(1) by (auto simp: publish_blob_def persist_noclobber_def split: if_splits)
  with abs_put_blob [OF assms(2-4)] assms(4) show ?thesis by auto
next
  case False
  then have found: "cas_find hash_of d s = Inr (Some q)" "s' = s"
    using assms(1) by (auto simp: publish_blob_def persist_noclobber_def split: sum.splits option.splits)
  then obtain bs' where "cas_abs hash_of s d = Some bs'" "q = p" using assms(2) by (auto simp: cas_find_abs)
  moreover from this(1) have "matches_file hash_of d bs' = Inr True"
    by (auto simp: cas_abs_def split: option.splits if_splits)
  ultimately show ?thesis using found(2) by (auto simp: fun_upd_idem)
qed

lemma matches_bytes_file: "matches_bytes hash_of d bs = Inr True \<longleftrightarrow> matches_file hash_of d bs = Inr True"
  by (auto simp: matches_bytes_def matches_file_def split: sum.splits)

lemma matches_has_path:
  assumes "matches_file hash_of d bs = Inr True"
  obtains p where "cas_path d = Inr p"
  using assms by (auto simp: matches_file_def cas_path_def split: sum.splits)

lemma cas_abs_matches: "cas_abs hash_of s d = Some bs \<Longrightarrow> matches_file hash_of d bs = Inr True"
  by (auto simp: cas_abs_def split: option.splits if_splits)

text \<open>What storing promises: the first bytes that verify stay.\<close>

definition put_if_absent :: "'k \<Rightarrow> 'v \<Rightarrow> ('k \<Rightarrow> 'v option) \<Rightarrow> 'k \<Rightarrow> 'v option" where
  "put_if_absent k v m = (case m k of None \<Rightarrow> m(k \<mapsto> v) | Some _ \<Rightarrow> m)"

lemma put_blob_inv [simp]: "bt_inv (blobs s) \<Longrightarrow> bt_inv (blobs (put_blob p bs now s))"
  by (simp add: put_blob_def)

lemma store_with_found:
  "cas_path d = Inr p \<Longrightarrow> cas_abs hash_of s d \<noteq> None \<Longrightarrow> store_with hash_of others now d bs s = (Inr p, s)"
  using cas_find_abs [of hash_of d s p] by (simp add: store_with_def)

lemma store_with_absent:
  assumes "cas_path d = Inr p" "cas_abs hash_of s d = None" "matches_file hash_of d bs = Inr True"
  shows "store_with hash_of others now d bs s =
    publish_blob hash_of d p bs now (cas_find hash_of d s \<noteq> Inr None) (others s)"
  using assms cas_find_abs [of hash_of d s]
  by (auto simp: store_with_def split: sum.splits option.splits)

lemma publish_absent:
  assumes "cas_path d = Inr p" "cas_abs hash_of s d = None"
  shows "publish_blob hash_of d p bs now (cas_find hash_of d s \<noteq> Inr None) s = (Inr p, put_blob p bs now s)"
  using assms cas_find_abs [of hash_of d s]
  by (auto simp: publish_blob_def persist_noclobber_def cas_find_def split: option.splits sum.splits if_splits)

lemma store_bytes_alone:
  assumes "bt_inv (blobs s)" "matches_bytes hash_of d bs = Inr True"
  shows "\<exists>p s'. store_bytes hash_of id now d bs s = (Inr p, s') \<and> cas_path d = Inr p \<and> bt_inv (blobs s') \<and>
    cas_abs hash_of s' = put_if_absent d bs (cas_abs hash_of s)"
proof -
  have m: "matches_file hash_of d bs = Inr True" using assms(2) by (simp add: matches_bytes_file)
  then obtain p where p: "cas_path d = Inr p" by (rule matches_has_path)
  show ?thesis
  proof (cases "cas_abs hash_of s d")
    case None
    with p m have "store_bytes hash_of id now d bs s = (Inr p, put_blob p bs now s)"
      by (simp add: store_bytes_def assms(2) store_with_absent publish_absent del: not_None_eq)
    with None p m assms(1) show ?thesis by (simp add: put_if_absent_def abs_put_blob)
  next
    case (Some bs')
    with p assms show ?thesis by (simp add: store_bytes_def store_with_found put_if_absent_def)
  qed
qed

lemma store_bytes_refused:
  "matches_bytes hash_of d bs \<noteq> Inr True \<Longrightarrow> \<exists>e. store_bytes hash_of others now d bs s = (Inl e, s)"
  by (auto simp: store_bytes_def split: sum.splits)

text \<open>
  C27. The content-addressed store refines a partial map from digests to bytes whose writes never
  change what is there. A lookup answers with the path of a digest exactly when the map has it.
  Storing bytes alone adds them when the digest has no verified bytes, a corrupt file included,
  leaves every other digest as it was, and refuses bytes that do not match without changing
  anything. Whatever other processes do meanwhile, a store that reports success leaves verified
  bytes under its digest and for every other digest what the store or those processes had there.
\<close>

theorem store_refines_map:
  assumes "bt_inv (blobs s)" and "bt_inv (blobs (others s))"
  shows "(\<forall>p. cas_find hash_of d s = Inr (Some p) \<longleftrightarrow> cas_path d = Inr p \<and> cas_abs hash_of s d \<noteq> None) \<and>
    (matches_bytes hash_of d bs = Inr True \<longrightarrow>
       (\<exists>p s'. store_bytes hash_of id now d bs s = (Inr p, s') \<and> cas_path d = Inr p \<and> bt_inv (blobs s') \<and>
         cas_abs hash_of s' = put_if_absent d bs (cas_abs hash_of s))) \<and>
    (matches_bytes hash_of d bs \<noteq> Inr True \<longrightarrow>
       (\<exists>e. store_bytes hash_of others now d bs s = (Inl e, s))) \<and>
    (\<forall>p s'. store_bytes hash_of others now d bs s = (Inr p, s') \<longrightarrow>
       cas_find hash_of d s' = Inr (Some p) \<and>
       (\<forall>e. e \<noteq> d \<longrightarrow> cas_abs hash_of s' e \<in> {cas_abs hash_of s e, cas_abs hash_of (others s) e}))"
proof (intro conjI allI)
  fix p s'
  show "store_bytes hash_of others now d bs s = (Inr p, s') \<longrightarrow>
       cas_find hash_of d s' = Inr (Some p) \<and>
       (\<forall>e. e \<noteq> d \<longrightarrow> cas_abs hash_of s' e \<in> {cas_abs hash_of s e, cas_abs hash_of (others s) e})"
  proof
    assume stored: "store_bytes hash_of others now d bs s = (Inr p, s')"
    then have ok: "matches_bytes hash_of d bs = Inr True" using store_bytes_refused [of hash_of d bs others now s] by auto
    then have m: "matches_file hash_of d bs = Inr True" by (simp add: matches_bytes_file)
    then obtain q where q: "cas_path d = Inr q" by (rule matches_has_path)
    have inner: "store_with hash_of others now d bs s = (Inr p, s')" using stored ok by (simp add: store_bytes_def)
    show "cas_find hash_of d s' = Inr (Some p) \<and>
       (\<forall>e. e \<noteq> d \<longrightarrow> cas_abs hash_of s' e \<in> {cas_abs hash_of s e, cas_abs hash_of (others s) e})"
    proof (cases "cas_abs hash_of s d")
      case None
      with inner q m have "publish_blob hash_of d q bs now (cas_find hash_of d s \<noteq> Inr None) (others s) = (Inr p, s')"
        by (simp add: store_with_absent del: not_None_eq)
      from publish_blob_abs [OF this q assms(2) m] q show ?thesis by (auto simp: cas_find_abs)
    next
      case (Some x)
      then have "p = q" "s' = s" using inner q by (simp_all add: store_with_found)
      with Some q show ?thesis by (simp add: cas_find_abs)
    qed
  qed
qed (use assms in \<open>auto simp: cas_find_abs dest: store_bytes_alone store_bytes_refused\<close>)

definition empty_store :: store where "empty_store = \<lparr>blobs = [], records = []\<rparr>"

definition sample_path :: "nat \<Rightarrow> string" where
  "sample_path n = (case cas_path (sample_digest n) of Inl _ \<Rightarrow> [] | Inr p \<Rightarrow> p)"

lemma sample_cas_path: "cas_path (sample_digest n) = Inr (sample_path n)"
  using valid_sample_digest [of n] by (auto simp: sample_path_def cas_path_def valid_digest_def split: sum.splits)

definition constant_hash :: "digest_algorithm \<Rightarrow> byte list \<Rightarrow> string" where
  "constant_hash a bs = replicate 64 (CHR ''a'')"

lemma sample_matches: "matches_file constant_hash (sample_digest n) bs = Inr (length bs = n)"
proof -
  have "algorithm_kind (sample_digest n) = Inr Blake3"
    by (simp add: algorithm_kind_def sample_digest_def parse_algorithm_def)
  with valid_sample_digest [of n] show ?thesis
    by (auto simp: matches_file_def valid_digest_def constant_hash_def sample_digest_def split: sum.splits)
qed

theorem store_refines_map_witness:
  "cas_abs constant_hash (put_blob (sample_path 2) [7] 0 empty_store) (sample_digest 2) = None \<and>
   (\<exists>p s'. store_bytes constant_hash id 5 (sample_digest 2) [7, 9] (put_blob (sample_path 2) [7] 0 empty_store) =
      (Inr p, s') \<and> cas_abs constant_hash s' (sample_digest 2) = Some [7, 9])"
proof -
  let ?s = "put_blob (sample_path 2) [7] 0 empty_store"
  have inv: "bt_inv (blobs ?s)" by (simp add: empty_store_def)
  have none: "cas_abs constant_hash ?s (sample_digest 2) = None"
    using read_put_blob [OF sample_cas_path, of empty_store 2 "[7]" 0 "sample_digest 2"]
    by (simp add: cas_abs_def sample_matches empty_store_def)
  have "matches_bytes constant_hash (sample_digest 2) [7, 9] = Inr True"
    by (simp add: matches_bytes_file sample_matches)
  with store_refines_map [of ?s id constant_hash "sample_digest 2" "[7, 9]" 5] inv none
  show ?thesis by (auto simp: put_if_absent_def)
qed

section \<open>What a result names\<close>

definition child_of :: "json_forms \<Rightarrow> store \<Rightarrow> digest \<Rightarrow> digest \<Rightarrow> bool" where
  "child_of j s d c \<longleftrightarrow> (case read_directory j s d of None \<Rightarrow> False | Some dir \<Rightarrow> c \<in> set (dir_children dir))"

definition files_of :: "json_forms \<Rightarrow> store \<Rightarrow> digest \<Rightarrow> digest set" where
  "files_of j s d = (case read_directory j s d of None \<Rightarrow> {} | Some dir \<Rightarrow> set (dir_files dir))"

definition directory_ok ::
  "(digest_algorithm \<Rightarrow> byte list \<Rightarrow> string) \<Rightarrow> json_forms \<Rightarrow> store \<Rightarrow> digest \<Rightarrow> bool" where
  "directory_ok hash_of j s d \<longleftrightarrow>
     present hash_of s d \<and> read_directory j s d \<noteq> None \<and> (\<forall>f \<in> files_of j s d. present hash_of s f)"

text \<open>Everything below a set of directories.\<close>

definition tree :: "json_forms \<Rightarrow> store \<Rightarrow> digest set \<Rightarrow> digest set" where
  "tree j s roots = {e. \<exists>d \<in> roots. (child_of j s)\<^sup>*\<^sup>* d e}"

lemma tree_mono: "A \<subseteq> B \<Longrightarrow> tree j s A \<subseteq> tree j s B"
  by (auto simp: tree_def)

lemma tree_root [simp, intro]: "d \<in> A \<Longrightarrow> d \<in> tree j s A"
  by (auto simp: tree_def)

lemma tree_idem [simp]: "tree j s (tree j s A) = tree j s A"
  by (auto simp: tree_def) (meson rtranclp_trans)

lemma tree_absorb: "B \<subseteq> tree j s A \<Longrightarrow> tree j s (A \<union> B) = tree j s A"
  using tree_mono [of "A \<union> B" "tree j s A" j s] tree_mono [of A "A \<union> B" j s] by auto

lemma tree_closed:
  assumes "\<And>d c. d \<in> A \<Longrightarrow> child_of j s d c \<Longrightarrow> c \<in> A"
  shows "tree j s A = A"
proof -
  have "(child_of j s)\<^sup>*\<^sup>* d e \<Longrightarrow> d \<in> A \<Longrightarrow> e \<in> A" for d e
    by (induction rule: rtranclp_induct) (auto intro: assms)
  then show ?thesis by (auto simp: tree_def)
qed

lemma tree_visit:
  assumes "read_directory j s d = Some dir"
  shows "tree j s (insert d seen \<union> (set (dir_children dir) \<union> set ds)) = tree j s (seen \<union> set (d # ds))"
proof -
  have "set (dir_children dir) \<subseteq> tree j s (seen \<union> set (d # ds))"
    using assms by (auto simp: tree_def child_of_def)
  moreover have "insert d seen \<union> (set (dir_children dir) \<union> set ds) = (seen \<union> set (d # ds)) \<union> set (dir_children dir)" by auto
  ultimately show ?thesis by (simp only: tree_absorb)
qed

lemma directories_intact_tree:
  assumes "\<And>x. x \<in> seen \<Longrightarrow> directory_ok hash_of j s x"
    and "\<And>x c. x \<in> seen \<Longrightarrow> child_of j s x c \<Longrightarrow> c \<in> seen \<union> set ds"
  shows "directories_intact hash_of j s seen ds \<longleftrightarrow> (\<forall>e \<in> tree j s (seen \<union> set ds). directory_ok hash_of j s e)"
  using assms
proof (induction hash_of j s seen ds rule: directories_intact.induct)
  case (1 hash_of j s seen)
  then have "tree j s seen = seen" by (intro tree_closed) auto
  with 1 show ?case by simp
next
  case (2 hash_of j s seen d ds)
  show ?case
  proof (cases "d \<in> seen \<or> \<not> directory_ok hash_of j s d")
    case True
    show ?thesis
    proof (cases "d \<in> seen")
      case True
      then have roots: "seen \<union> set (d # ds) = seen \<union> set ds" by auto
      with True have "directories_intact hash_of j s seen ds \<longleftrightarrow>
          (\<forall>e \<in> tree j s (seen \<union> set ds). directory_ok hash_of j s e)"
        using 2(1) [OF True 2(3)] 2(4) by blast
      with True roots show ?thesis by (simp only: directories_intact.simps if_True)
    next
      case False
      with True have "\<not> directories_intact hash_of j s seen (d # ds)" "\<not> directory_ok hash_of j s d"
        by (auto simp: directory_ok_def files_of_def list_all_iff split: option.splits)
      then show ?thesis by (meson UnCI list.set_intros(1) tree_root)
    qed
  next
    case False
    then obtain dir where dir: "read_directory j s d = Some dir" "present hash_of s d"
      "\<forall>f \<in> set (dir_files dir). present hash_of s f"
      by (auto simp: directory_ok_def files_of_def)
    have "directories_intact hash_of j s (insert d seen) (dir_children dir @ ds) \<longleftrightarrow>
        (\<forall>e \<in> tree j s (insert d seen \<union> set (dir_children dir @ ds)). directory_ok hash_of j s e)"
      by (rule 2(2)) (use False dir 2(3,4) in \<open>auto simp: child_of_def list_all_iff\<close>)
    with False dir tree_visit [OF dir(1), of seen ds] show ?thesis by (simp add: list_all_iff Un_ac)
  qed
qed

lemma walk_objects_set:
  assumes "\<And>x. x \<in> seen \<Longrightarrow> x \<in> set objects \<and> files_of j s x \<subseteq> set objects"
    and "\<And>x c. x \<in> seen \<Longrightarrow> child_of j s x c \<Longrightarrow> c \<in> seen \<union> set pending"
  shows "set (walk_objects j s seen objects pending) =
    set objects \<union> (\<Union>d \<in> tree j s (seen \<union> set pending). insert d (files_of j s d))"
  using assms
proof (induction j s seen objects pending rule: walk_objects.induct)
  case (1 j s seen objects pending)
  show ?case
  proof (cases "pending = []")
    case True
    then have "tree j s seen = seen" using 1(5) by (intro tree_closed) auto
    with True 1(4) show ?thesis by (auto simp: walk_objects.simps)
  next
    case False
    define d rest where "d = last pending" and "rest = butlast pending"
    have set_p: "set pending = insert d (set rest)"
      using False append_butlast_last_id [of pending] unfolding d_def rest_def by (metis Un_insert_right list.simps(15) set_append sup_bot.right_neutral empty_set)
    consider (seen) "d \<in> seen" | (leaf) "d \<notin> seen" "read_directory j s d = None"
      | (dir) dir where "d \<notin> seen" "read_directory j s d = Some dir" by (cases "read_directory j s d") auto
    then show ?thesis
    proof cases
      case seen
      have "set (walk_objects j s seen objects rest) =
          set objects \<union> (\<Union>d \<in> tree j s (seen \<union> set rest). insert d (files_of j s d))"
        by (rule 1(1) [OF False d_def rest_def seen]) (use 1(4,5) seen set_p in auto)
      moreover have "seen \<union> set pending = seen \<union> set rest" using seen set_p by auto
      ultimately show ?thesis using False seen
        by (subst walk_objects.simps) (simp add: d_def [symmetric] rest_def [symmetric] Let_def)
    next
      case leaf
      have "set (walk_objects j s (insert d seen) (objects @ [d]) rest) =
          set (objects @ [d]) \<union> (\<Union>d \<in> tree j s (insert d seen \<union> set rest). insert d (files_of j s d))"
        by (rule 1(2) [OF False d_def rest_def leaf]) (use leaf 1(4,5) set_p in \<open>auto simp: files_of_def child_of_def\<close>)
      then show ?thesis using False leaf set_p
        by (subst walk_objects.simps) (auto simp: d_def [symmetric] rest_def [symmetric] Let_def)
    next
      case (dir dir)
      have "set (walk_objects j s (insert d seen) (objects @ [d] @ dir_files dir) (rest @ dir_children dir)) =
          set (objects @ [d] @ dir_files dir) \<union>
          (\<Union>d \<in> tree j s (insert d seen \<union> set (rest @ dir_children dir)). insert d (files_of j s d))"
        by (rule 1(3) [OF False d_def rest_def dir]) (use dir 1(4,5) set_p in \<open>auto simp: files_of_def child_of_def\<close>)
      moreover have "tree j s (insert d seen \<union> set (rest @ dir_children dir)) = tree j s (seen \<union> set pending)"
        using tree_visit [OF dir(2), of seen rest] set_p by (simp add: Un_ac)
      moreover have "files_of j s d = set (dir_files dir)" using dir by (simp add: files_of_def)
      moreover have "d \<in> tree j s (seen \<union> set pending)" using set_p by auto
      ultimately show ?thesis using False dir
        by (subst walk_objects.simps) (auto simp: d_def [symmetric] rest_def [symmetric] Let_def)
    qed
  qed
qed

text \<open>What a restore reads besides the record: the compiler output its metadata names.\<close>

definition captured_objects :: "json_forms \<Rightarrow> store \<Rightarrow> action_result \<Rightarrow> digest set" where
  "captured_objects j s r =
     (case Option.bind (result_metadata r) (\<lambda>m. Option.bind (read_blob s m) (parse_captured j)) of
        None \<Rightarrow> {}
      | Some c \<Rightarrow> {captured_stdout c, captured_stderr c})"

lemma named_objects_set:
  "set (named_objects j s r) =
     {result_action r} \<union> set_option (result_metadata r) \<union> captured_objects j s r \<union>
     (\<Union>d \<in> tree j s (set_option (output_root r)). insert d (files_of j s d))"
proof -
  have "set (walk_objects j s {} objs ds) =
      set objs \<union> (\<Union>d \<in> tree j s (set ds). insert d (files_of j s d))" for objs ds
    using walk_objects_set [of "{}" objs j s ds] by simp
  then show ?thesis
    by (cases "output_root r"; cases "result_metadata r";
        cases "Option.bind (read_blob s (the (result_metadata r))) (parse_captured j)")
      (simp_all add: named_objects_def captured_objects_def insert_commute)
qed

end
