(* ===== verification/Store_Properties.thy ===== *)
theory Store_Properties
  imports Local_Store
begin

text \<open>
  What the local cache guarantees of a result: which objects an intact one has, what an answer to
  a publication says about the record left in the store, and which records a publication may
  replace. The JSON forms enter through the law that canonical bytes parse back.
\<close>

section \<open>Intact results\<close>

lemma directory_ok_present:
  "directory_ok hash_of j s d \<Longrightarrow> e \<in> insert d (files_of j s d) \<Longrightarrow> present hash_of s e"
  by (auto simp: directory_ok_def)

text \<open>
  C28. A result is intact exactly when its action and its metadata are present and verified and
  every directory its output root leads to, through any number of levels, is present, verified,
  parses, and lists only files that are present and verified. When the compiler output that the
  metadata names is there too, every object a recorded use touches verifies.
\<close>

theorem intact_covers_tree:
  "(is_intact hash_of j s r \<longleftrightarrow>
      present hash_of s (result_action r) \<and> (\<forall>m \<in> set_option (result_metadata r). present hash_of s m) \<and>
      (\<forall>d \<in> tree j s (set_option (output_root r)). directory_ok hash_of j s d)) \<and>
   (is_intact hash_of j s r \<and> (\<forall>d \<in> captured_objects j s r. present hash_of s d) \<longrightarrow>
      list_all (present hash_of s) (named_objects j s r))"
proof -
  have intact: "is_intact hash_of j s r \<longleftrightarrow>
      present hash_of s (result_action r) \<and> (\<forall>m \<in> set_option (result_metadata r). present hash_of s m) \<and>
      (\<forall>d \<in> tree j s (set_option (output_root r)). directory_ok hash_of j s d)"
  proof -
    have "directories_intact hash_of j s {} ds \<longleftrightarrow> (\<forall>d \<in> tree j s (set ds). directory_ok hash_of j s d)" for ds
      using directories_intact_tree [of "{}" hash_of j s ds] by simp
    moreover have "tree j s {} = {}" by (simp add: tree_def)
    ultimately show ?thesis
      by (cases "result_metadata r"; cases "output_root r") (simp_all add: is_intact_def del: directories_intact.simps)
  qed
  then show ?thesis by (auto simp: list_all_iff named_objects_set dest: directory_ok_present)
qed

definition sample_json :: json_forms where
  "sample_json =
     \<lparr>parse_result = (\<lambda>bs. if bs = [9] then Some \<lparr>result_version = 1, result_action = sample_digest 4,
          result_metadata = None, output_root = Some (sample_digest 1)\<rparr> else None),
      canonical_result = (\<lambda>_. [9]),
      parse_directory = (\<lambda>bs. if bs = [1] then Some \<lparr>dir_files = [sample_digest 2], dir_children = [sample_digest 3]\<rparr>
        else if bs = [0, 0, 0] then Some \<lparr>dir_files = [], dir_children = []\<rparr> else None),
      parse_captured = (\<lambda>_. None)\<rparr>"

definition sample_result :: action_result where
  "sample_result = \<lparr>result_version = 1, result_action = sample_digest 4, result_metadata = None,
     output_root = Some (sample_digest 1)\<rparr>"

definition sample_store :: store where
  "sample_store = put_blob (sample_path 4) [5, 5, 5, 5] 0 (put_blob (sample_path 3) [0, 0, 0] 0
     (put_blob (sample_path 2) [7, 9] 0 (put_blob (sample_path 1) [1] 0 empty_store)))"

lemma sample_digest_inject [simp]: "sample_digest m = sample_digest n \<longleftrightarrow> m = n"
  by (simp add: sample_digest_def)

lemma sample_reads:
  "read_blob sample_store (sample_digest n) =
     (if n = 4 then Some [5, 5, 5, 5] else if n = 3 then Some [0, 0, 0] else if n = 2 then Some [7, 9]
      else if n = 1 then Some [1] else None)"
proof -
  have "read_blob empty_store d = None" for d by (simp add: read_blob_def empty_store_def split: sum.split)
  moreover have "bt_inv (blobs empty_store)" by (simp add: empty_store_def)
  ultimately show ?thesis unfolding sample_store_def by (simp add: read_put_blob [OF sample_cas_path])
qed

lemma sample_present: "present constant_hash sample_store (sample_digest n) \<longleftrightarrow> n \<in> {1, 2, 3, 4}"
  by (auto simp: present_abs cas_abs_def sample_reads sample_matches)

lemma sample_directories:
  "read_directory sample_json sample_store (sample_digest n) =
     (if n = 1 then Some \<lparr>dir_files = [sample_digest 2], dir_children = [sample_digest 3]\<rparr>
      else if n = 3 then Some \<lparr>dir_files = [], dir_children = []\<rparr> else None)"
  by (simp add: read_directory_def sample_reads sample_json_def)

lemma sample_intact: "is_intact constant_hash sample_json sample_store sample_result"
  by (simp add: is_intact_def sample_result_def sample_present sample_directories)

theorem intact_covers_tree_witness:
  "is_intact constant_hash sample_json sample_store sample_result \<and>
   list_all (present constant_hash sample_store) (named_objects sample_json sample_store sample_result)"
proof -
  have "captured_objects sample_json sample_store sample_result = {}"
    by (simp add: captured_objects_def sample_result_def)
  with intact_covers_tree [of constant_hash sample_json sample_store sample_result] sample_intact
  show ?thesis by simp
qed

section \<open>Publishing results\<close>

text \<open>What an answer says about the record that is left.\<close>

definition record_answer ::
  "(digest_algorithm \<Rightarrow> byte list \<Rightarrow> string) \<Rightarrow> json_forms \<Rightarrow> bool \<Rightarrow> (action_result \<Rightarrow> bool) \<Rightarrow> action_result \<Rightarrow>
   store_error + action_store_outcome \<Rightarrow> store \<Rightarrow> bool" where
  "record_answer hash_of j keep_existing is_restorable r a s \<longleftrightarrow>
     (case find_result j (result_action r) s of
        Inr (Some e) \<Rightarrow>
          (if e = r then a = Inr Stored \<or> a = Inr Unchanged
           else is_intact hash_of j s e \<and>
             (if keep_existing then is_restorable e \<and> a = Inr Kept_existing else a = Inl Conflict))
      | _ \<Rightarrow> False)"

lemma decide_answer:
  assumes "find_result j (result_action r) s = Inr (Some e)"
    and "decide hash_of j keep_existing is_restorable r s e = Some a"
  shows "record_answer hash_of j keep_existing is_restorable r a s"
  using assms by (auto simp: record_answer_def decide_def split: if_splits)

lemma put_result_found:
  assumes "record_path (result_action r) = Inr p" "bt_inv (records s)" "result_version r = 1"
    and "parse_result j (canonical_result j r) = Some r"
  shows "find_result j (result_action r) (put_result p (canonical_result j r) now s) = Inr (Some r)"
  using assms by (simp add: find_result_def put_result_def parse_record_def)

lemma put_result_answer:
  assumes "record_path (result_action r) = Inr p" "bt_inv (records s)" "result_version r = 1"
    and "parse_result j (canonical_result j r) = Some r"
  shows "record_answer hash_of j keep_existing is_restorable r (Inr Stored) (put_result p (canonical_result j r) now s)"
  using put_result_found [OF assms] by (simp add: record_answer_def)

text \<open>Other processes keep the directory of records a directory.\<close>

definition keeps_records :: "(store \<Rightarrow> store) \<Rightarrow> bool" where
  "keeps_records f \<longleftrightarrow> (\<forall>s. bt_inv (records s) \<longrightarrow> bt_inv (records (f s)))"

lemma looked_up:
  "(case (x :: store_error + 'a option) of Inr (Some e) \<Rightarrow> f e | _ \<Rightarrow> None) = Some a \<Longrightarrow> \<exists>e. x = Inr (Some e) \<and> f e = Some a"
  by (auto split: sum.splits option.splits)

lemma parsed: "(case (x :: store_error + 'a) of Inr e \<Rightarrow> f e | Inl _ \<Rightarrow> None) = Some a \<Longrightarrow> \<exists>e. x = Inr e \<and> f e = Some a"
  by (auto split: sum.splits)

lemma store_attempt_cases:
  assumes "store_attempt hash_of j keep_existing is_restorable r p now before after s = (Some a, s')"
  obtains (early) e where "find_result j (result_action r) s = Inr (Some e)"
      "decide hash_of j keep_existing is_restorable r s e = Some a" "s' = s"
    | (locked) f e where "bt_get (records (before s)) p = Some f" "parse_record j (contents f) (result_action r) = Inr e"
      "decide hash_of j keep_existing is_restorable r (before s) e = Some a" "s' = before s"
    | (put) "a = Inr Stored" "s' = put_result p (canonical_result j r) now (after (before s))"
proof -
  let ?look = "case find_result j (result_action r) s of
      Inr (Some e) \<Rightarrow> decide hash_of j keep_existing is_restorable r s e | _ \<Rightarrow> None"
  let ?held = "\<lambda>f. case parse_record j (contents f) (result_action r) of
      Inr e \<Rightarrow> decide hash_of j keep_existing is_restorable r (before s) e | Inl _ \<Rightarrow> None"
  note run = assms [unfolded store_attempt_def Let_def]
  show thesis
  proof (cases ?look)
    case (Some b)
    with run have "b = a" "s' = s" by simp_all
    with looked_up [OF Some] early show thesis by blast
  next
    case None
    show thesis
    proof (cases "bt_get (records (before s)) p")
      case vacant: None
      with None run show thesis
        by (cases "bt_get (records (after (before s))) p") (simp_all add: put)
    next
      case (Some f)
      show thesis
      proof (cases "?held f")
        case free: None
        with None Some run show thesis by (simp add: put)
      next
        case held: (Some b)
        with None Some run have "b = a" "s' = before s" by simp_all
        with parsed [OF held] Some locked show thesis by blast
      qed
    qed
  qed
qed

lemma store_attempt_answer:
  assumes "store_attempt hash_of j keep_existing is_restorable r p now before after s = (Some a, s')"
    and path: "record_path (result_action r) = Inr p" and version: "result_version r = 1"
    and json: "parse_result j (canonical_result j r) = Some r"
    and inv: "bt_inv (records s)" "keeps_records before" "keeps_records after"
  shows "record_answer hash_of j keep_existing is_restorable r a s'"
proof -
  have inv': "bt_inv (records (before s))" "bt_inv (records (after (before s)))"
    using inv by (simp_all add: keeps_records_def)
  note stored = put_result_answer [OF path inv'(2) version json]
  consider (early) e where "find_result j (result_action r) s = Inr (Some e)"
      "decide hash_of j keep_existing is_restorable r s e = Some a" "s' = s"
    | (locked) f e where "bt_get (records (before s)) p = Some f" "parse_record j (contents f) (result_action r) = Inr e"
      "decide hash_of j keep_existing is_restorable r (before s) e = Some a" "s' = before s"
    | (put) "a = Inr Stored" "s' = put_result p (canonical_result j r) now (after (before s))"
    using assms(1) by (rule store_attempt_cases)
  then show ?thesis
  proof cases
    case early
    with decide_answer show ?thesis by blast
  next
    case locked
    then have "find_result j (result_action r) (before s) = Inr (Some e)" by (simp add: find_result_def path)
    with locked decide_answer show ?thesis by blast
  next
    case put
    with stored show ?thesis by simp
  qed
qed

lemma store_attempt_retry:
  assumes "store_attempt hash_of j keep_existing is_restorable r p now before after s = (None, s')"
  shows "s' = after (before s) \<and> bt_get (records (before s)) p = None \<and> bt_get (records s') p \<noteq> None"
  using assms by (auto simp: store_attempt_def Let_def split: sum.splits option.splits)

lemma store_attempts_answer:
  assumes "store_attempts n hash_of j keep_existing is_restorable r p now others s = (a, s')"
    and "record_path (result_action r) = Inr p" "result_version r = 1"
    and "parse_result j (canonical_result j r) = Some r" "bt_inv (records s)"
    and "\<And>k. keeps_records (fst (others k)) \<and> keeps_records (snd (others k))"
  shows "a = Inl Kept_changing \<or> record_answer hash_of j keep_existing is_restorable r a s'"
  using assms(1,5)
proof (induction n arbitrary: s)
  case (Suc n)
  obtain b t where step: "store_attempt hash_of j keep_existing is_restorable r p now (fst (others n)) (snd (others n)) s = (b, t)"
    by fastforce
  show ?case
  proof (cases b)
    case None
    with step have "t = snd (others n) (fst (others n) s)" using store_attempt_retry by fast
    with assms(6) [of n] Suc.prems(2) have "bt_inv (records t)" by (simp add: keeps_records_def)
    with None step Suc show ?thesis by simp
  next
    case (Some c)
    with step Suc.prems(1) have "b = Some a" "t = s'" by simp_all
    with step store_attempt_answer assms(2-4,6) Suc.prems(2) show ?thesis by blast
  qed
qed simp

lemma store_attempts_alone:
  assumes "\<And>k. others k = (id, id)"
  shows "fst (store_attempts (Suc n) hash_of j keep_existing is_restorable r p now others s) \<noteq> Inl Kept_changing"
proof -
  have "decide hash_of j keep_existing is_restorable r s e \<noteq> Some (Inl Kept_changing)" for e s
    by (simp add: decide_def)
  then show ?thesis
    by (auto simp: assms store_attempt_def Let_def split: sum.splits option.splits)
qed

lemma store_attempts_early:
  assumes "find_result j (result_action r) s = Inr (Some e)"
    and "decide hash_of j keep_existing is_restorable r s e = Some a"
  shows "store_attempts (Suc n) hash_of j keep_existing is_restorable r p now others s = (a, s)"
  using assms by (simp add: store_attempt_def)

lemma require_blobs_ok: "require_blobs hash_of s ds = Inr u \<longleftrightarrow> list_all (present hash_of s) ds"
  by (induction ds) (auto simp: present_def split: sum.splits option.splits)

lemma require_blobs_error: "require_blobs hash_of s ds = Inl e \<Longrightarrow> e \<noteq> Conflict \<and> e \<noteq> Kept_changing"
  by (induction ds) (auto simp: cas_find_def cas_path_def split: sum.splits option.splits if_splits)

lemma record_path_error: "record_path d = Inl e \<Longrightarrow> e \<noteq> Conflict \<and> e \<noteq> Kept_changing"
  by (auto simp: record_path_def split: sum.splits if_splits)

text \<open>Either a check refused before the store was touched, or the attempts ran.\<close>

lemma store_inner_cases:
  assumes "store_inner hash_of j now others r keep_existing is_restorable s = (a, s')"
  obtains (refused) e where "a = Inl e" "s' = s" "e \<noteq> Conflict" "e \<noteq> Kept_changing"
  | (ran) p where "record_path (result_action r) = Inr p" "result_version r = 1"
      "list_all (present hash_of s) (named_directly r)"
      "store_attempts 8 hash_of j keep_existing is_restorable r p now others s = (a, s')"
  using assms require_blobs_ok [of hash_of s "named_directly r"]
  by (auto simp: store_inner_def split: if_splits sum.splits dest: require_blobs_error record_path_error)

lemma sample_record_path: "\<exists>p. record_path (sample_digest n) = Inr p"
  using valid_sample_digest [of n] by (auto simp: record_path_def valid_digest_def sample_digest_def split: sum.splits)


section \<open>Recorded uses\<close>

text \<open>A use only moves access times: no file appears, disappears or changes its bytes.\<close>

definition same_contents :: "files \<Rightarrow> files \<Rightarrow> bool" where
  "same_contents fs gs \<longleftrightarrow> (\<forall>p. map_option contents (bt_get fs p) = map_option contents (bt_get gs p))"

lemma set_accessed_contents: "bt_inv fs \<Longrightarrow> same_contents fs (set_accessed p now fs) \<and> bt_inv (set_accessed p now fs)"
  by (auto simp: same_contents_def set_accessed_def split: option.split)

lemma record_file_use_contents:
  "bt_inv fs \<Longrightarrow> same_contents fs (record_file_use p now fs) \<and> bt_inv (record_file_use p now fs)"
  using set_accessed_contents [of fs p now]
  by (auto simp: record_file_use_def same_contents_def split: option.split)

text \<open>How old the last use of a file may look: within the refresh interval of the use.\<close>

definition used_by :: "nat \<Rightarrow> stored_file \<Rightarrow> bool" where
  "used_by now f \<longleftrightarrow> now < accessed f + USE_REFRESH"

lemma record_file_use_used:
  assumes "bt_inv fs" "bt_get (record_file_use p now fs) q = Some f" "q = p \<or> (\<exists>g. bt_get fs q = Some g \<and> used_by now g)"
  shows "used_by now f"
  using assms by (auto simp: record_file_use_def set_accessed_def recently_used_def used_by_def USE_REFRESH_def
    split: option.splits if_splits)

lemma record_blob_use_inv:
  "bt_inv (blobs s) \<Longrightarrow> bt_inv (blobs (record_blob_use d now s)) \<and> same_contents (blobs s) (blobs (record_blob_use d now s)) \<and>
     records (record_blob_use d now s) = records s"
  using record_file_use_contents by (auto simp: record_blob_use_def same_contents_def split: sum.split)

lemma record_blob_use_used:
  assumes "bt_inv (blobs s)" "cas_path e = Inr p" "bt_get (blobs (record_blob_use d now s)) p = Some f"
    and "e = d \<or> (\<exists>g. bt_get (blobs s) p = Some g \<and> used_by now g)"
  shows "used_by now f"
  using assms record_file_use_used [of "blobs s" _ now p f]
  by (auto simp: record_blob_use_def split: sum.splits)

lemma record_uses:
  assumes "bt_inv (blobs s)"
  shows "same_contents (blobs s) (blobs (fold (\<lambda>d. record_blob_use d now) ds s)) \<and>
    records (fold (\<lambda>d. record_blob_use d now) ds s) = records s \<and>
    bt_inv (blobs (fold (\<lambda>d. record_blob_use d now) ds s))"
  using assms
proof (induction ds arbitrary: s)
  case (Cons d ds)
  from record_blob_use_inv [OF Cons.prems, of d now] Cons.IH [of "record_blob_use d now s"]
  show ?case by (simp add: same_contents_def)
qed (simp add: same_contents_def)

lemma record_uses_used:
  assumes "bt_inv (blobs s)" "cas_path e = Inr p" "bt_get (blobs (fold (\<lambda>d. record_blob_use d now) ds s)) p = Some f"
    and "e \<in> set ds \<or> (\<exists>g. bt_get (blobs s) p = Some g \<and> used_by now g)"
  shows "used_by now f"
  using assms
proof (induction ds arbitrary: s)
  case (Cons d ds)
  let ?t = "record_blob_use d now s"
  note inv = record_blob_use_inv [OF Cons.prems(1), of d now]
  have "bt_get (blobs ?t) p \<noteq> None"
    using record_uses [of ?t now ds] inv Cons.prems(3) unfolding same_contents_def
    by (metis fold_simps(2) option.map_disc_iff option.distinct(1))
  then obtain g where g: "bt_get (blobs ?t) p = Some g" by blast
  have "e \<in> set ds \<or> used_by now g"
    using Cons.prems(1,2,4) record_blob_use_used [OF Cons.prems(1,2) g] by auto
  with Cons.IH [of ?t] inv Cons.prems(2,3) g show ?case by auto
qed auto

text \<open>
  Recording a use of a result leaves every file of the store with its bytes, and afterwards every
  object the result names that is there looks used within the refresh interval, as does its record.
\<close>

lemma closure_use_is_recorded:
  assumes "bt_inv (blobs s)" "bt_inv (records s)" "record_path (result_action r) = Inr q"
    and s'_def: "s' = record_use_of_stored j r now s"
  shows "same_contents (blobs s) (blobs s') \<and> same_contents (records s) (records s') \<and>
    (\<forall>e \<in> set (named_objects j s r). \<forall>p f. cas_path e = Inr p \<longrightarrow> bt_get (blobs s') p = Some f \<longrightarrow> used_by now f) \<and>
    (\<forall>f. bt_get (records s') q = Some f \<longrightarrow> accessed f = now)"
proof -
  let ?t = "fold (\<lambda>d. record_blob_use d now) (named_objects j s r) s"
  have s': "blobs s' = blobs ?t" "records s' = set_accessed q now (records s)"
    using record_uses [OF assms(1), of now "named_objects j s r"]
    by (simp_all add: s'_def record_use_of_stored_def record_closure_use_def assms(3) Let_def)
  have "accessed f = now" if "bt_get (set_accessed q now (records s)) q = Some f" for f
    using that assms(2) by (auto simp: set_accessed_def split: option.splits)
  with record_uses [OF assms(1), of now "named_objects j s r"] record_uses_used [OF assms(1)]
    set_accessed_contents [OF assms(2), of q now]
  show ?thesis unfolding s' by blast
qed

end
