(* ===== verification/Store_Gc.thy ===== *)
theory Store_Gc
  imports Store_Properties Task_Manifest "HOL-Library.Product_Lexorder"
begin

text \<open>
  Collection of the local store (\<open>mbx-cache-store/src/lib.rs\<close>): which objects are rooted, the
  eviction loop, which result records are dangling, and the pass over compiler versions that have
  gone unused. The order in which a directory is listed is an argument; so are the answers of the
  file system to a removal.
\<close>

section \<open>Entries\<close>

record entry =
  entry_path :: string
  entry_size :: nat
  entry_used :: nat

definition file_entry :: "string \<Rightarrow> stored_file \<Rightarrow> entry" where
  "file_entry p f = \<lparr>entry_path = p, entry_size = length (contents f), entry_used = accessed f\<rparr>"

text \<open>\<open>listing\<close> is the order in which the operating system lists the files.\<close>

definition walk_files :: "string list \<Rightarrow> files \<Rightarrow> entry list" where
  "walk_files listing fs = List.map_filter (\<lambda>p. map_option (file_entry p) (bt_get fs p)) listing"

section \<open>Rooted objects\<close>

text \<open>
  The JSON forms this crate reads besides those of the local store. A descriptor that parses gives
  its kind and its compiler version, where it has them as strings.
\<close>

record store_forms =
  forms :: json_forms
  parse_rustc_metadata :: "byte list \<Rightarrow> captured_output option"
  descriptor_fields :: "byte list \<Rightarrow> (string option \<times> string option) option"

definition root_digest :: "digest \<Rightarrow> string set \<Rightarrow> string set" where
  "root_digest d rooted = (case cas_path d of Inl _ \<Rightarrow> rooted | Inr p \<Rightarrow> insert p rooted)"

function root_tree ::
  "json_forms \<Rightarrow> store \<Rightarrow> digest list \<Rightarrow> string set \<Rightarrow> digest set \<Rightarrow> string set \<times> digest set" where
  "root_tree j s pending rooted visited =
     (if pending = [] then (rooted, visited)
      else
        (let d = last pending; pending = butlast pending
         in if d \<in> visited then root_tree j s pending rooted visited
            else (case read_directory j s d of
                None \<Rightarrow> root_tree j s pending rooted (insert d visited)
              | Some dir \<Rightarrow>
                  root_tree j s (pending @ dir_children dir)
                    (fold root_digest (dir_files dir @ dir_children dir) rooted) (insert d visited))))"
  by pat_completeness auto

termination root_tree
proof (relation "measures [\<lambda>(_, s, _, _, seen). card (stored_digests s - seen), \<lambda>(_, _, ds, _, _). length ds]", goal_cases)
  case (3 j s pending rooted visited d rest)
  then show ?case using card_Diff_insert_le [of s d visited] by (auto simp: le_less)
qed (auto dest: fresh_directory_decreases)

declare root_tree.simps [simp del]

definition read_action_result :: "json_forms \<Rightarrow> store \<Rightarrow> digest \<Rightarrow> action_result option" where
  "read_action_result j s a =
     (case record_path a of
        Inl _ \<Rightarrow> None
      | Inr p \<Rightarrow> Option.bind (bt_get (records s) p) (\<lambda>f. parse_result j (contents f)))"

definition read_rustc_metadata :: "store_forms \<Rightarrow> store \<Rightarrow> digest \<Rightarrow> captured_output option" where
  "read_rustc_metadata k s d = Option.bind (read_blob s d) (parse_rustc_metadata k)"

definition root_metadata :: "store_forms \<Rightarrow> store \<Rightarrow> digest \<Rightarrow> string set \<Rightarrow> string set" where
  "root_metadata k s m rooted =
     (let rooted = root_digest m rooted
      in case read_rustc_metadata k s m of
           None \<Rightarrow> rooted
         | Some c \<Rightarrow> root_digest (captured_stderr c) (root_digest (captured_stdout c) rooted))"

definition root_action ::
  "store_forms \<Rightarrow> store \<Rightarrow> digest \<Rightarrow> string set \<times> digest set \<Rightarrow> string set \<times> digest set" where
  "root_action k s a st =
     (case read_action_result (forms k) s a of
        None \<Rightarrow> st
      | Some r \<Rightarrow>
          (let rooted = root_digest (result_action r) (fst st);
               rooted = (case result_metadata r of None \<Rightarrow> rooted | Some m \<Rightarrow> root_metadata k s m rooted)
           in case output_root r of
                None \<Rightarrow> (rooted, snd st)
              | Some d \<Rightarrow> root_tree (forms k) s [d] (root_digest d rooted) (snd st)))"

definition rooted_action_objects :: "store_forms \<Rightarrow> store \<Rightarrow> digest list \<Rightarrow> string set" where
  "rooted_action_objects k s actions = fst (fold (root_action k s) actions ({}, {}))"

section \<open>Eviction\<close>

datatype removal = Removed | Missing | Blocked

text \<open>\<open>blocked\<close> says which files the operating system refuses to remove.\<close>

definition remove :: "(string \<Rightarrow> bool) \<Rightarrow> string \<Rightarrow> files \<Rightarrow> removal \<times> files" where
  "remove blocked p fs =
     (case bt_get fs p of
        None \<Rightarrow> (Missing, fs)
      | Some _ \<Rightarrow> if blocked p then (Blocked, fs) else (Removed, bt_remove p fs))"

record evictions =
  evicted_objects :: nat
  evicted_bytes :: nat
  evicted_remaining :: nat

text \<open>\<open>rm\<close> removes a path and \<open>st\<close> is what it acts on.\<close>

fun evict_loop ::
  "(string \<Rightarrow> 's \<Rightarrow> removal \<times> 's) \<Rightarrow> string set \<Rightarrow> nat \<Rightarrow> bool \<Rightarrow> evictions \<Rightarrow> entry list \<Rightarrow> 's \<Rightarrow> evictions \<times> 's" where
  "evict_loop rm rooted max_bytes blocked_unrooted out [] st = (out, st)"
| "evict_loop rm rooted max_bytes blocked_unrooted out (e # es) st =
     (if evicted_remaining out \<le> max_bytes then (out, st)
      else if entry_path e \<in> rooted \<and> blocked_unrooted then (out, st)
      else
        (case rm (entry_path e) st of
           (Removed, st') \<Rightarrow>
             evict_loop rm rooted max_bytes blocked_unrooted
               \<lparr>evicted_objects = evicted_objects out + 1, evicted_bytes = evicted_bytes out + entry_size e,
                evicted_remaining = evicted_remaining out - entry_size e\<rparr> es st'
         | (Missing, st') \<Rightarrow>
             evict_loop rm rooted max_bytes blocked_unrooted
               (out\<lparr>evicted_remaining := evicted_remaining out - entry_size e\<rparr>) es st'
         | (Blocked, st') \<Rightarrow>
             evict_loop rm rooted max_bytes (blocked_unrooted \<or> entry_path e \<notin> rooted) out es st'))"

definition evict_objects ::
  "entry list \<Rightarrow> string set \<Rightarrow> nat \<Rightarrow> nat \<Rightarrow> (string \<Rightarrow> 's \<Rightarrow> removal \<times> 's) \<Rightarrow> 's \<Rightarrow> evictions \<times> 's" where
  "evict_objects objects rooted live_bytes max_bytes rm st =
     evict_loop rm rooted max_bytes False
       \<lparr>evicted_objects = 0, evicted_bytes = 0, evicted_remaining = live_bytes\<rparr> objects st"

text \<open>Unrooted objects first, each class oldest first; the sort is stable.\<close>

definition eviction_order :: "string set \<Rightarrow> entry list \<Rightarrow> entry list" where
  "eviction_order rooted objects = sort_key (\<lambda>e. (entry_path e \<in> rooted, entry_used e)) objects"

section \<open>Dangling results\<close>

definition missing :: "store \<Rightarrow> string set \<Rightarrow> digest \<Rightarrow> bool" where
  "missing s virtually_removed d =
     (case cas_path d of
        Inl _ \<Rightarrow> True
      | Inr p \<Rightarrow> p \<in> virtually_removed \<or> bt_get (blobs s) p = None)"

text \<open>
  The recursion through child directories carries the verdicts reached so far; \<open>n\<close> bounds its
  depth, and one more than the number of stored objects is always enough.
\<close>

function (sequential) tree_is_complete ::
    "nat \<Rightarrow> json_forms \<Rightarrow> store \<Rightarrow> string set \<Rightarrow> digest \<Rightarrow> (digest \<rightharpoonup> bool) \<Rightarrow> bool \<times> (digest \<rightharpoonup> bool)"
  and children_complete ::
    "nat \<Rightarrow> json_forms \<Rightarrow> store \<Rightarrow> string set \<Rightarrow> digest list \<Rightarrow> (digest \<rightharpoonup> bool) \<Rightarrow> bool \<times> (digest \<rightharpoonup> bool)"
where
  "tree_is_complete 0 j s v d trees = (True, trees)"
| "tree_is_complete (Suc n) j s v d trees =
     (case trees d of
        Some complete \<Rightarrow> (complete, trees)
      | None \<Rightarrow>
          (let trees = trees(d \<mapsto> True);
               (complete, trees) =
                 (case read_directory j s d of
                    None \<Rightarrow> (True, trees)
                  | Some dir \<Rightarrow>
                      if list_all (\<lambda>f. \<not> missing s v f) (dir_files dir)
                      then children_complete n j s v (dir_children dir) trees else (False, trees))
           in (complete, trees(d \<mapsto> complete))))"
| "children_complete n j s v [] trees = (True, trees)"
| "children_complete n j s v (c # cs) trees =
     (if missing s v c then (False, trees)
      else
        (case tree_is_complete n j s v c trees of
           (complete, trees) \<Rightarrow> if complete then children_complete n j s v cs trees else (False, trees)))"
  by pat_completeness auto

termination
  by (relation "measures
        [\<lambda>x. case x of Inl (n, _) \<Rightarrow> n | Inr (n, _) \<Rightarrow> n,
         \<lambda>x. case x of Inl _ \<Rightarrow> 0 | Inr (_, _, _, _, cs, _) \<Rightarrow> Suc (length cs)]") auto

definition action_result_bytes_are_dangling ::
  "json_forms \<Rightarrow> store \<Rightarrow> byte list \<Rightarrow> string set \<Rightarrow> bool \<Rightarrow> (digest \<rightharpoonup> bool) \<Rightarrow> bool \<times> (digest \<rightharpoonup> bool)" where
  "action_result_bytes_are_dangling j s bs virtually_removed walk_tree trees =
     (case parse_result j bs of
        None \<Rightarrow> (False, trees)
      | Some r \<Rightarrow>
          if list_ex (missing s virtually_removed) (named_directly r) then (True, trees)
          else
            (case output_root r of
               None \<Rightarrow> (False, trees)
             | Some d \<Rightarrow>
                 if walk_tree
                 then (case tree_is_complete (Suc (length (blobs s))) j s virtually_removed d trees of
                         (complete, trees) \<Rightarrow> (\<not> complete, trees))
                 else (False, trees)))"

definition action_result_is_dangling ::
  "json_forms \<Rightarrow> store \<Rightarrow> string \<Rightarrow> string set \<Rightarrow> bool \<Rightarrow> (digest \<rightharpoonup> bool) \<Rightarrow> bool \<times> (digest \<rightharpoonup> bool)" where
  "action_result_is_dangling j s p virtually_removed walk_tree trees =
     (case bt_get (records s) p of
        None \<Rightarrow> (False, trees)
      | Some f \<Rightarrow> action_result_bytes_are_dangling j s (contents f) virtually_removed walk_tree trees)"

section \<open>Outcomes and the pass over results\<close>

record gc_outcome =
  removed_objects :: nat
  removed_action_results :: nat
  removed_checkout_records :: nat
  removed_task_manifests :: nat
  removed_session_streams :: nat
  removed_bytes :: nat
  remaining_bytes :: nat

definition no_outcome :: gc_outcome where
  "no_outcome = \<lparr>removed_objects = 0, removed_action_results = 0, removed_checkout_records = 0,
     removed_task_manifests = 0, removed_session_streams = 0, removed_bytes = 0, remaining_bytes = 0\<rparr>"

text \<open>
  What the operating system and other processes do: which files cannot be unlinked, which records
  cannot be read because they are locked, which slots are claimed elsewhere, and what happens to
  the store between finding a record dangling and claiming it.
\<close>

record gc_answers =
  unlink_blocked :: "string \<Rightarrow> bool"
  unreadable :: "string \<Rightarrow> bool"
  slot_claimed :: "string \<Rightarrow> bool"
  before_claim :: "string \<Rightarrow> store \<Rightarrow> store"

record sweep =
  sweep_store :: store
  sweep_trees :: "digest \<rightharpoonup> bool"
  sweep_live :: nat
  sweep_outcome :: gc_outcome

definition count_removed :: "entry \<Rightarrow> sweep \<Rightarrow> sweep" where
  "count_removed e w =
     w\<lparr>sweep_live := sweep_live w - entry_size e,
       sweep_outcome := (sweep_outcome w)\<lparr>removed_action_results := removed_action_results (sweep_outcome w) + 1,
         removed_bytes := removed_bytes (sweep_outcome w) + entry_size e\<rparr>\<rparr>"

definition count_missing :: "entry \<Rightarrow> sweep \<Rightarrow> sweep" where
  "count_missing e w = w\<lparr>sweep_live := sweep_live w - entry_size e\<rparr>"

definition drop_record :: "string \<Rightarrow> store \<Rightarrow> store" where
  "drop_record p s = s\<lparr>records := bt_remove p (records s)\<rparr>"

text \<open>The claim of a dangling record, which is looked at again with no remembered verdicts.\<close>

definition claim_and_remove ::
  "gc_answers \<Rightarrow> json_forms \<Rightarrow> string set \<Rightarrow> bool \<Rightarrow> entry \<Rightarrow> sweep \<Rightarrow> sweep" where
  "claim_and_remove env j virtually_removed walk_trees e w =
     (let p = entry_path e; s = before_claim env p (sweep_store w); w = w\<lparr>sweep_store := s\<rparr>
      in case bt_get (records s) p of
           None \<Rightarrow> count_missing e w
         | Some f \<Rightarrow>
             if slot_claimed env p then w
             else if \<not> fst (action_result_bytes_are_dangling j s (contents f) virtually_removed walk_trees Map.empty) then w
             else if unlink_blocked env p then w
             else count_removed e (w\<lparr>sweep_store := drop_record p s\<rparr>))"

definition sweep_result ::
  "gc_answers \<Rightarrow> json_forms \<Rightarrow> string set \<Rightarrow> bool \<Rightarrow> bool \<Rightarrow> entry \<Rightarrow> sweep \<Rightarrow> sweep" where
  "sweep_result env j virtually_removed walk_trees dry_run e w =
     (if unreadable env (entry_path e) then w
      else
        (case action_result_is_dangling j (sweep_store w) (entry_path e) virtually_removed walk_trees (sweep_trees w) of
           (dangling, trees) \<Rightarrow>
             (let w = w\<lparr>sweep_trees := trees\<rparr>
              in if \<not> dangling then w
                 else if dry_run then count_removed e w
                 else claim_and_remove env j virtually_removed walk_trees e w)))"

definition sweep_results ::
  "gc_answers \<Rightarrow> json_forms \<Rightarrow> string set \<Rightarrow> bool \<Rightarrow> bool \<Rightarrow> entry list \<Rightarrow> sweep \<Rightarrow> sweep" where
  "sweep_results env j virtually_removed walk_trees dry_run results w =
     fold (sweep_result env j virtually_removed walk_trees dry_run) results w"

section \<open>Compilers gone unused\<close>

record compiler_selection =
  max_age :: "nat option"
  release :: "string option"

definition trim :: "string \<Rightarrow> string" where
  "trim s = rev (dropWhile is_ascii_space (rev (dropWhile is_ascii_space s)))"

definition without_prefix :: "string \<Rightarrow> string \<Rightarrow> string" where
  "without_prefix p s = (case strip_prefix p s of None \<Rightarrow> s | Some t \<Rightarrow> t)"

definition names_compiler :: "string \<Rightarrow> string \<Rightarrow> bool" where
  "names_compiler wanted version =
     (let wanted = without_prefix ''rustc '' (trim wanted)
      in wanted \<noteq> [] \<and>
         (let line = without_prefix ''rustc '' (trim (hd (split_on (CHR '';'') version)))
          in line = wanted \<or> (case split_whitespace line of [] \<Rightarrow> False | w # _ \<Rightarrow> w = wanted)))"

definition rustc_version_of :: "store_forms \<Rightarrow> store \<Rightarrow> digest \<Rightarrow> string option" where
  "rustc_version_of k s a =
     (case Option.bind (read_blob s a) (descriptor_fields k) of
        Some (Some name, version) \<Rightarrow> if name \<noteq> ''rustc'' then None else version
      | _ \<Rightarrow> None)"

type_synonym attributed = "entry \<times> digest"

definition push_version ::
  "string \<Rightarrow> attributed \<Rightarrow> (string, attributed list) btree_map \<Rightarrow> (string, attributed list) btree_map" where
  "push_version v x m = bt_insert v ((case bt_get m v of None \<Rightarrow> [] | Some xs \<Rightarrow> xs) @ [x]) m"

definition attribute_entry ::
  "store_forms \<Rightarrow> store \<Rightarrow> entry \<Rightarrow> (string, attributed list) btree_map \<times> digest list \<Rightarrow>
   (string, attributed list) btree_map \<times> digest list" where
  "attribute_entry k s e st =
     (case Option.bind (bt_get (records s) (entry_path e)) (\<lambda>f. parse_result (forms k) (contents f)) of
        None \<Rightarrow> st
      | Some r \<Rightarrow>
          (case rustc_version_of k s (result_action r) of
             Some v \<Rightarrow> (push_version v (e, result_action r) (fst st), snd st)
           | None \<Rightarrow> (fst st, snd st @ [result_action r])))"

definition last_used :: "attributed list \<Rightarrow> nat option" where
  "last_used xs = (case xs of [] \<Rightarrow> None | x # xs \<Rightarrow> Some (fold max (map (entry_used \<circ> fst) xs) (entry_used (fst x))))"

text \<open>\<open>Iterator::max_by_key\<close>: the last of the greatest elements. An absent time is below every time.\<close>

fun max_by_used :: "(string \<times> attributed list) list \<Rightarrow> (string \<times> attributed list) option" where
  "max_by_used [] = None"
| "max_by_used (x # xs) =
     (case max_by_used xs of
        None \<Rightarrow> Some x
      | Some y \<Rightarrow>
          if (case (last_used (snd x), last_used (snd y)) of
                (None, _) \<Rightarrow> True | (Some _, None) \<Rightarrow> False | (Some a, Some b) \<Rightarrow> a \<le> b)
          then Some y else Some x)"

definition selected ::
  "compiler_selection \<Rightarrow> nat \<Rightarrow> string option \<Rightarrow> string \<times> attributed list \<Rightarrow> bool" where
  "selected sel now newest vr =
     ((case (max_age sel, last_used (snd vr)) of
         (Some age, Some used) \<Rightarrow> used < now - age \<and> Some (fst vr) \<noteq> newest
       | _ \<Rightarrow> False) \<or>
      (case release sel of None \<Rightarrow> False | Some wanted \<Rightarrow> names_compiler wanted (fst vr)))"

record compiler_plan =
  plan_stale :: "attributed list"
  plan_kept :: "digest list"

text \<open>\<open>pending\<close> holds the actions of grouped receipts not exported yet.\<close>

definition plan_compilers ::
  "store_forms \<Rightarrow> compiler_selection \<Rightarrow> nat \<Rightarrow> digest set \<Rightarrow> string list \<Rightarrow> store \<Rightarrow> compiler_plan" where
  "plan_compilers k sel now pending listing s =
     (let (by_version, unattributed) = fold (attribute_entry k s) (walk_files listing (records s)) ([], []);
          newest = map_option fst (max_by_used by_version);
          stale = concat (map snd (filter (selected sel now newest) by_version));
          kept = unattributed @ map snd (concat (map snd (filter (\<lambda>vr. \<not> selected sel now newest vr) by_version)))
      in \<lparr>plan_stale = filter (\<lambda>r. snd r \<notin> pending) stale,
          plan_kept = kept @ map snd (filter (\<lambda>r. snd r \<in> pending) stale)\<rparr>)"

definition remove_stale_record ::
  "(string \<Rightarrow> bool) \<Rightarrow> bool \<Rightarrow> entry \<Rightarrow> (gc_outcome \<times> string set) \<times> store \<Rightarrow> (gc_outcome \<times> string set) \<times> store" where
  "remove_stale_record blocked dry_run e st =
     (let ((out, planned), s) = st;
          (answer, recs) = (if dry_run then (Removed, records s) else remove blocked (entry_path e) (records s))
      in if answer = Removed
         then ((out\<lparr>removed_action_results := removed_action_results out + 1, removed_bytes := removed_bytes out + entry_size e\<rparr>,
                insert (entry_path e) planned), s\<lparr>records := recs\<rparr>)
         else st)"

definition remove_doomed_object ::
  "(string \<Rightarrow> bool) \<Rightarrow> bool \<Rightarrow> string \<Rightarrow> (gc_outcome \<times> string set) \<times> store \<Rightarrow> (gc_outcome \<times> string set) \<times> store" where
  "remove_doomed_object blocked dry_run p st =
     (let ((out, planned), s) = st
      in case bt_get (blobs s) p of
           None \<Rightarrow> st
         | Some f \<Rightarrow>
             (let (answer, bs) = (if dry_run then (Removed, blobs s) else remove blocked p (blobs s))
              in if answer = Removed
                 then ((out\<lparr>removed_objects := removed_objects out + 1, removed_bytes := removed_bytes out + length (contents f)\<rparr>,
                        insert p planned), s\<lparr>blobs := bs\<rparr>)
                 else st))"

definition stale_compilers_pass ::
  "store_forms \<Rightarrow> (string \<Rightarrow> bool) \<Rightarrow> compiler_selection \<Rightarrow> nat \<Rightarrow> digest set \<Rightarrow> string list \<Rightarrow> bool \<Rightarrow> store \<Rightarrow>
   (gc_outcome \<times> string set) \<times> store" where
  "stale_compilers_pass k blocked sel now pending listing dry_run s =
     (let plan = plan_compilers k sel now pending listing s
      in if plan_stale plan = [] then ((no_outcome, {}), s)
         else
           (let doomed = rooted_action_objects k s (map snd (plan_stale plan));
                kept = rooted_action_objects k s (plan_kept plan);
                st = fold (remove_stale_record blocked dry_run) (map fst (plan_stale plan)) ((no_outcome, {}), s)
            in fold (remove_doomed_object blocked dry_run)
                 (filter (\<lambda>p. p \<in> doomed \<and> p \<notin> kept) (map fst (blobs s))) st))"

end
