(* ===== verification/Gc_Sweep.thy ===== *)
theory Gc_Sweep
  imports Store_Gc
begin

text \<open>
  The rest of a collection (\<open>mbx-cache-store/src/lib.rs\<close>, \<open>events.rs\<close>): the claims of checkouts,
  the pruning of task manifests, session streams and import staging, and \<open>gc_with_mode\<close>, which
  runs them around eviction. Files whose contents are JSON are held as what they parse to. The
  clock and the state of locks are arguments. Opening a lock file that does not exist creates an
  empty one, which is left out where the file is only probed.
\<close>

section \<open>Checkouts\<close>

definition CHECKOUT_RECORD_VERSION :: nat where "CHECKOUT_RECORD_VERSION = 1"
definition CHECKOUT_RETENTION :: nat where "CHECKOUT_RETENTION = 30 * 24 * 60 * 60"

text \<open>A path as its components; answers of a probe.\<close>

type_synonym fs_path = "string list"

datatype 'a probe = Found 'a | Not_found | Probe_error

record checkout_record =
  checkout_version :: nat
  workspace_root :: fs_path
  updated_secs :: nat

fun ancestors :: "fs_path \<Rightarrow> fs_path list" where
  "ancestors p = p # (if p = [] then [] else ancestors (butlast p))"

declare ancestors.simps [simp del]

fun nearest_is_foreign :: "(fs_path \<Rightarrow> nat probe) \<Rightarrow> nat \<Rightarrow> fs_path list \<Rightarrow> bool" where
  "nearest_is_foreign device store_device [] \<longleftrightarrow> True"
| "nearest_is_foreign device store_device (a # as) \<longleftrightarrow>
     (case device a of
        Found d \<Rightarrow> store_device \<noteq> d
      | Not_found \<Rightarrow> nearest_is_foreign device store_device as
      | Probe_error \<Rightarrow> True)"

text \<open>\<open>exists\<close> answers whether a path is there, \<open>device\<close> on which file system it is.\<close>

definition checkout_is_live_on :: "(fs_path \<Rightarrow> bool probe) \<Rightarrow> (fs_path \<Rightarrow> nat probe) \<Rightarrow> fs_path \<Rightarrow> fs_path \<Rightarrow> bool" where
  "checkout_is_live_on exists device store root \<longleftrightarrow>
     exists root \<noteq> Found False \<or>
     (case device store of
        Found d \<Rightarrow> nearest_is_foreign device d (tl (ancestors root))
      | _ \<Rightarrow> True)"

definition checkout_is_live :: "(fs_path \<Rightarrow> bool probe) \<Rightarrow> (fs_path \<Rightarrow> nat probe) \<Rightarrow> fs_path \<Rightarrow> bool" where
  "checkout_is_live exists device root \<longleftrightarrow>
     root = [] \<or> checkout_is_live_on exists device (butlast root) root"

text \<open>\<open>now_secs\<close> is nothing when the clock is before the epoch.\<close>

definition claim_has_expired :: "nat option \<Rightarrow> checkout_record \<Rightarrow> bool" where
  "claim_has_expired now_secs c =
     (case now_secs of None \<Rightarrow> False | Some now \<Rightarrow> CHECKOUT_RETENTION < now - updated_secs c)"

text \<open>What the registry is read against.\<close>

record host =
  host_exists :: "fs_path \<Rightarrow> bool probe"
  host_device :: "fs_path \<Rightarrow> nat probe"
  host_store :: fs_path
  host_secs :: "nat option"

definition claim_is_live :: "host \<Rightarrow> checkout_record \<Rightarrow> bool" where
  "claim_is_live h c \<longleftrightarrow>
     checkout_is_live_on (host_exists h) (host_device h) (host_store h) (workspace_root c) \<and>
     \<not> claim_has_expired (host_secs h) c"

text \<open>A file of the registry: its path, and the record it parses to.\<close>

type_synonym checkout_file = "string \<times> checkout_record option"

definition read_checkout_record :: "checkout_file \<Rightarrow> checkout_record option" where
  "read_checkout_record f =
     (case snd f of
        None \<Rightarrow> None
      | Some c \<Rightarrow> if checkout_version c = CHECKOUT_RECORD_VERSION then Some c else None)"

record checkout_scan =
  live_identities :: "string set"
  live_records :: nat
  stale_records :: "string list"

definition scan_record :: "host \<Rightarrow> string \<Rightarrow> checkout_file \<Rightarrow> checkout_scan \<Rightarrow> checkout_scan" where
  "scan_record h name f scan =
     (case read_checkout_record f of
        None \<Rightarrow> scan
      | Some c \<Rightarrow>
          if claim_is_live h c
          then scan\<lparr>live_identities := insert name (live_identities scan), live_records := live_records scan + 1\<rparr>
          else scan\<lparr>stale_records := stale_records scan @ [fst f]\<rparr>)"

definition scan_checkouts :: "host \<Rightarrow> (string \<times> checkout_file list) list \<Rightarrow> checkout_scan" where
  "scan_checkouts h dirs =
     fold (\<lambda>(name, fs) scan. if \<not> valid_task_identity name then scan else fold (scan_record h name) fs scan) dirs
       \<lparr>live_identities = {}, live_records = 0, stale_records = []\<rparr>"

text \<open>A record goes, and with it the directory of an identity that has none left.\<close>

definition forget_checkout :: "string \<Rightarrow> (string \<times> checkout_file list) list \<Rightarrow> (string \<times> checkout_file list) list" where
  "forget_checkout p dirs =
     concat (map (\<lambda>(name, fs).
         let left = filter (\<lambda>f. fst f \<noteq> p) fs
         in if left = [] \<and> fs \<noteq> [] then [] else [(name, left)]) dirs)"

section \<open>Task manifests\<close>

definition TASK_MANIFEST_GRACE :: nat where "TASK_MANIFEST_GRACE = 24 * 60 * 60 * 1000000000"

record manifest_file =
  manifest_size :: nat
  manifest_modified :: nat
  manifest_contents :: "manifest option"

definition older_than :: "nat \<Rightarrow> nat \<Rightarrow> nat \<Rightarrow> bool" where
  "older_than now limit modified \<longleftrightarrow> modified \<le> now \<and> limit < now - modified"

definition task_manifest_is_idle :: "nat \<Rightarrow> nat \<Rightarrow> bool" where
  "task_manifest_is_idle now modified = older_than now TASK_MANIFEST_GRACE modified"

text \<open>The actions a manifest predicts; one that is missing, foreign or invalid predicts none.\<close>

definition task_manifest_actions ::
  "(string \<Rightarrow> bool) \<Rightarrow> (string, manifest_file) btree_map \<Rightarrow> string \<Rightarrow> digest list" where
  "task_manifest_actions is_json ms identity =
     (if \<not> valid_task_identity identity then []
      else
        (case Option.bind (bt_get ms (identity @ ''.json'')) manifest_contents of
           None \<Rightarrow> []
         | Some m \<Rightarrow>
             (case validate_task_manifest is_json m identity of
                Inl _ \<Rightarrow> []
              | Inr _ \<Rightarrow> map action (predictions m))))"

record manifest_prune =
  prune_files :: "(string, manifest_file) btree_map"
  prune_locks :: "(string, nat) btree_map"
  prune_count :: nat
  prune_bytes :: nat

text \<open>
  \<open>held\<close> says whose lock another process holds, \<open>merge\<close> what others write before the lock is
  taken, \<open>stuck\<close> which files cannot be unlinked. A lock file maps its name to its time.
\<close>

record manifest_answers =
  lock_held :: "string \<Rightarrow> bool"
  merged_before :: "string \<Rightarrow> (string, manifest_file) btree_map \<Rightarrow> (string, manifest_file) btree_map"
  manifest_stuck :: "string \<Rightarrow> bool"

definition claim_lock :: "manifest_answers \<Rightarrow> nat \<Rightarrow> string \<Rightarrow> (string, nat) btree_map \<Rightarrow> bool \<times> (string, nat) btree_map" where
  "claim_lock env now identity locks =
     (let name = identity @ ''.lock'';
          locks = (case bt_get locks name of None \<Rightarrow> bt_insert name now locks | Some _ \<Rightarrow> locks)
      in (\<not> lock_held env identity, locks))"

definition prune_manifest ::
  "manifest_answers \<Rightarrow> nat \<Rightarrow> string set \<Rightarrow> bool \<Rightarrow> string \<Rightarrow> manifest_prune \<Rightarrow> manifest_prune" where
  "prune_manifest env now live dry_run name w =
     (case (strip_suffix ''.json'' name, bt_get (prune_files w) name) of
        (Some identity, Some f) \<Rightarrow>
          if \<not> valid_task_identity identity \<or> identity \<in> live \<or> \<not> task_manifest_is_idle now (manifest_modified f) then w
          else if dry_run
          then (if bt_get (prune_locks w) (identity @ ''.lock'') \<noteq> None \<and> lock_held env identity then w
                else w\<lparr>prune_count := prune_count w + 1, prune_bytes := prune_bytes w + manifest_size f\<rparr>)
          else
            (let files = merged_before env identity (prune_files w);
                 (mine, locks) = claim_lock env now identity (prune_locks w);
                 w = w\<lparr>prune_files := files, prune_locks := locks\<rparr>
             in if \<not> mine then w
                else
                  (case bt_get files name of
                     None \<Rightarrow> w
                   | Some f \<Rightarrow>
                       if \<not> task_manifest_is_idle now (manifest_modified f) \<or> manifest_stuck env name then w
                       else
                         w\<lparr>prune_files := bt_remove name files, prune_locks := bt_remove (identity @ ''.lock'') locks,
                           prune_count := prune_count w + 1, prune_bytes := prune_bytes w + manifest_size f\<rparr>))
      | _ \<Rightarrow> w)"

definition prune_lock ::
  "manifest_answers \<Rightarrow> nat \<Rightarrow> string set \<Rightarrow> string \<Rightarrow> manifest_prune \<Rightarrow> manifest_prune" where
  "prune_lock env now live name w =
     (case (strip_suffix ''.lock'' name, bt_get (prune_locks w) name) of
        (Some identity, Some modified) \<Rightarrow>
          if \<not> valid_task_identity identity \<or> identity \<in> live \<or> bt_get (prune_files w) (identity @ ''.json'') \<noteq> None then w
          else if task_manifest_is_idle now modified \<and> \<not> lock_held env identity
          then w\<lparr>prune_locks := bt_remove name (prune_locks w)\<rparr>
          else w
      | _ \<Rightarrow> w)"

text \<open>The directories are listed in the order of their names.\<close>

definition prune_task_manifests ::
  "manifest_answers \<Rightarrow> nat \<Rightarrow> string set \<Rightarrow> bool \<Rightarrow> (string, manifest_file) btree_map \<Rightarrow> (string, nat) btree_map \<Rightarrow>
   manifest_prune" where
  "prune_task_manifests env now live dry_run ms locks =
     (let w = fold (prune_manifest env now live dry_run) (map fst ms)
                \<lparr>prune_files = ms, prune_locks = locks, prune_count = 0, prune_bytes = 0\<rparr>
      in if dry_run then w else fold (prune_lock env now live) (map fst (prune_locks w)) w)"

section \<open>Session streams\<close>

definition SESSION_RETENTION :: nat where "SESSION_RETENTION = 7 * 24 * 60 * 60 * 1000000000"
definition MAX_SESSIONS :: nat where "MAX_SESSIONS = 256"

record session_retention =
  session_max_age :: "nat option"
  max_sessions :: "nat option"

definition default_retention :: session_retention where
  "default_retention = \<lparr>session_max_age = Some SESSION_RETENTION, max_sessions = Some MAX_SESSIONS\<rparr>"

record session_stream =
  stream_size :: nat
  stream_modified :: nat

text \<open>Streams and locks by session identifier; a lock says whether a process holds it.\<close>

record session_dir =
  session_streams :: "(string, session_stream) btree_map"
  session_locks :: "(string, bool) btree_map"

definition session_is_live :: "session_dir \<Rightarrow> string \<Rightarrow> bool" where
  "session_is_live d i = (bt_get (session_locks d) i = Some True)"

record session_prune =
  pruned_dir :: session_dir
  pruned_streams :: nat
  pruned_bytes :: nat

definition prune_session ::
  "(string \<Rightarrow> bool) \<Rightarrow> nat \<Rightarrow> bool \<Rightarrow> session_retention \<Rightarrow> nat \<Rightarrow> nat \<times> string \<Rightarrow> session_prune \<Rightarrow> session_prune" where
  "prune_session stuck now dry_run retention surplus ni w =
     (let (index, i) = ni
      in case bt_get (session_streams (pruned_dir w)) i of
           None \<Rightarrow> w
         | Some f \<Rightarrow>
             (let stale = (case session_max_age retention of
                             None \<Rightarrow> False
                           | Some limit \<Rightarrow> older_than now limit (stream_modified f))
              in if surplus \<le> index \<and> \<not> stale then w
                 else if session_is_live (pruned_dir w) i then w
                 else if dry_run
                 then w\<lparr>pruned_streams := pruned_streams w + 1, pruned_bytes := pruned_bytes w + stream_size f\<rparr>
                 else if stuck i then w
                 else
                   w\<lparr>pruned_dir := \<lparr>session_streams = bt_remove i (session_streams (pruned_dir w)),
                       session_locks = bt_remove i (session_locks (pruned_dir w))\<rparr>,
                     pruned_streams := pruned_streams w + 1, pruned_bytes := pruned_bytes w + stream_size f\<rparr>))"

definition orphaned_locks :: "session_dir \<Rightarrow> string list" where
  "orphaned_locks d =
     filter (\<lambda>i. bt_get (session_streams d) i = None \<and> \<not> session_is_live d i) (map fst (session_locks d))"

definition prune_sessions ::
  "(string \<Rightarrow> bool) \<Rightarrow> nat \<Rightarrow> bool \<Rightarrow> session_retention \<Rightarrow> session_dir \<Rightarrow> session_prune" where
  "prune_sessions stuck now dry_run retention d =
     (let ids = map fst (session_streams d);
          surplus = (case max_sessions retention of None \<Rightarrow> 0 | Some limit \<Rightarrow> length ids - limit);
          w = fold (prune_session stuck now dry_run retention surplus) (List.enumerate 0 ids)
                \<lparr>pruned_dir = d, pruned_streams = 0, pruned_bytes = 0\<rparr>
      in if dry_run then w
         else
           w\<lparr>pruned_dir := (pruned_dir w)\<lparr>session_locks :=
               fold bt_remove (orphaned_locks (pruned_dir w)) (session_locks (pruned_dir w))\<rparr>\<rparr>)"

section \<open>Import staging\<close>

definition IMPORT_STAGING_RETENTION :: nat where "IMPORT_STAGING_RETENTION = 24 * 60 * 60 * 1000000000"

record staging_entry =
  staging_is_dir :: bool
  staging_modified :: nat

definition prune_staging_entry ::
  "(string \<Rightarrow> bool) \<Rightarrow> nat \<Rightarrow> string \<Rightarrow> (string, staging_entry) btree_map \<Rightarrow> (string, staging_entry) btree_map" where
  "prune_staging_entry held now name d =
     (case bt_get d name of
        None \<Rightarrow> d
      | Some e \<Rightarrow>
          if now < staging_modified e \<or> now - staging_modified e < IMPORT_STAGING_RETENTION then d
          else if \<not> staging_is_dir e
          then (case strip_suffix ''.lock'' name of
                  Some base \<Rightarrow> if base \<noteq> [] \<and> bt_get d base = None then bt_remove name d else d
                | None \<Rightarrow> d)
          else if held name then d
          else bt_remove (name @ ''.lock'') (bt_remove name d))"

definition prune_import_staging ::
  "(string \<Rightarrow> bool) \<Rightarrow> nat \<Rightarrow> bool \<Rightarrow> (string, staging_entry) btree_map \<Rightarrow> (string, staging_entry) btree_map" where
  "prune_import_staging held now dry_run d =
     (if dry_run then d else fold (prune_staging_entry held now) (map fst d) d)"

section \<open>A collection\<close>

definition BUILD_RECEIPT_VERSION :: nat where "BUILD_RECEIPT_VERSION = 1"

record build_receipt =
  receipt_version :: nat
  receipt_identity :: string
  receipt_predictions :: "prediction list"

definition read_build_receipt :: "(string \<Rightarrow> bool) \<Rightarrow> build_receipt option \<Rightarrow> build_receipt option" where
  "read_build_receipt is_json f =
     (case f of
        None \<Rightarrow> None
      | Some r \<Rightarrow>
          if receipt_version r = BUILD_RECEIPT_VERSION \<and>
             validate_manifest is_json \<lparr>manifest_version = 1, task = receipt_identity r, predictions = receipt_predictions r\<rparr>
          then Some r else None)"

definition grouped_receipt_actions :: "(string \<Rightarrow> bool) \<Rightarrow> build_receipt option list \<Rightarrow> digest list" where
  "grouped_receipt_actions is_json fs =
     concat (map (\<lambda>r. map action (receipt_predictions r)) (List.map_filter (read_build_receipt is_json) fs))"

record gc_world =
  cache :: store
  checkouts :: "(string \<times> checkout_file list) list"
  receipts :: "build_receipt option list"
  task_manifests :: "(string, manifest_file) btree_map"
  manifest_locks :: "(string, nat) btree_map"
  sessions :: session_dir
  staging :: "(string, staging_entry) btree_map"

text \<open>Everything a collection learns from outside.\<close>

record gc_env =
  env_files :: gc_answers
  env_manifests :: manifest_answers
  env_host :: host
  env_now :: nat
  env_listing :: "string list \<times> string list"
  env_checkout_stuck :: "string \<Rightarrow> bool"
  env_session_stuck :: "string \<Rightarrow> bool"
  env_staging_held :: "string \<Rightarrow> bool"
  env_is_json :: "string \<Rightarrow> bool"

text \<open>
  The identities are those of live checkouts; one without a manifest predicts nothing, so the
  manifests are gone through. The result is a set, whatever the order of the actions.
\<close>

definition rooted_objects ::
  "store_forms \<Rightarrow> (string \<Rightarrow> bool) \<Rightarrow> (string, manifest_file) btree_map \<Rightarrow> string set \<Rightarrow> store \<Rightarrow> string set" where
  "rooted_objects k is_json ms identities s =
     rooted_action_objects k s
       (concat (map (\<lambda>name. case strip_suffix ''.json'' name of
            Some identity \<Rightarrow> if identity \<in> identities then task_manifest_actions is_json ms identity else []
          | None \<Rightarrow> []) (map fst ms)))"

definition prune_checkouts :: "gc_env \<Rightarrow> bool \<Rightarrow> string list \<Rightarrow> gc_world \<Rightarrow> nat \<times> gc_world" where
  "prune_checkouts env dry_run stale w =
     (if dry_run then (length stale, w)
      else
        (let gone = filter (\<lambda>p. \<not> env_checkout_stuck env p) stale
         in (length gone, w\<lparr>checkouts := fold forget_checkout gone (checkouts w)\<rparr>)))"

definition listed_objects :: "gc_env \<Rightarrow> string set \<Rightarrow> store \<Rightarrow> entry list" where
  "listed_objects env already_removed s =
     filter (\<lambda>e. entry_path e \<notin> already_removed) (walk_files (fst (env_listing env)) (blobs s))"

definition listed_results :: "gc_env \<Rightarrow> string set \<Rightarrow> store \<Rightarrow> entry list" where
  "listed_results env already_removed s =
     filter (\<lambda>e. entry_path e \<notin> already_removed) (walk_files (snd (env_listing env)) (records s))"

definition total_size :: "entry list \<Rightarrow> nat" where
  "total_size es = sum_list (map entry_size es)"

text \<open>What a collection roots: the manifests live checkouts claim and the pending receipts.\<close>

definition gc_roots :: "store_forms \<Rightarrow> gc_env \<Rightarrow> string set \<Rightarrow> gc_world \<Rightarrow> string set" where
  "gc_roots k env live w =
     rooted_objects k (env_is_json env) (task_manifests w) live (cache w) \<union>
     rooted_action_objects k (cache w) (grouped_receipt_actions (env_is_json env) (receipts w))"

text \<open>The eviction of a collection; a dry run only notes the paths.\<close>

definition gc_evict ::
  "gc_env \<Rightarrow> bool \<Rightarrow> string set \<Rightarrow> entry list \<Rightarrow> nat \<Rightarrow> nat \<Rightarrow> string set \<Rightarrow> store \<Rightarrow> evictions \<times> string set \<times> store" where
  "gc_evict env dry_run rooted objects live_bytes max_bytes virtually_removed s =
     (let order = eviction_order rooted objects
      in if dry_run
         then (case evict_objects order rooted live_bytes max_bytes (\<lambda>p v. (Removed, insert p v)) virtually_removed of
                 (out, v) \<Rightarrow> (out, v, s))
         else (case evict_objects order rooted live_bytes max_bytes (remove (unlink_blocked (env_files env))) (blobs s) of
                 (out, bs) \<Rightarrow> (out, virtually_removed, s\<lparr>blobs := bs\<rparr>)))"

definition gc_with_mode ::
  "store_forms \<Rightarrow> gc_env \<Rightarrow> nat \<Rightarrow> bool \<Rightarrow> string set \<Rightarrow> session_retention \<Rightarrow> gc_world \<Rightarrow> gc_outcome \<times> gc_world" where
  "gc_with_mode k env max_bytes dry_run already_removed retention w =
     (let objects = listed_objects env already_removed (cache w);
          results = listed_results env already_removed (cache w);
          live_bytes = total_size (objects @ results);
          scan = scan_checkouts (env_host env) (checkouts w);
          (removed_claims, w) = prune_checkouts env dry_run (stale_records scan) w;
          pruned = prune_task_manifests (env_manifests env) (env_now env) (live_identities scan) dry_run
                     (task_manifests w) (manifest_locks w);
          w = w\<lparr>task_manifests := prune_files pruned, manifest_locks := prune_locks pruned\<rparr>;
          (evicted, virtually_removed, s) =
            (if max_bytes < live_bytes
             then gc_evict env dry_run (gc_roots k env (live_identities scan) w) objects live_bytes max_bytes
                    already_removed (cache w)
             else (\<lparr>evicted_objects = 0, evicted_bytes = 0, evicted_remaining = live_bytes\<rparr>, already_removed, cache w));
          swept = sweep_results (env_files env) (forms k) virtually_removed (0 < evicted_objects evicted) dry_run results
                    \<lparr>sweep_store = s, sweep_trees = Map.empty, sweep_live = evicted_remaining evicted,
                     sweep_outcome = no_outcome\<lparr>removed_objects := evicted_objects evicted,
                       removed_checkout_records := removed_claims, removed_task_manifests := prune_count pruned,
                       removed_bytes := prune_bytes pruned + evicted_bytes evicted\<rparr>\<rparr>;
          session = prune_sessions (env_session_stuck env) (env_now env) dry_run retention (sessions w);
          out = sweep_outcome swept
      in (out\<lparr>removed_session_streams := pruned_streams session, removed_bytes := removed_bytes out + pruned_bytes session,
              remaining_bytes := sweep_live swept\<rparr>,
          w\<lparr>cache := sweep_store swept, sessions := pruned_dir session,
            staging := prune_import_staging (env_staging_held env) (env_now env) dry_run (staging w)\<rparr>))"

definition gc :: "store_forms \<Rightarrow> gc_env \<Rightarrow> nat \<Rightarrow> gc_world \<Rightarrow> gc_outcome \<times> gc_world" where
  "gc k env max_bytes w = gc_with_mode k env max_bytes False {} default_retention w"

definition gc_dry_run :: "store_forms \<Rightarrow> gc_env \<Rightarrow> nat \<Rightarrow> gc_world \<Rightarrow> gc_outcome" where
  "gc_dry_run k env max_bytes w = fst (gc_with_mode k env max_bytes True {} default_retention w)"

definition gc_dry_run_after_compilers_with_sessions ::
  "store_forms \<Rightarrow> gc_env \<Rightarrow> nat \<Rightarrow> compiler_selection \<Rightarrow> session_retention \<Rightarrow> gc_world \<Rightarrow> gc_outcome" where
  "gc_dry_run_after_compilers_with_sessions k env max_bytes sel retention w =
     (let ((stale, planned), _) =
            stale_compilers_pass k (unlink_blocked (env_files env)) sel (env_now env)
              (set (grouped_receipt_actions (env_is_json env) (receipts w))) (snd (env_listing env)) True (cache w);
          budget = fst (gc_with_mode k env max_bytes True planned retention w)
      in \<lparr>removed_objects = removed_objects stale + removed_objects budget,
          removed_action_results = removed_action_results stale + removed_action_results budget,
          removed_checkout_records = removed_checkout_records stale + removed_checkout_records budget,
          removed_task_manifests = removed_task_manifests stale + removed_task_manifests budget,
          removed_session_streams = removed_session_streams stale + removed_session_streams budget,
          removed_bytes = removed_bytes stale + removed_bytes budget,
          remaining_bytes = remaining_bytes budget\<rparr>)"

end
