(* ===== verification/Gc_Eviction.thy ===== *)
theory Gc_Eviction
  imports Gc_Sweep "HOL-Library.Multiset"
begin

text \<open>
  What eviction removes. The loop works through a first part of its ordered list; from that follow
  the order in which objects go, the bytes that are accounted and when it stops. Pruning manifests
  first changes none of it.
\<close>

section \<open>Walks\<close>

lemma walk_files_Nil [simp]: "walk_files [] fs = []"
  by (simp add: walk_files_def map_filter_simps)

lemma walk_files_Cons [simp]:
  "walk_files (p # ps) fs =
     (case bt_get fs p of None \<Rightarrow> walk_files ps fs | Some f \<Rightarrow> file_entry p f # walk_files ps fs)"
  by (simp add: walk_files_def map_filter_simps split: option.split)

lemma file_entry_sel [simp]:
  "entry_path (file_entry p f) = p" "entry_size (file_entry p f) = length (contents f)"
  "entry_used (file_entry p f) = accessed f"
  by (simp_all add: file_entry_def)

lemma set_walk_files: "e \<in> set (walk_files ps fs) \<longleftrightarrow> (\<exists>p \<in> set ps. \<exists>f. bt_get fs p = Some f \<and> e = file_entry p f)"
  by (induction ps) (auto split: option.splits)

lemma walk_files_paths: "map entry_path (walk_files ps fs) = filter (\<lambda>p. bt_get fs p \<noteq> None) ps"
  by (induction ps) (auto split: option.splits)

lemma walk_files_distinct: "distinct ps \<Longrightarrow> distinct (map entry_path (walk_files ps fs))"
  by (simp add: walk_files_paths)

lemma total_size_simps [simp]:
  "total_size [] = 0" "total_size (e # es) = entry_size e + total_size es"
  "total_size (es @ es') = total_size es + total_size es'"
  by (simp_all add: total_size_def)

lemma total_size_mset: "mset es = mset es' \<Longrightarrow> total_size es = total_size es'"
  unfolding total_size_def by (metis mset_map sum_mset_sum_list)

lemma total_size_filter: "total_size (filter P es) + total_size (filter (\<lambda>e. \<not> P e) es) = total_size es"
  by (induction es) auto

section \<open>The part of the list that eviction works through\<close>

text \<open>An entry whose removal did not fail: its bytes are taken off.\<close>

definition freed :: "(string \<Rightarrow> bool) \<Rightarrow> files \<Rightarrow> entry \<Rightarrow> bool" where
  "freed blocked fs e \<longleftrightarrow> bt_get fs (entry_path e) = None \<or> \<not> blocked (entry_path e)"

lemma remove_freed:
  "remove blocked (entry_path e) fs = (a, fs') \<Longrightarrow> a = Blocked \<longleftrightarrow> \<not> freed blocked fs e"
  by (auto simp: remove_def freed_def split: option.splits if_splits)

lemma remove_removed:
  "remove blocked p fs = (a, fs') \<Longrightarrow> a = Removed \<longleftrightarrow> bt_get fs p \<noteq> None \<and> \<not> blocked p"
  by (auto simp: remove_def split: option.splits if_splits)

lemma remove_files:
  "bt_inv fs \<Longrightarrow> remove blocked p fs = (a, fs') \<Longrightarrow>
     bt_inv fs' \<and> bt_get fs' = (if blocked p then bt_get fs else (bt_get fs)(p := None))"
  by (auto simp: remove_def fun_eq_iff split: option.splits if_splits)

definition works_through ::
  "(string \<Rightarrow> bool) \<Rightarrow> string set \<Rightarrow> nat \<Rightarrow> bool \<Rightarrow> nat \<Rightarrow> files \<Rightarrow> entry list \<Rightarrow> entry list \<Rightarrow> bool" where
  "works_through blocked rooted max_bytes bu live fs ys zs \<longleftrightarrow>
     (\<forall>us e vs. ys = us @ e # vs \<longrightarrow>
        max_bytes < live - total_size (filter (freed blocked fs) us) \<and>
        (entry_path e \<in> rooted \<longrightarrow> \<not> bu \<and> (\<forall>u \<in> set us. entry_path u \<notin> rooted \<longrightarrow> freed blocked fs u))) \<and>
     (zs \<noteq> [] \<longrightarrow>
        live - total_size (filter (freed blocked fs) ys) \<le> max_bytes \<or>
        entry_path (hd zs) \<in> rooted \<and> (bu \<or> (\<exists>u \<in> set ys. entry_path u \<notin> rooted \<and> \<not> freed blocked fs u)))"

lemma works_through_Cons:
  assumes "works_through blocked rooted max_bytes bu' live' fs ys zs"
    and "max_bytes < live" "entry_path e \<in> rooted \<longrightarrow> \<not> bu"
    and "live' = live - (if freed blocked fs e then entry_size e else 0)"
    and "bu' \<longleftrightarrow> bu \<or> (entry_path e \<notin> rooted \<and> \<not> freed blocked fs e)"
  shows "works_through blocked rooted max_bytes bu live fs (e # ys) zs"
  unfolding works_through_def
proof (intro conjI allI impI)
  note w = assms(1) [unfolded works_through_def]
  fix us x vs assume split: "e # ys = us @ x # vs"
  show "max_bytes < live - total_size (filter (freed blocked fs) us)"
    using w split assms(2,4) by (cases us) auto
  show "\<not> bu" if "entry_path x \<in> rooted"
    using that w split assms(3,5) by (cases us) auto
  show "\<forall>u \<in> set us. entry_path u \<notin> rooted \<longrightarrow> freed blocked fs u" if "entry_path x \<in> rooted"
    using that w split assms(3,5) by (cases us) auto
next
  assume "zs \<noteq> []"
  with assms(1,4,5) show "live - total_size (filter (freed blocked fs) (e # ys)) \<le> max_bytes \<or>
      entry_path (hd zs) \<in> rooted \<and> (bu \<or> (\<exists>u \<in> set (e # ys). entry_path u \<notin> rooted \<and> \<not> freed blocked fs u))"
    unfolding works_through_def by auto
qed

lemma works_through_at:
  assumes "works_through blocked rooted max_bytes bu live fs (us @ e # vs) zs"
  shows "max_bytes < live - total_size (filter (freed blocked fs) us)"
    and "entry_path e \<in> rooted \<Longrightarrow> u \<in> set us \<Longrightarrow> entry_path u \<notin> rooted \<Longrightarrow> freed blocked fs u"
  using assms unfolding works_through_def by blast+

lemma works_through_cong:
  assumes "\<forall>e \<in> set ys. freed blocked fs e \<longleftrightarrow> freed blocked fs' e"
  shows "works_through blocked rooted max_bytes bu live fs ys zs \<longleftrightarrow>
    works_through blocked rooted max_bytes bu live fs' ys zs"
proof -
  have "filter (freed blocked fs) us = filter (freed blocked fs') us" if "set us \<subseteq> set ys" for us
    using that assms by (intro filter_cong) auto
  then show ?thesis unfolding works_through_def using assms by (auto simp: subset_iff) 
qed

lemma evict_loop_part:
  assumes "evict_loop (remove blocked) rooted max_bytes bu out es fs = (out', fs')"
    and "bt_inv fs" "distinct (map entry_path es)"
  shows "\<exists>ys zs. es = ys @ zs \<and> bt_inv fs' \<and>
    (\<forall>p. bt_get fs' p = (if p \<in> entry_path ` set ys \<and> \<not> blocked p then None else bt_get fs p)) \<and>
    evicted_remaining out' = evicted_remaining out - total_size (filter (freed blocked fs) ys) \<and>
    evicted_objects out' = evicted_objects out +
      length (filter (\<lambda>e. bt_get fs (entry_path e) \<noteq> None \<and> \<not> blocked (entry_path e)) ys) \<and>
    works_through blocked rooted max_bytes bu (evicted_remaining out) fs ys zs"
  using assms
proof (induction es arbitrary: bu out fs)
  case Nil
  then show ?case by (auto simp: works_through_def)
next
  case (Cons e es)
  show ?case
  proof (cases "evicted_remaining out \<le> max_bytes \<or> entry_path e \<in> rooted \<and> bu")
    case True
    with Cons.prems have "out' = out" "fs' = fs" by (auto split: if_splits)
    with True Cons.prems(2) show ?thesis
      by (intro exI [of _ "[]"] exI [of _ "e # es"]) (auto simp: works_through_def)
  next
    case False
    obtain a fs1 where step: "remove blocked (entry_path e) fs = (a, fs1)" by fastforce
    define bu1 where "bu1 \<longleftrightarrow> bu \<or> (entry_path e \<notin> rooted \<and> \<not> freed blocked fs e)"
    obtain out1 where run: "evict_loop (remove blocked) rooted max_bytes bu1 out1 es fs1 = (out', fs')"
      and out1: "evicted_remaining out1 = evicted_remaining out - (if freed blocked fs e then entry_size e else 0)"
        "evicted_objects out1 = evicted_objects out +
          (if bt_get fs (entry_path e) \<noteq> None \<and> \<not> blocked (entry_path e) then 1 else 0)"
      using Cons.prems(1) step False remove_freed [OF step] remove_removed [OF step]
      by (cases a) (auto simp: bu1_def)
    note files = remove_files [OF Cons.prems(2) step]
    from Cons.IH [OF run] files Cons.prems(3) obtain ys zs where part:
      "es = ys @ zs" "bt_inv fs'"
      "\<forall>p. bt_get fs' p = (if p \<in> entry_path ` set ys \<and> \<not> blocked p then None else bt_get fs1 p)"
      "evicted_remaining out' = evicted_remaining out1 - total_size (filter (freed blocked fs1) ys)"
      "evicted_objects out' = evicted_objects out1 +
        length (filter (\<lambda>e. bt_get fs1 (entry_path e) \<noteq> None \<and> \<not> blocked (entry_path e)) ys)"
      "works_through blocked rooted max_bytes bu1 (evicted_remaining out1) fs1 ys zs"
      by auto
    have other: "bt_get fs1 (entry_path x) = bt_get fs (entry_path x)" if "x \<in> set ys" for x
    proof -
      from that have "entry_path x \<in> entry_path ` set ys" by (rule imageI)
      with Cons.prems(3) part(1) have "entry_path x \<noteq> entry_path e" by auto
      with files show ?thesis by auto
    qed
    then have same: "\<forall>x \<in> set ys. freed blocked fs x \<longleftrightarrow> freed blocked fs1 x" by (simp add: freed_def)
    then have eq: "filter (freed blocked fs1) ys = filter (freed blocked fs) ys"
      "filter (\<lambda>e. bt_get fs1 (entry_path e) \<noteq> None \<and> \<not> blocked (entry_path e)) ys =
       filter (\<lambda>e. bt_get fs (entry_path e) \<noteq> None \<and> \<not> blocked (entry_path e)) ys"
      using other by (auto intro: filter_cong)
    have "works_through blocked rooted max_bytes bu (evicted_remaining out) fs (e # ys) zs"
      by (rule works_through_Cons [OF part(6) [folded works_through_cong [OF same]]])
        (use False out1 in \<open>auto simp: bu1_def\<close>)
    with part(1-5) out1 eq files show ?thesis
      by (intro exI [of _ "e # ys"] exI [of _ zs]) auto
  qed
qed

section \<open>Pruned manifests root nothing\<close>

lemma concat_map_bt_remove:
  "g k = [] \<Longrightarrow> concat (map (\<lambda>p. g (fst p)) (bt_remove k m)) = concat (map (\<lambda>p. g (fst p)) m)"
  by (induction k m rule: bt_remove.induct) auto

lemma rooted_objects_remove:
  assumes "strip_suffix ''.json'' name = Some i" "i \<notin> live" "bt_inv ms"
  shows "rooted_objects k is_json (bt_remove name ms) live s = rooted_objects k is_json ms live s"
proof -
  define g where "g ms name = (case strip_suffix ''.json'' name of
      Some identity \<Rightarrow> if identity \<in> live then task_manifest_actions is_json ms identity else []
    | None \<Rightarrow> [])" for ms :: "(string, manifest_file) btree_map" and name
  have "g (bt_remove name ms) x = g ms x" for x
  proof (cases "strip_suffix ''.json'' x")
    case (Some i')
    then have "i' \<in> live \<Longrightarrow> bt_get (bt_remove name ms) (i' @ ''.json'') = bt_get ms (i' @ ''.json'')"
      using assms by (auto simp: strip_suffix_Some)
    with Some show ?thesis by (simp add: g_def task_manifest_actions_def)
  qed (simp add: g_def)
  moreover have "g ms name = []" using assms by (simp add: g_def)
  then have "concat (map (\<lambda>p. g ms (fst p)) (bt_remove name ms)) = concat (map (\<lambda>p. g ms (fst p)) ms)"
    by (rule concat_map_bt_remove)
  moreover have "rooted_objects k is_json ms' live s =
      rooted_action_objects k s (concat (map (\<lambda>p. g ms' (fst p)) ms'))" for ms'
    by (simp add: rooted_objects_def g_def comp_def)
  ultimately show ?thesis by simp
qed

text \<open>Pruning only takes the manifests of identities no live checkout claims.\<close>

definition prunes_unclaimed ::
  "string set \<Rightarrow> (string, manifest_file) btree_map \<Rightarrow> (string, manifest_file) btree_map \<Rightarrow> bool" where
  "prunes_unclaimed live ms ms' \<longleftrightarrow>
     bt_inv ms' \<and> (\<forall>k is_json s. rooted_objects k is_json ms' live s = rooted_objects k is_json ms live s)"

lemma prune_manifest_unclaimed:
  assumes "\<And>i fs. merged_before env i fs = fs" "bt_inv (prune_files w)"
  shows "prunes_unclaimed live (prune_files w) (prune_files (prune_manifest env now live dry_run name w))"
proof -
  have "prune_files (prune_manifest env now live dry_run name w) = prune_files w \<or>
      (\<exists>i. strip_suffix ''.json'' name = Some i \<and> i \<notin> live \<and>
        prune_files (prune_manifest env now live dry_run name w) = bt_remove name (prune_files w))"
    by (auto simp: prune_manifest_def assms(1) Let_def claim_lock_def split: option.splits if_splits)
  then show ?thesis
  proof (elim disjE exE conjE)
    fix i assume "strip_suffix ''.json'' name = Some i" "i \<notin> live"
      and eq: "prune_files (prune_manifest env now live dry_run name w) = bt_remove name (prune_files w)"
    with rooted_objects_remove assms(2) show ?thesis unfolding eq prunes_unclaimed_def by auto
  qed (simp add: prunes_unclaimed_def assms(2))
qed

lemma prune_lock_files [simp]: "prune_files (prune_lock env now live name w) = prune_files w"
  by (simp add: prune_lock_def split: option.split)

lemma fold_prune_lock_files [simp]: "prune_files (fold (prune_lock env now live) names w) = prune_files w"
  by (induction names arbitrary: w) simp_all

lemma fold_prune_manifest_unclaimed:
  assumes "\<And>i fs. merged_before env i fs = fs" "bt_inv (prune_files w)"
  shows "prunes_unclaimed live (prune_files w) (prune_files (fold (prune_manifest env now live dry_run) names w))"
  using assms(2)
proof (induction names arbitrary: w)
  case (Cons name names)
  from prune_manifest_unclaimed [OF assms(1) Cons.prems, of live now dry_run name] Cons.IH
  show ?case by (simp add: prunes_unclaimed_def)
qed (simp add: prunes_unclaimed_def)

lemma prune_task_manifests_unclaimed:
  assumes "\<And>i fs. merged_before env i fs = fs" "bt_inv ms"
  shows "prunes_unclaimed live ms (prune_files (prune_task_manifests env now live dry_run ms locks))"
  using fold_prune_manifest_unclaimed [OF assms(1), of "\<lparr>prune_files = ms, prune_locks = locks, prune_count = 0, prune_bytes = 0\<rparr>"]
    assms(2)
  by (auto simp: prune_task_manifests_def Let_def)

section \<open>The objects a collection leaves\<close>

text \<open>No other process touches the store during the collection.\<close>

definition quiet :: "gc_env \<Rightarrow> bool" where
  "quiet env \<longleftrightarrow> (\<forall>p s. before_claim (env_files env) p s = s) \<and> (\<forall>i fs. merged_before (env_manifests env) i fs = fs)"

definition bytes_in :: "files \<Rightarrow> nat" where
  "bytes_in fs = sum_list (map (\<lambda>pf. length (contents (snd pf))) fs)"

lemma walk_files_map:
  "walk_files l fs = map (\<lambda>p. file_entry p (the (bt_get fs p))) (filter (\<lambda>p. bt_get fs p \<noteq> None) l)"
  by (induction l) (auto split: option.splits)

lemma mset_walk_files: "mset l = mset l' \<Longrightarrow> mset (walk_files l fs) = mset (walk_files l' fs)"
  by (simp add: walk_files_map)

lemma walk_all_files: "bt_inv fs \<Longrightarrow> walk_files (map fst fs) fs = map (\<lambda>(p, f). file_entry p f) fs"
proof -
  assume "bt_inv fs"
  then have "distinct (map fst fs)" by (rule bt_inv_distinct)
  then have "(p, f) \<in> set fs \<Longrightarrow> bt_get fs p = Some f" for p f by simp
  then have "walk_files (map fst gs) fs = map (\<lambda>(p, f). file_entry p f) gs" if "set gs \<subseteq> set fs" for gs
    using that by (induction gs) auto
  then show ?thesis by simp
qed

lemma total_size_walk: "bt_inv fs \<Longrightarrow> mset l = mset (map fst fs) \<Longrightarrow> total_size (walk_files l fs) = bytes_in fs"
  using total_size_mset [OF mset_walk_files [of l "map fst fs" fs]]
  by (simp add: walk_all_files total_size_def bytes_in_def comp_def case_prod_beta)

lemma subfiles_filter:
  assumes "bt_inv fs" "bt_inv fs'" "\<And>p. bt_get fs' p = None \<or> bt_get fs' p = bt_get fs p"
  shows "fs' = filter (\<lambda>pf. bt_get fs' (fst pf) \<noteq> None) fs"
proof (rule bt_ext [OF assms(2)])
  show inv: "bt_inv (filter (\<lambda>pf. bt_get fs' (fst pf) \<noteq> None) fs)" using assms(1) by (rule bt_inv_filter)
  have "bt_get (filter (\<lambda>pf. bt_get fs' (fst pf) \<noteq> None) fs) p = (if bt_get fs' p = None then None else bt_get fs p)" for p
    by (induction fs) auto
  then show "bt_get fs' = bt_get (filter (\<lambda>pf. bt_get fs' (fst pf) \<noteq> None) fs)"
    using assms(3) by (intro ext) metis
qed

lemma bytes_in_subfiles:
  assumes "bt_inv fs" "bt_inv fs'" "\<And>p. bt_get fs' p = None \<or> bt_get fs' p = bt_get fs p"
    and "mset es = mset (walk_files (map fst fs) fs)"
  shows "bytes_in fs' = total_size (filter (\<lambda>e. bt_get fs' (entry_path e) \<noteq> None) es)"
proof -
  have "total_size (filter (\<lambda>e. bt_get fs' (entry_path e) \<noteq> None) es) =
      total_size (filter (\<lambda>e. bt_get fs' (entry_path e) \<noteq> None) (map (\<lambda>(p, f). file_entry p f) fs))"
    by (rule total_size_mset) (metis assms(4) mset_filter walk_all_files [OF assms(1)])
  also have "\<dots> = bytes_in (filter (\<lambda>pf. bt_get fs' (fst pf) \<noteq> None) fs)"
    by (induction fs) (auto simp: bytes_in_def)
  finally show ?thesis using subfiles_filter [OF assms(1-3)] by simp
qed

lemma claim_and_remove_blobs:
  "(\<And>p s. before_claim env p s = s) \<Longrightarrow>
     blobs (sweep_store (claim_and_remove env j v walk e w)) = blobs (sweep_store w)"
  by (simp add: claim_and_remove_def Let_def count_missing_def count_removed_def drop_record_def split: option.split)

lemma sweep_results_blobs:
  assumes "\<And>p s. before_claim env p s = s"
  shows "blobs (sweep_store (sweep_results env j v walk dry es w)) = blobs (sweep_store w)"
proof -
  have "blobs (sweep_store (sweep_result env j v walk dry e w)) = blobs (sweep_store w)" for e w
    using claim_and_remove_blobs [of env j v walk e] assms
    by (simp add: sweep_result_def count_removed_def Let_def split: prod.split)
  then show ?thesis unfolding sweep_results_def by (induction es arbitrary: w) simp_all
qed

lemma gc_roots_pruned:
  assumes "quiet env" "bt_inv (task_manifests w)"
  shows "gc_roots k env live (w\<lparr>task_manifests := prune_files (prune_task_manifests (env_manifests env) now live dry_run
      (task_manifests w) locks), manifest_locks := locks'\<rparr>) = gc_roots k env live w"
  using prune_task_manifests_unclaimed [of "env_manifests env" "task_manifests w" live now dry_run locks] assms
  by (simp add: gc_roots_def prunes_unclaimed_def quiet_def)

lemma prune_checkouts_world:
  "prune_checkouts env dry_run stale w = (n, w1) \<Longrightarrow>
     cache w1 = cache w \<and> receipts w1 = receipts w \<and> task_manifests w1 = task_manifests w \<and>
     manifest_locks w1 = manifest_locks w \<and> sessions w1 = sessions w \<and> staging w1 = staging w"
  by (auto simp: prune_checkouts_def Let_def split: if_splits)

lemma gc_roots_checkouts:
  "cache w1 = cache w \<Longrightarrow> receipts w1 = receipts w \<Longrightarrow> task_manifests w1 = task_manifests w \<Longrightarrow>
     gc_roots k env live w1 = gc_roots k env live w"
  by (simp add: gc_roots_def)

lemma gc_real_blobs:
  assumes "gc_with_mode k env max_bytes False {} retention w = (out, w')" "quiet env" "bt_inv (task_manifests w)"
    and "rooted = gc_roots k env (live_identities (scan_checkouts (env_host env) (checkouts w))) w"
    and "objects = listed_objects env {} (cache w)"
    and "live_bytes = total_size (objects @ listed_results env {} (cache w))"
  shows "blobs (cache w') =
    (if max_bytes < live_bytes
     then snd (evict_objects (eviction_order rooted objects) rooted live_bytes max_bytes
            (remove (unlink_blocked (env_files env))) (blobs (cache w)))
     else blobs (cache w))"
proof -
  let ?live = "live_identities (scan_checkouts (env_host env) (checkouts w))"
  let ?stale = "stale_records (scan_checkouts (env_host env) (checkouts w))"
  obtain n w1 where w1: "prune_checkouts env False ?stale w = (n, w1)" by fastforce
  note same = prune_checkouts_world [OF w1]
  have roots: "gc_roots k env ?live (w1\<lparr>task_manifests := prune_files (prune_task_manifests (env_manifests env) (env_now env)
      ?live False (task_manifests w1) (manifest_locks w1)), manifest_locks := locks'\<rparr>) = rooted" for locks'
    using gc_roots_pruned [where env = env and w = w1 and k = k and live = ?live and now = "env_now env" and
        dry_run = False and locks = "manifest_locks w1" and locks' = locks', OF assms(2)]
      gc_roots_checkouts [of w1 w k env ?live] same assms(3,4) by simp
  have quiet: "\<And>p s. before_claim (env_files env) p s = s" using assms(2) by (simp add: quiet_def)
  show ?thesis
    using assms(1) unfolding gc_with_mode_def Let_def assms(5) [symmetric] assms(6) [symmetric] w1 prod.case roots
    by (auto simp: same gc_evict_def sweep_results_blobs [OF quiet] split: prod.splits if_splits)
qed

text \<open>What an eviction over all objects of a store satisfies, from \<open>fs\<close> to \<open>fs'\<close>.\<close>

definition evicts_fairly ::
  "(string \<Rightarrow> bool) \<Rightarrow> string set \<Rightarrow> nat \<Rightarrow> nat \<Rightarrow> files \<Rightarrow> files \<Rightarrow> bool" where
  "evicts_fairly blocked rooted max_bytes rest fs fs' \<longleftrightarrow>
     (\<forall>p. bt_get fs' p = None \<or> bt_get fs' p = bt_get fs p) \<and>
     (\<forall>p f. bt_get fs p = Some f \<and> bt_get fs' p = None \<longrightarrow>
        (p \<in> rooted \<longrightarrow> fst ` set fs' \<subseteq> rooted) \<and>
        (\<forall>q g. bt_get fs' q = Some g \<and> (p \<in> rooted \<longleftrightarrow> q \<in> rooted) \<and> \<not> blocked q \<longrightarrow> accessed f \<le> accessed g)) \<and>
     ((\<exists>p f. bt_get fs p = Some f \<and> bt_get fs' p = None) \<longrightarrow>
        (\<exists>p f. bt_get fs p = Some f \<and> bt_get fs' p = None \<and> max_bytes < bytes_in fs' + rest + length (contents f))) \<and>
     ((\<forall>p. \<not> blocked p) \<longrightarrow> fs' = [] \<or> bytes_in fs' + rest \<le> max_bytes)"

lemma evicts_fairly_refl:
  "bytes_in fs + rest \<le> max_bytes \<Longrightarrow> evicts_fairly blocked rooted max_bytes rest fs fs"
  by (auto simp: evicts_fairly_def)

lemma sorted_before:
  "sorted (map f (us @ e # vs)) \<Longrightarrow> x \<in> set (us @ e # vs) \<Longrightarrow> f x < f e \<Longrightarrow> x \<in> set us"
  by (auto simp: sorted_append)

lemma bt_get_keys: "p \<in> fst ` set fs \<longleftrightarrow> (\<exists>f. bt_get fs p = Some f)"
  by (metis domD domI dom_map_of_conv_image_fst)

lemma last_matching:
  assumes "\<exists>x \<in> set xs. P x"
  obtains us x vs where "xs = us @ x # vs" "P x" "\<forall>y \<in> set vs. \<not> P y"
  using assms split_list_last_prop [of xs P] by metis

text \<open>
  An ordered list of all objects split into the part an eviction worked through and the rest.
\<close>

definition splits_objects ::
  "(string \<Rightarrow> bool) \<Rightarrow> string set \<Rightarrow> files \<Rightarrow> files \<Rightarrow> entry list \<Rightarrow> entry list \<Rightarrow> bool" where
  "splits_objects blocked rooted fs fs' ys zs \<longleftrightarrow>
     bt_inv fs \<and> bt_inv fs' \<and> mset (ys @ zs) = mset (walk_files (map fst fs) fs) \<and>
     sorted (map (\<lambda>e. (entry_path e \<in> rooted, entry_used e)) (ys @ zs)) \<and>
     (\<forall>p. bt_get fs' p = (if p \<in> entry_path ` set ys \<and> \<not> blocked p then None else bt_get fs p))"

lemma split_after:
  "splits_objects blocked rooted fs fs' ys zs \<Longrightarrow>
     bt_get fs' p = (if p \<in> entry_path ` set ys \<and> \<not> blocked p then None else bt_get fs p)"
  by (simp add: splits_objects_def)

lemma split_sub: "splits_objects blocked rooted fs fs' ys zs \<Longrightarrow> bt_get fs' p = None \<or> bt_get fs' p = bt_get fs p"
  by (simp add: splits_objects_def)

lemma split_listed:
  assumes "splits_objects blocked rooted fs fs' ys zs"
  shows "set (ys @ zs) = (\<lambda>(p, f). file_entry p f) ` set fs"
proof -
  have inv: "bt_inv fs" and all: "mset (ys @ zs) = mset (walk_files (map fst fs) fs)"
    using assms by (simp_all add: splits_objects_def)
  have "set (ys @ zs) = set (walk_files (map fst fs) fs)" using all by (rule mset_eq_setD)
  then show ?thesis by (simp add: walk_all_files [OF inv])
qed

lemma split_entry:
  assumes "splits_objects blocked rooted fs fs' ys zs" "bt_get fs p = Some f"
  shows "file_entry p f \<in> set (ys @ zs)"
  unfolding split_listed [OF assms(1)] using map_of_SomeD [OF assms(2)] by (rule rev_image_eqI) simp

lemma split_of_entry:
  assumes "splits_objects blocked rooted fs fs' ys zs" "e \<in> set (ys @ zs)"
  obtains p f where "e = file_entry p f" "bt_get fs p = Some f"
proof -
  have "distinct (map fst fs)" using assms(1) bt_inv_distinct by (auto simp: splits_objects_def)
  with assms(2) that show thesis unfolding split_listed [OF assms(1)] by auto
qed

lemma split_present:
  assumes "splits_objects blocked rooted fs fs' ys zs" "e \<in> set (ys @ zs)"
  shows "\<exists>f. bt_get fs (entry_path e) = Some f"
  using split_of_entry [OF assms] by (metis file_entry_sel(1))

lemma split_freed:
  "splits_objects blocked rooted fs fs' ys zs \<Longrightarrow> e \<in> set ys \<Longrightarrow> freed blocked fs e \<longleftrightarrow> \<not> blocked (entry_path e)"
  using split_present [of blocked rooted fs fs' ys zs e] by (auto simp: freed_def)

lemma split_gone:
  assumes "splits_objects blocked rooted fs fs' ys zs" "bt_get fs p = Some f" "bt_get fs' p = None"
  shows "file_entry p f \<in> set ys \<and> \<not> blocked p"
proof -
  have "p \<in> entry_path ` set ys" "\<not> blocked p"
    using assms(2,3) split_after [OF assms(1), of p] by (auto split: if_splits)
  then obtain e where e: "e \<in> set ys" "entry_path e = p" by auto
  then obtain g where "e = file_entry p g" "bt_get fs p = Some g"
    using split_of_entry [OF assms(1), of e] by (metis UnI1 file_entry_sel(1) set_append)
  with e assms(2) \<open>\<not> blocked p\<close> show ?thesis by simp
qed

lemma split_distinct:
  assumes "splits_objects blocked rooted fs fs' ys zs"
  shows "distinct (map entry_path (ys @ zs))"
proof -
  have inv: "bt_inv fs" and all: "mset (ys @ zs) = mset (map (\<lambda>(p, f). file_entry p f) fs)"
    using assms walk_all_files by (auto simp: splits_objects_def)
  have "mset (map entry_path (ys @ zs)) = image_mset entry_path (mset (map (\<lambda>(p, f). file_entry p f) fs))"
    by (simp only: mset_map all)
  also have "\<dots> = mset (map fst fs)" by (simp add: multiset.map_comp comp_def case_prod_beta)
  finally show ?thesis using bt_inv_distinct [OF inv] mset_eq_imp_distinct_iff by blast
qed

lemma split_rooted_last:
  assumes split: "splits_objects blocked rooted fs fs' ys zs"
    and part: "works_through blocked rooted max_bytes False live fs ys zs"
    and p: "bt_get fs p = Some f" "bt_get fs' p = None" "p \<in> rooted"
  shows "fst ` set fs' \<subseteq> rooted"
proof
  let ?key = "\<lambda>e. (entry_path e \<in> rooted, entry_used e)"
  fix q assume "q \<in> fst ` set fs'"
  then obtain g where g: "bt_get fs' q = Some g" by (auto simp: bt_get_keys)
  then have q: "file_entry q g \<in> set (ys @ zs)" using split_sub [OF split, of q] split_entry [OF split] by simp
  show "q \<in> rooted"
  proof (rule ccontr)
    assume unrooted: "q \<notin> rooted"
    obtain us vs where ys: "ys = us @ file_entry p f # vs" using split_gone [OF split p(1,2)] by (meson split_list)
    have before: "file_entry q g \<in> set us"
    proof (rule sorted_before [of ?key us "file_entry p f" "vs @ zs"])
      show "sorted (map ?key (us @ file_entry p f # vs @ zs))" using split ys by (simp add: splits_objects_def)
    qed (use q ys unrooted p(3) in auto)
    have "freed blocked fs (file_entry q g)"
      using works_through_at(2) [OF part [unfolded ys] _ before] p(3) unrooted by simp
    with before ys split_freed [OF split, of "file_entry q g"] have "\<not> blocked q" by simp
    moreover have "q \<in> entry_path ` set ys" using before ys by force
    ultimately show False using split_after [OF split, of q] g by simp
  qed
qed

lemma split_oldest_first:
  assumes split: "splits_objects blocked rooted fs fs' ys zs"
    and p: "bt_get fs p = Some f" "bt_get fs' p = None"
    and q: "bt_get fs' q = Some g" "p \<in> rooted \<longleftrightarrow> q \<in> rooted" "\<not> blocked q"
  shows "accessed f \<le> accessed g"
proof -
  have "file_entry q g \<in> set (ys @ zs)" using split_sub [OF split, of q] split_entry [OF split] q(1) by simp
  moreover have "q \<notin> entry_path ` set ys" using split_after [OF split, of q] q by auto
  ultimately have "file_entry q g \<in> set zs" by force
  moreover have "file_entry p f \<in> set ys" using split_gone [OF split p] by simp
  moreover have "sorted (map (\<lambda>e. (entry_path e \<in> rooted, entry_used e)) (ys @ zs))"
    using split by (simp add: splits_objects_def)
  ultimately have "(p \<in> rooted, accessed f) \<le> (q \<in> rooted, accessed g)" by (fastforce simp: sorted_append)
  with q(2) show ?thesis by auto
qed

lemma split_balance:
  assumes split: "splits_objects blocked rooted fs fs' ys zs"
  shows "bytes_in fs' + total_size (filter (freed blocked fs) ys) = bytes_in fs"
proof -
  have inv: "bt_inv fs" "bt_inv fs'" and all: "mset (ys @ zs) = mset (walk_files (map fst fs) fs)"
    using split by (simp_all add: splits_objects_def)
  have "bytes_in fs' = total_size (filter (\<lambda>e. bt_get fs' (entry_path e) \<noteq> None) (ys @ zs))"
    using inv split_sub [OF split] all by (rule bytes_in_subfiles)
  moreover have "bt_get fs' (entry_path e) \<noteq> None \<longleftrightarrow> \<not> freed blocked fs e" if "e \<in> set ys" for e
    using that split_present [OF split, of e] split_freed [OF split that] split_after [OF split, of "entry_path e"] by auto
  moreover have "bt_get fs' (entry_path e) \<noteq> None" if e: "e \<in> set zs" for e
  proof -
    have "entry_path e \<notin> entry_path ` set ys" using split_distinct [OF split] e by force
    then show ?thesis using split_present [OF split, of e] e split_after [OF split, of "entry_path e"] by auto
  qed
  ultimately have "bytes_in fs' = total_size (filter (\<lambda>e. \<not> freed blocked fs e) ys) + total_size zs"
    by (simp cong: filter_cong)
  moreover have "bytes_in fs = total_size ys + total_size zs"
    using total_size_mset [OF all] walk_all_files [OF inv(1)]
    by (simp add: total_size_def bytes_in_def comp_def case_prod_beta)
  ultimately show ?thesis using total_size_filter [of "freed blocked fs" ys] by simp
qed

lemma split_minimal:
  assumes split: "splits_objects blocked rooted fs fs' ys zs"
    and part: "works_through blocked rooted max_bytes False (bytes_in fs + rest) fs ys zs"
    and "bt_get fs p = Some f" "bt_get fs' p = None"
  shows "\<exists>p f. bt_get fs p = Some f \<and> bt_get fs' p = None \<and> max_bytes < bytes_in fs' + rest + length (contents f)"
proof -
  have "\<exists>e \<in> set ys. freed blocked fs e" using split_gone [OF split assms(3,4)] split_freed [OF split] by fastforce
  then obtain us e vs where e: "ys = us @ e # vs" "freed blocked fs e" "\<forall>y \<in> set vs. \<not> freed blocked fs y"
    by (rule last_matching)
  have none: "filter (freed blocked fs) vs = []" using e(3) by (simp add: filter_False)
  obtain q g where g: "e = file_entry q g" "bt_get fs q = Some g"
    using split_of_entry [OF split, of e] e(1) by auto
  have "max_bytes < bytes_in fs + rest - total_size (filter (freed blocked fs) us)"
    using part unfolding e(1) by (rule works_through_at(1))
  moreover have "bytes_in fs' + total_size (filter (freed blocked fs) us) + entry_size e = bytes_in fs"
    using split_balance [OF split] e(1,2) none by simp
  moreover have "bt_get fs' q = None"
    using split_after [OF split, of q] e(1,2) split_freed [OF split, of e] g(1) by auto
  ultimately show ?thesis using g by (intro exI [of _ q] exI [of _ g]) simp
qed

lemma split_enough:
  assumes split: "splits_objects blocked rooted fs fs' ys zs"
    and part: "works_through blocked rooted max_bytes False (bytes_in fs + rest) fs ys zs"
    and free: "\<forall>p. \<not> blocked p"
  shows "fs' = [] \<or> bytes_in fs' + rest \<le> max_bytes"
proof (cases "zs = []")
  case True
  have "bt_get fs' p = None" for p
  proof (cases "bt_get fs p")
    case (Some f)
    with split_entry [OF split] True have "p \<in> entry_path ` set ys" by force
    with free split_after [OF split, of p] show ?thesis by simp
  qed (use split_sub [OF split, of p] in auto)
  then have "fst ` set fs' = {}" unfolding bt_get_keys set_eq_iff by simp
  then show ?thesis by simp
next
  case False
  have "\<forall>u \<in> set ys. freed blocked fs u" using free by (simp add: freed_def)
  with part False have "bytes_in fs + rest - total_size (filter (freed blocked fs) ys) \<le> max_bytes"
    by (auto simp: works_through_def)
  with split_balance [OF split] show ?thesis by linarith
qed

lemma evicts_fairly_part:
  assumes "splits_objects blocked rooted fs fs' ys zs"
    and "works_through blocked rooted max_bytes False (bytes_in fs + rest) fs ys zs"
  shows "evicts_fairly blocked rooted max_bytes rest fs fs'"
  unfolding evicts_fairly_def
proof (intro conjI allI impI; (elim conjE exE)?)
  show "bt_get fs' p = None \<or> bt_get fs' p = bt_get fs p" for p using assms(1) by (rule split_sub)
  show "fst ` set fs' \<subseteq> rooted" if "p \<in> rooted" "bt_get fs p = Some f" "bt_get fs' p = None" for p f
    using assms that(2,3,1) by (rule split_rooted_last)
  show "accessed f \<le> accessed g"
    if "bt_get fs p = Some f" "bt_get fs' p = None" "bt_get fs' q = Some g" "(p \<in> rooted) = (q \<in> rooted)" "\<not> blocked q"
    for p f q g using assms(1) that by (rule split_oldest_first)
  show "\<exists>p f. bt_get fs p = Some f \<and> bt_get fs' p = None \<and> max_bytes < bytes_in fs' + rest + length (contents f)"
    if "bt_get fs p = Some f" "bt_get fs' p = None" for p f using assms that by (rule split_minimal)
  show "fs' = [] \<or> bytes_in fs' + rest \<le> max_bytes" if "\<forall>p. \<not> blocked p" using assms that by (rule split_enough)
qed

lemma evict_objects_fairly:
  assumes "bt_inv fs" "mset l = mset (map fst fs)"
    and "evict_objects (eviction_order rooted (walk_files l fs)) rooted (bytes_in fs + rest) max_bytes (remove blocked) fs = (out, fs')"
  shows "evicts_fairly blocked rooted max_bytes rest fs fs'"
proof -
  let ?order = "eviction_order rooted (walk_files l fs)"
  have "distinct l" using bt_inv_distinct [OF assms(1)] mset_eq_imp_distinct_iff [OF assms(2)] by simp
  then have "distinct (map entry_path (walk_files l fs))" by (rule walk_files_distinct)
  moreover have "mset (map entry_path ?order) = mset (map entry_path (walk_files l fs))"
    by (simp add: eviction_order_def)
  ultimately have "distinct (map entry_path ?order)" using mset_eq_imp_distinct_iff by blast
  from evict_loop_part [OF assms(3) [unfolded evict_objects_def] assms(1) this] obtain ys zs where part:
    "?order = ys @ zs" "bt_inv fs'"
    "\<forall>p. bt_get fs' p = (if p \<in> entry_path ` set ys \<and> \<not> blocked p then None else bt_get fs p)"
    "works_through blocked rooted max_bytes False (bytes_in fs + rest) fs ys zs"
    unfolding evictions.select_convs by blast
  have "mset (ys @ zs) = mset (walk_files (map fst fs) fs)"
    using part(1) mset_walk_files [OF assms(2)] by (metis eviction_order_def mset_sort)
  moreover have "sorted (map (\<lambda>e. (entry_path e \<in> rooted, entry_used e)) (ys @ zs))"
    unfolding part(1) [symmetric] eviction_order_def by (rule sorted_sort_key)
  ultimately have "splits_objects blocked rooted fs fs' ys zs"
    using part(2,3) assms(1) by (simp add: splits_objects_def)
  from evicts_fairly_part [OF this part(4)] show ?thesis .
qed


lemma bytes_in_insert:
  "bt_get fs p = None \<Longrightarrow> bytes_in (bt_insert p f fs) = length (contents f) + bytes_in fs"
  by (induction p f fs rule: bt_insert.induct) (auto simp: bytes_in_def split: if_splits)

lemma sample_path_inject [simp]: "sample_path m = sample_path n \<longleftrightarrow> m = n"
  using cas_path_inject [of "sample_digest m" "sample_path m" "sample_digest n"] by (auto simp: sample_cas_path)

definition sample_forms :: store_forms where
  "sample_forms = \<lparr>forms = sample_json, parse_rustc_metadata = (\<lambda>_. None), descriptor_fields = (\<lambda>_. None)\<rparr>"

definition sample_world :: "files \<Rightarrow> gc_world" where
  "sample_world rs = \<lparr>cache = sample_store\<lparr>records := rs\<rparr>, checkouts = [], receipts = [], task_manifests = [], manifest_locks = [],
     sessions = \<lparr>session_streams = [], session_locks = []\<rparr>, staging = []\<rparr>"

definition sample_env :: "files \<Rightarrow> gc_env" where
  "sample_env rs =
     \<lparr>env_files = \<lparr>unlink_blocked = (\<lambda>_. False), unreadable = (\<lambda>_. False), slot_claimed = (\<lambda>_. False), before_claim = (\<lambda>_ s. s)\<rparr>,
      env_manifests = \<lparr>lock_held = (\<lambda>_. False), merged_before = (\<lambda>_ fs. fs), manifest_stuck = (\<lambda>_. False)\<rparr>,
      env_host = \<lparr>host_exists = (\<lambda>_. Found True), host_device = (\<lambda>_. Found 1), host_store = [], host_secs = Some 0\<rparr>,
      env_now = 0, env_listing = (map fst (blobs sample_store), map fst rs),
      env_checkout_stuck = (\<lambda>_. False), env_session_stuck = (\<lambda>_. False), env_staging_held = (\<lambda>_. False),
      env_is_json = (\<lambda>_. True)\<rparr>"

lemma sample_store_inv [simp]: "bt_inv (blobs sample_store)"
  by (simp add: sample_store_def empty_store_def)

lemma sample_store_bytes: "bytes_in (blobs sample_store) = 10"
  by (simp add: sample_store_def put_blob_def empty_store_def bytes_in_insert bytes_in_def)


end
