(* ===== verification/Gc_Results.thy ===== *)
theory Gc_Results
  imports Gc_Eviction
begin

text \<open>
  What a collection does to result records. The search through an output tree, which remembers its
  verdicts, decides whether everything below a directory is there; content addressing rules out
  cycles, which enters as a hypothesis. A collection that evicted leaves no result it could remove
  with something missing, and a dry run counts exactly what the real run would remove.
\<close>

section \<open>The remembered search decides completeness\<close>

definition directory_whole :: "json_forms \<Rightarrow> store \<Rightarrow> string set \<Rightarrow> digest \<Rightarrow> bool" where
  "directory_whole j s v d \<longleftrightarrow>
     (\<forall>x. x \<in> files_of j s d \<or> child_of j s d x \<longrightarrow> \<not> missing s v x)"

definition tree_whole :: "json_forms \<Rightarrow> store \<Rightarrow> string set \<Rightarrow> digest \<Rightarrow> bool" where
  "tree_whole j s v d \<longleftrightarrow> (\<forall>e \<in> tree j s {d}. directory_whole j s v e)"

lemma tree_single: "e \<in> tree j s {d} \<longleftrightarrow> (child_of j s)\<^sup>*\<^sup>* d e"
  by (simp add: tree_def)

lemma tree_whole_step:
  "tree_whole j s v d \<longleftrightarrow> directory_whole j s v d \<and> (\<forall>c. child_of j s d c \<longrightarrow> tree_whole j s v c)"
proof
  assume "tree_whole j s v d"
  then show "directory_whole j s v d \<and> (\<forall>c. child_of j s d c \<longrightarrow> tree_whole j s v c)"
    by (auto simp: tree_whole_def tree_single Ball_def intro: converse_rtranclp_into_rtranclp)
next
  assume "directory_whole j s v d \<and> (\<forall>c. child_of j s d c \<longrightarrow> tree_whole j s v c)"
  then show "tree_whole j s v d"
    by (auto simp: tree_whole_def tree_single Ball_def elim: converse_rtranclpE)
qed

definition acyclic_store :: "json_forms \<Rightarrow> store \<Rightarrow> bool" where
  "acyclic_store j s \<longleftrightarrow> (\<forall>d. \<not> (child_of j s)\<^sup>+\<^sup>+ d d)"

text \<open>Verdicts are right except for the directories being searched.\<close>

definition sound_verdicts :: "json_forms \<Rightarrow> store \<Rightarrow> string set \<Rightarrow> digest set \<Rightarrow> (digest \<rightharpoonup> bool) \<Rightarrow> bool" where
  "sound_verdicts j s v open_dirs trees \<longleftrightarrow>
     (\<forall>d b. d \<notin> open_dirs \<and> trees d = Some b \<longrightarrow> b = tree_whole j s v d)"

lemma card_mono_verdicts: "dom trees \<subseteq> dom trees' \<Longrightarrow> card (stored_digests s - dom trees') \<le> card (stored_digests s - dom trees)"
  by (intro card_mono) auto

lemma tree_is_complete_sound:
  shows "tree_is_complete n j s v d trees = (b, trees') \<Longrightarrow> sound_verdicts j s v A trees \<Longrightarrow>
      card (stored_digests s - dom trees) < n \<Longrightarrow> \<forall>a \<in> A. (child_of j s)\<^sup>+\<^sup>+ a d \<Longrightarrow> acyclic_store j s \<Longrightarrow>
      b = tree_whole j s v d \<and> sound_verdicts j s v A trees' \<and> dom trees \<subseteq> dom trees'"
    and "children_complete n j s v cs trees = (b, trees') \<Longrightarrow> sound_verdicts j s v A trees \<Longrightarrow>
      card (stored_digests s - dom trees) < n \<Longrightarrow> \<forall>a \<in> A. \<forall>c \<in> set cs. (child_of j s)\<^sup>+\<^sup>+ a c \<Longrightarrow> acyclic_store j s \<Longrightarrow>
      b = (\<forall>c \<in> set cs. \<not> missing s v c \<and> tree_whole j s v c) \<and> sound_verdicts j s v A trees' \<and> dom trees \<subseteq> dom trees'"
proof (induction n j s v d trees and n j s v cs trees arbitrary: A b trees' and A b trees'
    rule: tree_is_complete_children_complete.induct)
  case (2 n j s v d trees)
  from "2.prems" have fresh: "d \<notin> A" unfolding acyclic_store_def by blast
  show ?case
  proof (cases "trees d")
    case (Some c)
    with "2.prems"(1,2) fresh show ?thesis by (auto simp: sound_verdicts_def)
  next
    case None
    let ?t = "trees(d \<mapsto> True)"
    have sound: "sound_verdicts j s v (insert d A) ?t" using "2.prems"(2) by (auto simp: sound_verdicts_def)
    obtain c t where inner: "(case read_directory j s d of None \<Rightarrow> (True, ?t)
        | Some dir \<Rightarrow> if list_all (\<lambda>f. \<not> missing s v f) (dir_files dir)
            then children_complete n j s v (dir_children dir) ?t else (False, ?t)) = (c, t)"
      by fastforce
    have out: "b = c" "trees' = t(d \<mapsto> c)" using "2.prems"(1) None inner by (auto simp: Let_def)
    have "c = tree_whole j s v d \<and> sound_verdicts j s v (insert d A) t \<and> dom ?t \<subseteq> dom t"
    proof (cases "read_directory j s d")
      case no_dir: None
      then have "tree_whole j s v d"
        by (subst tree_whole_step) (simp add: directory_whole_def files_of_def child_of_def)
      with no_dir inner sound show ?thesis by simp
    next
      case (Some dir)
      have whole: "tree_whole j s v d \<longleftrightarrow> (\<forall>f \<in> set (dir_files dir). \<not> missing s v f) \<and>
          (\<forall>x \<in> set (dir_children dir). \<not> missing s v x \<and> tree_whole j s v x)"
        using Some by (subst tree_whole_step) (auto simp: directory_whole_def files_of_def child_of_def)
      show ?thesis
      proof (cases "list_all (\<lambda>f. \<not> missing s v f) (dir_files dir)")
        case True
        have "d \<in> stored_digests s" "d \<notin> dom trees" using read_directory_stored [OF Some] None by auto
        then have "card (stored_digests s - dom ?t) < card (stored_digests s - dom trees)"
          by (intro psubset_card_mono) auto
        with "2.prems"(3) have fuel: "card (stored_digests s - dom ?t) < n" by simp
        have below: "\<forall>a \<in> insert d A. \<forall>x \<in> set (dir_children dir). (child_of j s)\<^sup>+\<^sup>+ a x"
        proof (intro ballI)
          fix a x assume "a \<in> insert d A" "x \<in> set (dir_children dir)"
          moreover from this(2) Some have "child_of j s d x" by (simp add: child_of_def)
          ultimately show "(child_of j s)\<^sup>+\<^sup>+ a x" using "2.prems"(4) by (auto intro: tranclp.trancl_into_trancl)
        qed
        have "children_complete n j s v (dir_children dir) ?t = (c, t)" using inner Some True by simp
        from "2.IH" [OF None refl Some True this sound fuel below "2.prems"(5)] whole True
        show ?thesis unfolding list_all_iff by blast
      next
        case False
        with inner Some have "c = False" "t = ?t" by simp_all
        moreover have "\<not> tree_whole j s v d" using whole False unfolding list_all_iff by blast
        ultimately show ?thesis using sound by simp
      qed
    qed
    then have c: "c = tree_whole j s v d" and t: "sound_verdicts j s v (insert d A) t" "dom ?t \<subseteq> dom t" by blast+
    have "sound_verdicts j s v A trees'" using t(1) c out(2) by (simp add: sound_verdicts_def)
    moreover have "dom trees \<subseteq> dom trees'" using t(2) out(2) by auto
    ultimately show ?thesis using out(1) c by blast
  qed
next
  case (4 n j s v c cs trees)
  show ?case
  proof (cases "missing s v c")
    case True
    with "4.prems" show ?thesis by auto
  next
    case False
    obtain b1 t1 where first: "tree_is_complete n j s v c trees = (b1, t1)" by fastforce
    have one: "b1 = tree_whole j s v c \<and> sound_verdicts j s v A t1 \<and> dom trees \<subseteq> dom t1"
      by (rule "4.IH"(1) [OF False first "4.prems"(2,3) _ "4.prems"(5)]) (use "4.prems"(4) in auto)
    show ?thesis
    proof (cases b1)
      case True
      have "children_complete n j s v cs t1 = (b, trees')" using "4.prems"(1) False first True by simp
      moreover have "card (stored_digests s - dom t1) < n"
        using card_mono_verdicts [of trees t1 s] one "4.prems"(3) by simp
      moreover have "\<forall>a \<in> A. \<forall>x \<in> set cs. (child_of j s)\<^sup>+\<^sup>+ a x" using "4.prems"(4) by simp
      moreover have "sound_verdicts j s v A t1" using one by blast
      ultimately have "b = (\<forall>c \<in> set cs. \<not> missing s v c \<and> tree_whole j s v c) \<and>
          sound_verdicts j s v A trees' \<and> dom t1 \<subseteq> dom trees'"
        using "4.IH"(2) [OF False first [symmetric] True] "4.prems"(5) by blast
      moreover have "tree_whole j s v c" "dom trees \<subseteq> dom t1" using one True by blast+
      ultimately show ?thesis using False by (metis list.set_intros(1) set_ConsD list.set_intros(2) order_trans)
    next
      case b1: False
      with "4.prems"(1) first False one show ?thesis by auto
    qed
  qed
qed auto

lemma card_stored: "card (stored_digests s) \<le> length (blobs s)"
proof -
  have "inj_on cas_path (stored_digests s)" "cas_path ` stored_digests s \<subseteq> Inr ` fst ` set (blobs s)"
    by (auto simp: stored_digests_def intro!: inj_onI intro: cas_path_inject)
  then have "card (stored_digests s) \<le> card ((Inr :: string \<Rightarrow> store_error + string) ` fst ` set (blobs s))"
    by (rule card_inj_on_le) simp
  also have "\<dots> \<le> card (set (map fst (blobs s)))" unfolding set_map by (rule card_image_le) simp
  also have "\<dots> \<le> length (blobs s)" using card_length [of "map fst (blobs s)"] by simp
  finally show ?thesis .
qed

lemma tree_search:
  assumes "acyclic_store j s" "sound_verdicts j s v {} trees"
    and "tree_is_complete (Suc (length (blobs s))) j s v d trees = (b, trees')"
  shows "b = tree_whole j s v d \<and> sound_verdicts j s v {} trees'"
proof -
  have "card (stored_digests s - dom trees) \<le> card (stored_digests s)" by (intro card_mono) auto
  then have "card (stored_digests s - dom trees) < Suc (length (blobs s))" using card_stored [of s] by simp
  with tree_is_complete_sound(1) [OF assms(3,2)] assms(1) show ?thesis by simp
qed

text \<open>A result whose objects are all there; with \<open>walk\<close> those of its output tree too.\<close>

definition result_whole :: "json_forms \<Rightarrow> store \<Rightarrow> string set \<Rightarrow> bool \<Rightarrow> action_result \<Rightarrow> bool" where
  "result_whole j s v walk r \<longleftrightarrow>
     (\<forall>d \<in> set (named_directly r). \<not> missing s v d) \<and>
     (walk \<longrightarrow> (\<forall>d. output_root r = Some d \<longrightarrow> tree_whole j s v d))"

definition bytes_whole :: "json_forms \<Rightarrow> store \<Rightarrow> string set \<Rightarrow> bool \<Rightarrow> byte list \<Rightarrow> bool" where
  "bytes_whole j s v walk bs \<longleftrightarrow> (\<forall>r. parse_result j bs = Some r \<longrightarrow> result_whole j s v walk r)"

lemma dangling_bytes:
  assumes "acyclic_store j s" "sound_verdicts j s v {} trees"
    and "action_result_bytes_are_dangling j s bs v walk trees = (b, trees')"
  shows "b = (\<not> bytes_whole j s v walk bs) \<and> sound_verdicts j s v {} trees'"
proof (cases "parse_result j bs")
  case None
  with assms(2,3) show ?thesis by (simp add: action_result_bytes_are_dangling_def bytes_whole_def)
next
  case (Some r)
  show ?thesis
  proof (cases "list_ex (missing s v) (named_directly r)")
    case True
    with Some assms(2,3) show ?thesis
      by (auto simp: action_result_bytes_are_dangling_def bytes_whole_def result_whole_def list_ex_iff)
  next
    case False
    note here = Some False
    show ?thesis
    proof (cases "walk \<and> output_root r \<noteq> None")
      case True
      then obtain d where d: "output_root r = Some d" "walk" by auto
      obtain c t where search: "tree_is_complete (Suc (length (blobs s))) j s v d trees = (c, t)" by fastforce
      from tree_search [OF assms(1,2) this] assms(3) here d search show ?thesis
        by (auto simp: action_result_bytes_are_dangling_def bytes_whole_def result_whole_def list_ex_iff
            simp del: tree_is_complete.simps)
    next
      case False
      with here assms(2,3) show ?thesis
        by (auto simp: action_result_bytes_are_dangling_def bytes_whole_def result_whole_def list_ex_iff
            split: option.splits if_splits)
    qed
  qed
qed

text \<open>Only the blobs of a store matter to these.\<close>

lemma same_blobs:
  assumes "blobs s = blobs s'"
  shows "missing s v d = missing s' v d" "read_directory j s d = read_directory j s' d"
  using assms by (simp_all add: missing_def read_directory_def read_blob_def split: sum.split)

lemma same_blobs_tree:
  assumes "blobs s = blobs s'"
  shows "tree_whole j s v = tree_whole j s' v" "acyclic_store j s = acyclic_store j s'"
    "bytes_whole j s v walk = bytes_whole j s' v walk" "sound_verdicts j s v = sound_verdicts j s' v"
    "result_whole j s v walk = result_whole j s' v walk"
proof -
  have c: "child_of j s = child_of j s'" "files_of j s = files_of j s'" "missing s v = missing s' v"
    using same_blobs [OF assms] by (auto simp: fun_eq_iff child_of_def files_of_def)
  then have "directory_whole j s v = directory_whole j s' v" by (simp add: fun_eq_iff directory_whole_def)
  with c show t: "tree_whole j s v = tree_whole j s' v" by (intro ext) (simp add: tree_whole_def tree_def)
  from c show "acyclic_store j s = acyclic_store j s'" by (simp add: acyclic_store_def)
  from c t show r: "result_whole j s v walk = result_whole j s' v walk" by (simp add: fun_eq_iff result_whole_def)
  from r show "bytes_whole j s v walk = bytes_whole j s' v walk" by (simp add: fun_eq_iff bytes_whole_def)
  from t show "sound_verdicts j s v = sound_verdicts j s' v" by (simp add: fun_eq_iff sound_verdicts_def)
qed

section \<open>The pass over results\<close>

text \<open>What a pass removes at one entry, and what it may not touch.\<close>

definition broken_record :: "json_forms \<Rightarrow> store \<Rightarrow> string set \<Rightarrow> bool \<Rightarrow> string \<Rightarrow> bool" where
  "broken_record j s v walk p \<longleftrightarrow> (\<exists>f. bt_get (records s) p = Some f \<and> \<not> bytes_whole j s v walk (contents f))"

definition removable :: "gc_answers \<Rightarrow> string \<Rightarrow> bool" where
  "removable env p \<longleftrightarrow> \<not> unreadable env p \<and> \<not> slot_claimed env p \<and> \<not> unlink_blocked env p"

lemma is_dangling_spec:
  assumes "acyclic_store j s" "sound_verdicts j s v {} trees"
    and "action_result_is_dangling j s p v walk trees = (b, trees')"
  shows "b = broken_record j s v walk p \<and> sound_verdicts j s v {} trees'"
proof (cases "bt_get (records s) p")
  case None
  with assms show ?thesis by (simp add: action_result_is_dangling_def broken_record_def)
next
  case (Some f)
  with assms(3) dangling_bytes [OF assms(1,2), of "contents f" walk b trees'] show ?thesis
    by (simp add: action_result_is_dangling_def broken_record_def)
qed

lemma sweep_result_dry:
  assumes "acyclic_store j (sweep_store w)" "sound_verdicts j (sweep_store w) v {} (sweep_trees w)"
  shows "\<exists>trees. sound_verdicts j (sweep_store w) v {} trees \<and>
    sweep_result env j v walk True e w =
      (if \<not> unreadable env (entry_path e) \<and> broken_record j (sweep_store w) v walk (entry_path e)
       then count_removed e (w\<lparr>sweep_trees := trees\<rparr>) else w\<lparr>sweep_trees := trees\<rparr>)"
proof (cases "unreadable env (entry_path e)")
  case True
  then show ?thesis using assms(2) by (intro exI [of _ "sweep_trees w"]) (simp add: sweep_result_def)
next
  case False
  obtain b t where d: "action_result_is_dangling j (sweep_store w) (entry_path e) v walk (sweep_trees w) = (b, t)" by fastforce
  from is_dangling_spec [OF assms this] False d show ?thesis
    by (intro exI [of _ t]) (simp add: sweep_result_def Let_def)
qed

lemma sweep_result_real:
  assumes "acyclic_store j (sweep_store w)" "sound_verdicts j (sweep_store w) v {} (sweep_trees w)"
    and "\<And>p s. before_claim env p s = s"
  shows "\<exists>trees. sound_verdicts j (sweep_store w) v {} trees \<and>
    sweep_result env j v walk False e w =
      (if removable env (entry_path e) \<and> broken_record j (sweep_store w) v walk (entry_path e)
       then count_removed e (w\<lparr>sweep_trees := trees, sweep_store := drop_record (entry_path e) (sweep_store w)\<rparr>)
       else w\<lparr>sweep_trees := trees\<rparr>)"
proof (cases "unreadable env (entry_path e)")
  case True
  then show ?thesis using assms(2)
    by (intro exI [of _ "sweep_trees w"]) (simp add: sweep_result_def removable_def)
next
  case False
  let ?s = "sweep_store w" and ?p = "entry_path e"
  obtain b t where d: "action_result_is_dangling j ?s ?p v walk (sweep_trees w) = (b, t)" by fastforce
  note spec = is_dangling_spec [OF assms(1,2) d]
  have second: "fst (action_result_bytes_are_dangling j ?s bs v walk Map.empty) \<longleftrightarrow> \<not> bytes_whole j ?s v walk bs" for bs
    using dangling_bytes [OF assms(1), of v Map.empty bs walk, OF _ prod.collapse [symmetric]]
    by (simp add: sound_verdicts_def)
  have "sweep_result env j v walk False e w =
      (if removable env ?p \<and> broken_record j ?s v walk ?p
       then count_removed e (w\<lparr>sweep_trees := t, sweep_store := drop_record ?p ?s\<rparr>) else w\<lparr>sweep_trees := t\<rparr>)"
    using False d spec second
    by (auto simp: sweep_result_def claim_and_remove_def Let_def assms(3) removable_def broken_record_def)
  with spec show ?thesis by blast
qed

lemma count_removed_simps [simp]:
  "sweep_store (count_removed e w) = sweep_store w" "sweep_trees (count_removed e w) = sweep_trees w"
  "removed_objects (sweep_outcome (count_removed e w)) = removed_objects (sweep_outcome w)"
  by (simp_all add: count_removed_def)

lemma drop_record_simps [simp]:
  "blobs (drop_record p s) = blobs s" "records (drop_record p s) = bt_remove p (records s)"
  by (simp_all add: drop_record_def)

lemma broken_record_drop:
  "bt_inv (records s) \<Longrightarrow> broken_record j (drop_record p s) v walk q \<longleftrightarrow> q \<noteq> p \<and> broken_record j s v walk q"
  using same_blobs_tree(3) [of "drop_record p s" s j v walk] by (auto simp: broken_record_def)

text \<open>After a real pass a record is left unless it was listed, removable and broken.\<close>

lemma sweep_results_real:
  assumes "acyclic_store j (sweep_store w)" "sound_verdicts j (sweep_store w) v {} (sweep_trees w)"
    and "\<And>p s. before_claim env p s = s" "bt_inv (records (sweep_store w))"
  shows "bt_inv (records (sweep_store (sweep_results env j v walk False es w))) \<and>
    removed_objects (sweep_outcome (sweep_results env j v walk False es w)) = removed_objects (sweep_outcome w) \<and>
    bt_get (records (sweep_store (sweep_results env j v walk False es w))) p =
      (if p \<in> entry_path ` set es \<and> removable env p \<and> broken_record j (sweep_store w) v walk p then None
       else bt_get (records (sweep_store w)) p)"
  using assms(1,2,4) unfolding sweep_results_def
proof (induction es arbitrary: w)
  case (Cons e es)
  from sweep_result_real [OF Cons.prems(1,2) assms(3), of walk e] obtain trees where
    step: "sound_verdicts j (sweep_store w) v {} trees"
    "sweep_result env j v walk False e w =
      (if removable env (entry_path e) \<and> broken_record j (sweep_store w) v walk (entry_path e)
       then count_removed e (w\<lparr>sweep_trees := trees, sweep_store := drop_record (entry_path e) (sweep_store w)\<rparr>)
       else w\<lparr>sweep_trees := trees\<rparr>)" by blast
  show ?case
  proof (cases "removable env (entry_path e) \<and> broken_record j (sweep_store w) v walk (entry_path e)")
    case True
    let ?w = "count_removed e (w\<lparr>sweep_trees := trees, sweep_store := drop_record (entry_path e) (sweep_store w)\<rparr>)"
    have "blobs (sweep_store ?w) = blobs (sweep_store w)" by simp
    note same = same_blobs_tree [OF this]
    have "acyclic_store j (sweep_store ?w)" "sound_verdicts j (sweep_store ?w) v {} (sweep_trees ?w)"
      using same Cons.prems(1) step(1) by (simp_all del: count_removed_simps(1)) 
    from Cons.IH [OF this] Cons.prems(3) True step(2) show ?thesis
      by (auto simp: broken_record_drop)
  next
    case False
    with Cons.IH [of "w\<lparr>sweep_trees := trees\<rparr>"] Cons.prems step show ?thesis by auto
  qed
qed simp

section \<open>A collection in its parts\<close>

definition evict_phase ::
  "store_forms \<Rightarrow> gc_env \<Rightarrow> nat \<Rightarrow> bool \<Rightarrow> gc_world \<Rightarrow> evictions \<times> string set \<times> store" where
  "evict_phase k env max_bytes dry_run w =
     (let objects = listed_objects env {} (cache w);
          live_bytes = total_size (objects @ listed_results env {} (cache w))
      in if max_bytes < live_bytes
         then gc_evict env dry_run (gc_roots k env (live_identities (scan_checkouts (env_host env) (checkouts w))) w)
                objects live_bytes max_bytes {} (cache w)
         else (\<lparr>evicted_objects = 0, evicted_bytes = 0, evicted_remaining = live_bytes\<rparr>, {}, cache w))"

definition sweep_phase ::
  "store_forms \<Rightarrow> gc_env \<Rightarrow> bool \<Rightarrow> gc_world \<Rightarrow> gc_outcome \<Rightarrow> evictions \<times> string set \<times> store \<Rightarrow> sweep" where
  "sweep_phase k env dry_run w out ev =
     (case ev of (evicted, v, s) \<Rightarrow>
        sweep_results (env_files env) (forms k) v (0 < evicted_objects evicted) dry_run (listed_results env {} (cache w))
          \<lparr>sweep_store = s, sweep_trees = Map.empty, sweep_live = evicted_remaining evicted,
           sweep_outcome = out\<lparr>removed_objects := evicted_objects evicted,
             removed_bytes := removed_bytes out + evicted_bytes evicted\<rparr>\<rparr>)"

lemma gc_parts:
  assumes "quiet env" "bt_inv (task_manifests w)"
    and "scan = scan_checkouts (env_host env) (checkouts w)"
    and "pruned = prune_task_manifests (env_manifests env) (env_now env) (live_identities scan) dry_run
        (task_manifests w) (manifest_locks w)"
    and "claims = prune_checkouts env dry_run (stale_records scan) w"
    and "swept = sweep_phase k env dry_run w
        (no_outcome\<lparr>removed_checkout_records := fst claims, removed_task_manifests := prune_count pruned,
          removed_bytes := prune_bytes pruned\<rparr>) (evict_phase k env max_bytes dry_run w)"
    and "session = prune_sessions (env_session_stuck env) (env_now env) dry_run retention (sessions w)"
  shows "gc_with_mode k env max_bytes dry_run {} retention w =
    ((sweep_outcome swept)\<lparr>removed_session_streams := pruned_streams session,
        removed_bytes := removed_bytes (sweep_outcome swept) + pruned_bytes session, remaining_bytes := sweep_live swept\<rparr>,
     (snd claims)\<lparr>task_manifests := prune_files pruned, manifest_locks := prune_locks pruned, cache := sweep_store swept,
        sessions := pruned_dir session,
        staging := prune_import_staging (env_staging_held env) (env_now env) dry_run (staging w)\<rparr>)"
proof -
  obtain n w1 where w1: "prune_checkouts env dry_run (stale_records scan) w = (n, w1)" by fastforce
  note same = prune_checkouts_world [OF w1]
  have roots: "gc_roots k env (live_identities scan) (w1\<lparr>task_manifests := prune_files (prune_task_manifests (env_manifests env)
      (env_now env) (live_identities scan) dry_run (task_manifests w1) (manifest_locks w1)), manifest_locks := locks'\<rparr>) =
      gc_roots k env (live_identities scan) w" for locks'
    using gc_roots_pruned [where env = env and w = w1 and k = k and live = "live_identities scan" and now = "env_now env" and
        dry_run = dry_run and locks = "manifest_locks w1" and locks' = locks', OF assms(1)]
      gc_roots_checkouts [of w1 w k env "live_identities scan"] same assms(2) by simp
  obtain ev v s where ev: "evict_phase k env max_bytes dry_run w = (ev, v, s)" by (cases "evict_phase k env max_bytes dry_run w") auto
  show ?thesis
    unfolding gc_with_mode_def Let_def assms(3) [symmetric] w1 prod.case roots
    using ev w1 assms(4-7) same
    by (auto simp: evict_phase_def sweep_phase_def Let_def assms(3) [symmetric] no_outcome_def split: prod.splits)
qed

lemma evict_phase_real:
  assumes "evict_phase k env max_bytes False w = (ev, v, s)" "bt_inv (blobs (cache w))"
    and "distinct (fst (env_listing env))"
  shows "v = {} \<and> records s = records (cache w) \<and> bt_inv (blobs s) \<and>
    (\<forall>p. bt_get (blobs s) p = None \<or> bt_get (blobs s) p = bt_get (blobs (cache w)) p)"
proof (cases "max_bytes < total_size (listed_objects env {} (cache w) @ listed_results env {} (cache w))")
  case True
  let ?rooted = "gc_roots k env (live_identities (scan_checkouts (env_host env) (checkouts w))) w"
  let ?objects = "listed_objects env {} (cache w)"
  let ?order = "eviction_order ?rooted ?objects"
  have "distinct (map entry_path ?objects)"
    using walk_files_distinct [OF assms(3), of "blobs (cache w)"] by (simp add: listed_objects_def)
  moreover have "mset (map entry_path ?order) = mset (map entry_path ?objects)" by (simp add: eviction_order_def)
  ultimately have distinct: "distinct (map entry_path ?order)" using mset_eq_imp_distinct_iff by blast
  obtain out bs where run: "evict_objects ?order ?rooted (total_size (?objects @ listed_results env {} (cache w))) max_bytes
      (remove (unlink_blocked (env_files env))) (blobs (cache w)) = (out, bs)" by fastforce
  from evict_loop_part [OF this [unfolded evict_objects_def] assms(2) distinct]
  have "bt_inv bs \<and> (\<forall>p. bt_get bs p = None \<or> bt_get bs p = bt_get (blobs (cache w)) p)" by auto
  moreover have "ev = out" "v = {}" "s = cache w\<lparr>blobs := bs\<rparr>"
    using assms(1) True run by (simp_all add: evict_phase_def Let_def gc_evict_def)
  ultimately show ?thesis by simp
next
  case False
  with assms(1,2) show ?thesis by (simp add: evict_phase_def Let_def)
qed

lemma child_of_sub:
  assumes "\<And>p. bt_get (blobs s') p = None \<or> bt_get (blobs s') p = bt_get (blobs s) p" "child_of j s' d c"
  shows "child_of j s d c"
proof (cases "cas_path d")
  case (Inr p)
  with assms(1) [of p] assms(2) show ?thesis by (auto simp: child_of_def read_directory_def read_blob_def split: option.splits)
qed (use assms(2) in \<open>simp add: child_of_def read_directory_def read_blob_def\<close>)

lemma acyclic_sub:
  assumes "acyclic_store j s" "\<And>p. bt_get (blobs s') p = None \<or> bt_get (blobs s') p = bt_get (blobs s) p"
  shows "acyclic_store j s'"
proof -
  have "(child_of j s)\<^sup>+\<^sup>+ d e" if "(child_of j s')\<^sup>+\<^sup>+ d e" for d e
    using that
    by (induction rule: tranclp_induct) (blast intro: child_of_sub [OF assms(2)] tranclp.intros)+
  with assms(1) show ?thesis by (auto simp: acyclic_store_def)
qed

lemma sound_verdicts_empty [simp]: "sound_verdicts j s v A Map.empty"
  by (simp add: sound_verdicts_def)


lemma sample_keys: "fst ` set (blobs sample_store) = sample_path ` {1, 2, 3, 4}"
  by (auto simp: sample_store_def put_blob_def empty_store_def)

lemma sample_directory_cases:
  assumes "read_directory sample_json sample_store d = Some dir"
  shows "d = sample_digest 1 \<or> d = sample_digest 3"
proof -
  from read_directory_stored [OF assms] obtain n where "cas_path d = Inr (sample_path n)"
    unfolding stored_digests_def sample_keys by auto
  then have "d = sample_digest n" using cas_path_inject sample_cas_path by blast
  with assms show ?thesis by (auto simp: sample_directories split: if_splits)
qed

lemma sample_child: "child_of sample_json sample_store d c \<longleftrightarrow> d = sample_digest 1 \<and> c = sample_digest 3"
  using sample_directory_cases [of d] sample_directories [of 1] sample_directories [of 3]
  by (auto simp: child_of_def split: option.splits)

lemma sample_acyclic: "acyclic_store sample_json sample_store"
proof -
  have "d = sample_digest 1 \<and> e = sample_digest 3" if "(child_of sample_json sample_store)\<^sup>+\<^sup>+ d e" for d e
    using that by (induction rule: tranclp_induct) (simp_all add: sample_child)
  moreover have "sample_digest 1 \<noteq> sample_digest 3" by simp
  ultimately show ?thesis unfolding acyclic_store_def by metis
qed

lemma sample_missing: "missing sample_store {} (sample_digest n) \<longleftrightarrow> n \<notin> {1, 2, 3, 4}"
  by (simp add: missing_def sample_cas_path map_of_eq_None_iff sample_keys image_iff)

lemma sample_files:
  "files_of sample_json sample_store (sample_digest 1) = {sample_digest 2}"
  "files_of sample_json sample_store (sample_digest 3) = {}"
  using sample_directories [of 1] sample_directories [of 3] by (simp_all add: files_of_def)

lemma sample_whole: "result_whole sample_json sample_store {} walk sample_result"
proof -
  have "tree_whole sample_json sample_store {} (sample_digest 3)"
    by (subst tree_whole_step) (simp add: directory_whole_def sample_child sample_files)
  then have "tree_whole sample_json sample_store {} (sample_digest 1)"
    by (subst tree_whole_step) (auto simp: directory_whole_def sample_child sample_files sample_missing simp del: One_nat_def)
  moreover have "named_directly sample_result = [sample_digest 4, sample_digest 1]"
    by (simp add: named_directly_def sample_result_def option_list_def)
  ultimately show ?thesis
    unfolding result_whole_def by (simp add: sample_missing sample_result_def del: One_nat_def)
qed


end
