(* ===== verification/Gc_Dry_Run.thy ===== *)
theory Gc_Dry_Run
  imports Gc_Results
begin

text \<open>
  The dry run of a collection. It changes nothing, and when nothing obstructs the real run it
  counts exactly what the real run removes: each phase of the two is compared, with the paths a dry
  run notes standing for the files the real run unlinks.
\<close>

section \<open>Eviction\<close>

text \<open>The blobs of a store without the noted paths.\<close>

definition without_noted :: "files \<Rightarrow> string set \<Rightarrow> files \<Rightarrow> bool" where
  "without_noted fs v fs' \<longleftrightarrow> (\<forall>p. bt_get fs' p = (if p \<in> v then None else bt_get fs p))"

lemma evict_loop_dry:
  assumes "without_noted fs0 v fs" "bt_inv fs" "distinct (map entry_path es)"
    and "\<forall>e \<in> set es. bt_get fs (entry_path e) \<noteq> None" "\<And>p. \<not> blocked p"
    and "evict_loop (\<lambda>p v. (Removed, insert p v)) rooted max_bytes bu out es v = (out1, v1)"
    and "evict_loop (remove blocked) rooted max_bytes bu out es fs = (out2, fs2)"
  shows "out1 = out2 \<and> without_noted fs0 v1 fs2"
  using assms(1-4,6,7)
proof (induction es arbitrary: bu out v fs)
  case (Cons e es)
  show ?case
  proof (cases "evicted_remaining out \<le> max_bytes \<or> entry_path e \<in> rooted \<and> bu")
    case True
    with Cons.prems show ?thesis by (auto split: if_splits)
  next
    case False
    let ?p = "entry_path e"
    have step: "remove blocked ?p fs = (Removed, bt_remove ?p fs)"
      using Cons.prems(4) assms(5) by (auto simp: remove_def)
    have "without_noted fs0 (insert ?p v) (bt_remove ?p fs)"
      using Cons.prems(1,2) by (simp add: without_noted_def)
    moreover have "\<forall>x \<in> set es. bt_get (bt_remove ?p fs) (entry_path x) \<noteq> None"
    proof
      fix x assume x: "x \<in> set es"
      then have "entry_path x \<in> entry_path ` set es" by (rule imageI)
      then have "entry_path x \<noteq> ?p" using Cons.prems(3) by auto
      with x Cons.prems(2,4) show "bt_get (bt_remove ?p fs) (entry_path x) \<noteq> None" by simp
    qed
    ultimately show ?thesis
      by (intro Cons.IH [of "insert ?p v" "bt_remove ?p fs"]) (use False Cons.prems(2,3,5,6) step in auto)
  qed
qed auto

lemma evict_phase_dry:
  assumes "evict_phase k env max_bytes True w = (ev1, v, s1)" "evict_phase k env max_bytes False w = (ev2, v2, s2)"
    and "bt_inv (blobs (cache w))" "distinct (fst (env_listing env))" "\<And>p. \<not> unlink_blocked (env_files env) p"
  shows "ev1 = ev2 \<and> s1 = cache w \<and> without_noted (blobs (cache w)) v (blobs s2)"
proof (cases "max_bytes < total_size (listed_objects env {} (cache w) @ listed_results env {} (cache w))")
  case True
  let ?rooted = "gc_roots k env (live_identities (scan_checkouts (env_host env) (checkouts w))) w"
  let ?objects = "listed_objects env {} (cache w)"
  let ?order = "eviction_order ?rooted ?objects"
  let ?live = "total_size (?objects @ listed_results env {} (cache w))"
  have "distinct (map entry_path ?objects)"
    using walk_files_distinct [OF assms(4), of "blobs (cache w)"] by (simp add: listed_objects_def)
  moreover have "mset (map entry_path ?order) = mset (map entry_path ?objects)" by (simp add: eviction_order_def)
  ultimately have distinct: "distinct (map entry_path ?order)" using mset_eq_imp_distinct_iff by blast
  have "set ?order = set ?objects" by (simp add: eviction_order_def)
  then have there: "\<forall>e \<in> set ?order. bt_get (blobs (cache w)) (entry_path e) \<noteq> None"
    by (auto simp: listed_objects_def set_walk_files)
  obtain o1 v1 where r1: "evict_objects ?order ?rooted ?live max_bytes (\<lambda>p v. (Removed, insert p v)) {} = (o1, v1)" by fastforce
  obtain o2 fs2 where r2: "evict_objects ?order ?rooted ?live max_bytes (remove (unlink_blocked (env_files env))) (blobs (cache w)) = (o2, fs2)"
    by fastforce
  have "without_noted (blobs (cache w)) {} (blobs (cache w))" by (simp add: without_noted_def)
  from evict_loop_dry [OF this assms(3) distinct there assms(5) r1 [unfolded evict_objects_def] r2 [unfolded evict_objects_def]]
  have both: "o1 = o2 \<and> without_noted (blobs (cache w)) v1 fs2" .
  have "evict_phase k env max_bytes True w = (o1, v1, cache w)"
    "evict_phase k env max_bytes False w = (o2, {}, cache w\<lparr>blobs := fs2\<rparr>)"
    using True r1 r2 by (simp_all add: evict_phase_def Let_def gc_evict_def)
  with assms(1,2) both show ?thesis by auto
next
  case False
  with assms(1,2) show ?thesis by (auto simp: evict_phase_def Let_def without_noted_def)
qed

section \<open>Dangling results\<close>

lemma missing_noted:
  "without_noted (blobs s) v (blobs s') \<Longrightarrow> missing s v d \<longleftrightarrow> missing s' {} d"
  by (auto simp: missing_def without_noted_def split: sum.split)

lemma directory_noted:
  assumes "without_noted (blobs s) v (blobs s')" "\<not> missing s v d"
  shows "read_directory j s d = read_directory j s' d"
  using assms by (auto simp: missing_def read_directory_def read_blob_def without_noted_def split: sum.splits)

lemma tree_whole_noted_half:
  assumes noted: "\<And>d. \<not> m d \<Longrightarrow> read_directory j s d = read_directory j s' d" "\<And>d. missing s v d \<longleftrightarrow> m d" "\<And>d. missing s' v' d \<longleftrightarrow> m d"
    and "tree_whole j s v d" "\<not> m d" "(child_of j s')\<^sup>*\<^sup>* d e"
  shows "(child_of j s)\<^sup>*\<^sup>* d e \<and> \<not> m e"
  using assms(6,5)
proof (induction rule: rtranclp_induct)
  case (step y z)
  then have y: "(child_of j s)\<^sup>*\<^sup>* d y" "\<not> m y" by simp_all
  then have "child_of j s y z" using step.hyps(2) noted(1) by (simp add: child_of_def)
  moreover from this y have "\<not> m z"
    using assms(4) noted(2) by (auto simp: tree_whole_def directory_whole_def tree_single Ball_def)
  ultimately show ?case using y by (auto intro: rtranclp.rtrancl_into_rtrancl)
qed simp

lemma tree_whole_noted_imp:
  assumes "\<And>d. \<not> m d \<Longrightarrow> read_directory j s d = read_directory j s' d" "\<And>d. missing s v d \<longleftrightarrow> m d" "\<And>d. missing s' v' d \<longleftrightarrow> m d"
    and "tree_whole j s v d" "\<not> m d"
  shows "tree_whole j s' v' d"
  unfolding tree_whole_def tree_single Ball_def
proof (intro allI impI)
  fix e assume "(child_of j s')\<^sup>*\<^sup>* d e"
  from tree_whole_noted_half [OF assms this] have e: "(child_of j s)\<^sup>*\<^sup>* d e" "\<not> m e" by simp_all
  then have "directory_whole j s v e" using assms(4) by (simp add: tree_whole_def tree_single Ball_def)
  with assms(1) [OF e(2)] assms(2,3) show "directory_whole j s' v' e"
    by (simp add: directory_whole_def files_of_def child_of_def)
qed

lemma bytes_whole_noted:
  assumes "without_noted (blobs s) v (blobs s')"
  shows "bytes_whole j s v walk bs \<longleftrightarrow> bytes_whole j s' {} walk bs"
proof -
  note m = missing_noted [OF assms] and d = directory_noted [OF assms, where j = j]
  have tree: "tree_whole j s v e \<longleftrightarrow> tree_whole j s' {} e" if "\<not> missing s v e" for e
    using tree_whole_noted_imp [of "missing s v" j s s' v "{}" e] tree_whole_noted_imp [of "missing s v" j s' s "{}" v e]
      that m d by metis
  have "result_whole j s v walk r \<longleftrightarrow> result_whole j s' {} walk r" for r
  proof (cases "output_root r")
    case (Some e)
    then have "e \<in> set (named_directly r)" by (simp add: named_directly_def option_list_def)
    with tree [of e] m Some show ?thesis by (auto simp: result_whole_def)
  qed (use m in \<open>simp add: result_whole_def\<close>)
  then show ?thesis by (simp add: bytes_whole_def)
qed

lemma broken_record_noted:
  assumes "without_noted (blobs s) v (blobs s')" "records s' = records s"
  shows "broken_record j s v walk p \<longleftrightarrow> broken_record j s' {} walk p"
  using bytes_whole_noted [OF assms(1)] assms(2) by (simp add: broken_record_def)

text \<open>Both passes over the results count the same entries.\<close>

definition counts_alike :: "sweep \<Rightarrow> sweep \<Rightarrow> bool" where
  "counts_alike w1 w2 \<longleftrightarrow> sweep_live w1 = sweep_live w2 \<and> sweep_outcome w1 = sweep_outcome w2"

lemma counts_alike_simps [simp]:
  "counts_alike (w1\<lparr>sweep_trees := t\<rparr>) w2 = counts_alike w1 w2" "counts_alike w1 (w2\<lparr>sweep_trees := t\<rparr>) = counts_alike w1 w2"
  "counts_alike w1 (w2\<lparr>sweep_store := s\<rparr>) = counts_alike w1 w2"
  "counts_alike w1 w2 \<Longrightarrow> counts_alike (count_removed e w1) (count_removed e w2)"
  by (simp_all add: counts_alike_def count_removed_def)

lemma sweep_results_dry:
  assumes "\<And>p s. before_claim env p s = s" "\<And>p. \<not> slot_claimed env p \<and> \<not> unlink_blocked env p"
    and "distinct (map entry_path es)"
    and "acyclic_store j (sweep_store w1)" "sound_verdicts j (sweep_store w1) v {} (sweep_trees w1)"
    and "acyclic_store j (sweep_store w2)" "sound_verdicts j (sweep_store w2) {} {} (sweep_trees w2)"
    and "bt_inv (records (sweep_store w2))" "counts_alike w1 w2"
    and "\<forall>e \<in> set es. broken_record j (sweep_store w1) v walk (entry_path e) = broken_record j (sweep_store w2) {} walk (entry_path e)"
  shows "counts_alike (sweep_results env j v walk True es w1) (sweep_results env j {} walk False es w2) \<and>
    sweep_store (sweep_results env j v walk True es w1) = sweep_store w1"
  using assms(3-10) unfolding sweep_results_def
proof (induction es arbitrary: w1 w2)
  case (Cons e es)
  let ?p = "entry_path e"
  from sweep_result_dry [OF Cons.prems(2,3), of env walk e] obtain t1 where
    dry: "sound_verdicts j (sweep_store w1) v {} t1"
    "sweep_result env j v walk True e w1 =
      (if \<not> unreadable env ?p \<and> broken_record j (sweep_store w1) v walk ?p
       then count_removed e (w1\<lparr>sweep_trees := t1\<rparr>) else w1\<lparr>sweep_trees := t1\<rparr>)" by blast
  from sweep_result_real [OF Cons.prems(4,5) assms(1), of walk e] obtain t2 where
    real: "sound_verdicts j (sweep_store w2) {} {} t2"
    "sweep_result env j {} walk False e w2 =
      (if removable env ?p \<and> broken_record j (sweep_store w2) {} walk ?p
       then count_removed e (w2\<lparr>sweep_trees := t2, sweep_store := drop_record ?p (sweep_store w2)\<rparr>)
       else w2\<lparr>sweep_trees := t2\<rparr>)" by blast
  have same: "removable env ?p \<and> broken_record j (sweep_store w2) {} walk ?p \<longleftrightarrow>
      \<not> unreadable env ?p \<and> broken_record j (sweep_store w1) v walk ?p"
    using Cons.prems(8) assms(2) by (simp add: removable_def)
  have others: "\<forall>x \<in> set es. entry_path x \<noteq> ?p" using Cons.prems(1) by (auto simp: image_iff)
  show ?case
  proof (cases "\<not> unreadable env ?p \<and> broken_record j (sweep_store w1) v walk ?p")
    case True
    let ?w1 = "count_removed e (w1\<lparr>sweep_trees := t1\<rparr>)"
    let ?w2 = "count_removed e (w2\<lparr>sweep_trees := t2, sweep_store := drop_record ?p (sweep_store w2)\<rparr>)"
    have "blobs (sweep_store ?w2) = blobs (sweep_store w2)" by simp
    note blobs = same_blobs_tree [OF this]
    have "counts_alike (fold (sweep_result env j v walk True) es ?w1) (fold (sweep_result env j {} walk False) es ?w2) \<and>
        sweep_store (fold (sweep_result env j v walk True) es ?w1) = sweep_store ?w1"
      by (rule Cons.IH) (use Cons.prems dry(1) real(1) blobs others in \<open>simp_all add: broken_record_drop\<close>)
    moreover have "sweep_result env j v walk True e w1 = ?w1" using dry(2) True by simp
    moreover have "sweep_result env j {} walk False e w2 = ?w2" using real(2) True same by simp
    ultimately show ?thesis by simp
  next
    case False
    have "counts_alike (fold (sweep_result env j v walk True) es (w1\<lparr>sweep_trees := t1\<rparr>))
          (fold (sweep_result env j {} walk False) es (w2\<lparr>sweep_trees := t2\<rparr>)) \<and>
        sweep_store (fold (sweep_result env j v walk True) es (w1\<lparr>sweep_trees := t1\<rparr>)) = sweep_store (w1\<lparr>sweep_trees := t1\<rparr>)"
      by (rule Cons.IH) (use Cons.prems dry(1) real(1) in simp_all)
    moreover have "sweep_result env j v walk True e w1 = w1\<lparr>sweep_trees := t1\<rparr>" using dry(2) False by auto
    moreover have "sweep_result env j {} walk False e w2 = w2\<lparr>sweep_trees := t2\<rparr>" using real(2) False same by auto
    ultimately show ?thesis by simp
  qed
qed simp

section \<open>Manifests and sessions\<close>

text \<open>A lock that is held has its file.\<close>

definition held_exist :: "manifest_answers \<Rightarrow> (string, nat) btree_map \<Rightarrow> bool" where
  "held_exist env locks \<longleftrightarrow> (\<forall>i. lock_held env i \<longrightarrow> bt_get locks (i @ ''.lock'') \<noteq> None)"

lemma prune_manifest_alike:
  assumes "\<And>i fs. merged_before env i fs = fs" "\<And>n. \<not> manifest_stuck env n"
    and "held_exist env (prune_locks w1)"
    and "bt_get (prune_files w1) name = bt_get (prune_files w2) name" "bt_inv (prune_files w2)"
    and "prune_count w1 = prune_count w2" "prune_bytes w1 = prune_bytes w2"
    and w1'_def: "w1' = prune_manifest env now live True name w1" and w2'_def: "w2' = prune_manifest env now live False name w2"
  shows "prune_count w1' = prune_count w2' \<and> prune_bytes w1' = prune_bytes w2' \<and>
    prune_files w1' = prune_files w1 \<and> prune_locks w1' = prune_locks w1 \<and> bt_inv (prune_files w2') \<and>
    (\<forall>n. n \<noteq> name \<longrightarrow> bt_get (prune_files w2') n = bt_get (prune_files w2) n)"
proof (cases "strip_suffix ''.json'' name")
  case None
  then show ?thesis using assms(5-7) by (simp add: w1'_def w2'_def prune_manifest_def)
next
  case (Some i)
  show ?thesis
  proof (cases "bt_get (prune_files w2) name")
    case None
    with Some show ?thesis using assms(4-7) by (simp add: w1'_def w2'_def prune_manifest_def)
  next
    case here: (Some f)
    let ?skip = "\<not> valid_task_identity i \<or> i \<in> live \<or> \<not> task_manifest_is_idle now (manifest_modified f)"
    have there: "bt_get (prune_files w1) name = Some f" using here assms(4) by simp
    have w1': "w1' = (if ?skip \<or> lock_held env i then w1
        else w1\<lparr>prune_count := prune_count w1 + 1, prune_bytes := prune_bytes w1 + manifest_size f\<rparr>)"
      using assms(3) [unfolded held_exist_def, rule_format, of i] unfolding w1'_def prune_manifest_def Some there by (cases "lock_held env i") auto
    have w2': "prune_count w2' = (if ?skip \<or> lock_held env i then prune_count w2 else prune_count w2 + 1)"
      "prune_bytes w2' = (if ?skip \<or> lock_held env i then prune_bytes w2 else prune_bytes w2 + manifest_size f)"
      "prune_files w2' = (if ?skip \<or> lock_held env i then prune_files w2 else bt_remove name (prune_files w2))"
      unfolding w2'_def prune_manifest_def Some here assms(1) claim_lock_def Let_def by (simp_all add: here assms(2))
    show ?thesis unfolding w1' w2' using assms(5-7) by simp
  qed
qed

lemma prune_manifests_dry:
  assumes "\<And>i fs. merged_before env i fs = fs" "\<And>n. \<not> manifest_stuck env n"
    and "held_exist env (prune_locks w1)"
    and "distinct names" "\<forall>n \<in> set names. bt_get (prune_files w1) n = bt_get (prune_files w2) n" "bt_inv (prune_files w2)"
    and "prune_count w1 = prune_count w2" "prune_bytes w1 = prune_bytes w2"
  shows "prune_count (fold (prune_manifest env now live True) names w1) = prune_count (fold (prune_manifest env now live False) names w2) \<and>
    prune_bytes (fold (prune_manifest env now live True) names w1) = prune_bytes (fold (prune_manifest env now live False) names w2) \<and>
    prune_files (fold (prune_manifest env now live True) names w1) = prune_files w1 \<and>
    prune_locks (fold (prune_manifest env now live True) names w1) = prune_locks w1"
  using assms(3-8)
proof (induction names arbitrary: w1 w2)
  case (Cons name names)
  let ?w1 = "prune_manifest env now live True name w1" and ?w2 = "prune_manifest env now live False name w2"
  have step: "prune_count ?w1 = prune_count ?w2 \<and> prune_bytes ?w1 = prune_bytes ?w2 \<and>
    prune_files ?w1 = prune_files w1 \<and> prune_locks ?w1 = prune_locks w1 \<and> bt_inv (prune_files ?w2) \<and>
    (\<forall>n. n \<noteq> name \<longrightarrow> bt_get (prune_files ?w2) n = bt_get (prune_files w2) n)"
    by (rule prune_manifest_alike [where env = env and name = name and now = now and live = live, OF assms(1,2)])
      (use Cons.prems in auto)
  have "\<forall>n \<in> set names. bt_get (prune_files ?w1) n = bt_get (prune_files ?w2) n"
    using step Cons.prems(2,3) by auto
  then have "prune_count (fold (prune_manifest env now live True) names ?w1) = prune_count (fold (prune_manifest env now live False) names ?w2) \<and>
      prune_bytes (fold (prune_manifest env now live True) names ?w1) = prune_bytes (fold (prune_manifest env now live False) names ?w2) \<and>
      prune_files (fold (prune_manifest env now live True) names ?w1) = prune_files ?w1 \<and>
      prune_locks (fold (prune_manifest env now live True) names ?w1) = prune_locks ?w1"
    by (intro Cons.IH) (use step Cons.prems in auto)
  with step show ?case by simp
qed simp

lemma prune_lock_counts [simp]:
  "prune_count (prune_lock env now live name w) = prune_count w" "prune_bytes (prune_lock env now live name w) = prune_bytes w"
  by (simp_all add: prune_lock_def split: option.split)

lemma fold_prune_lock_counts [simp]:
  "prune_count (fold (prune_lock env now live) names w) = prune_count w"
  "prune_bytes (fold (prune_lock env now live) names w) = prune_bytes w"
  by (induction names arbitrary: w) simp_all

lemma prune_task_manifests_dry:
  assumes "\<And>i fs. merged_before env i fs = fs" "\<And>n. \<not> manifest_stuck env n"
    and "held_exist env locks" "bt_inv ms"
  shows "prune_count (prune_task_manifests env now live True ms locks) = prune_count (prune_task_manifests env now live False ms locks)"
    "prune_bytes (prune_task_manifests env now live True ms locks) = prune_bytes (prune_task_manifests env now live False ms locks)"
    "prune_files (prune_task_manifests env now live True ms locks) = ms"
    "prune_locks (prune_task_manifests env now live True ms locks) = locks"
proof -
  let ?w = "\<lparr>prune_files = ms, prune_locks = locks, prune_count = 0, prune_bytes = 0\<rparr>"
  note p = prune_manifests_dry [where env = env and names = "map fst ms" and now = now and live = live and
      ?w1.0 = ?w and ?w2.0 = ?w, OF assms(1,2)]
  from p assms(3,4) bt_inv_distinct [OF assms(4)]
  show "prune_count (prune_task_manifests env now live True ms locks) = prune_count (prune_task_manifests env now live False ms locks)"
    "prune_bytes (prune_task_manifests env now live True ms locks) = prune_bytes (prune_task_manifests env now live False ms locks)"
    "prune_files (prune_task_manifests env now live True ms locks) = ms"
    "prune_locks (prune_task_manifests env now live True ms locks) = locks"
    by (simp_all add: prune_task_manifests_def Let_def)
qed

definition same_session :: "session_dir \<Rightarrow> session_dir \<Rightarrow> string \<Rightarrow> bool" where
  "same_session d1 d2 i \<longleftrightarrow>
     bt_get (session_streams d1) i = bt_get (session_streams d2) i \<and> bt_get (session_locks d1) i = bt_get (session_locks d2) i"

lemma prune_session_alike:
  assumes "\<And>i. \<not> stuck i" "same_session (pruned_dir w1) (pruned_dir w2) i"
    and "bt_inv (session_streams (pruned_dir w2))" "bt_inv (session_locks (pruned_dir w2))"
    and "pruned_streams w1 = pruned_streams w2" "pruned_bytes w1 = pruned_bytes w2"
    and w1'_def: "w1' = prune_session stuck now True retention surplus (n, i) w1"
    and w2'_def: "w2' = prune_session stuck now False retention surplus (n, i) w2"
  shows "pruned_streams w1' = pruned_streams w2' \<and> pruned_bytes w1' = pruned_bytes w2' \<and> pruned_dir w1' = pruned_dir w1 \<and>
    bt_inv (session_streams (pruned_dir w2')) \<and> bt_inv (session_locks (pruned_dir w2')) \<and>
    (\<forall>k. k \<noteq> i \<longrightarrow> same_session (pruned_dir w2) (pruned_dir w2') k)"
proof (cases "bt_get (session_streams (pruned_dir w2)) i")
  case None
  with assms(2) have "w1' = w1" "w2' = w2" by (simp_all add: w1'_def w2'_def prune_session_def same_session_def)
  with assms(3-6) show ?thesis by (simp add: same_session_def)
next
  case (Some f)
  let ?stale = "case session_max_age retention of None \<Rightarrow> False | Some limit \<Rightarrow> older_than now limit (stream_modified f)"
  let ?keep = "surplus \<le> n \<and> \<not> ?stale \<or> session_is_live (pruned_dir w2) i"
  have there: "bt_get (session_streams (pruned_dir w1)) i = Some f" using assms(2) Some by (simp add: same_session_def)
  have live: "session_is_live (pruned_dir w1) i = session_is_live (pruned_dir w2) i"
    using assms(2) by (simp add: session_is_live_def same_session_def)
  have w1': "w1' = (if ?keep then w1
      else w1\<lparr>pruned_streams := pruned_streams w1 + 1, pruned_bytes := pruned_bytes w1 + stream_size f\<rparr>)"
    unfolding w1'_def prune_session_def Let_def prod.case there option.case live by auto
  have w2': "w2' = (if ?keep then w2
      else w2\<lparr>pruned_dir := \<lparr>session_streams = bt_remove i (session_streams (pruned_dir w2)),
          session_locks = bt_remove i (session_locks (pruned_dir w2))\<rparr>,
        pruned_streams := pruned_streams w2 + 1, pruned_bytes := pruned_bytes w2 + stream_size f\<rparr>)"
    unfolding w2'_def prune_session_def Let_def prod.case Some option.case using assms(1) by auto
  show ?thesis
  proof (cases ?keep)
    case True
    then have "w1' = w1" "w2' = w2" using w1' w2' by (simp_all only: if_True)
    with assms(3-6) show ?thesis by (simp add: same_session_def)
  next
    case False
    note eqs = w1' [unfolded if_not_P [OF False]] w2' [unfolded if_not_P [OF False]]
    show ?thesis unfolding eqs using assms(3-6) by (simp add: same_session_def)
  qed
qed

lemma prune_each_session_dry:
  assumes "\<And>i. \<not> stuck i" "\<forall>i \<in> set ids. same_session (pruned_dir w1) (pruned_dir w2) i" "distinct ids"
    and "bt_inv (session_streams (pruned_dir w2))" "bt_inv (session_locks (pruned_dir w2))"
    and "pruned_streams w1 = pruned_streams w2" "pruned_bytes w1 = pruned_bytes w2"
  shows "pruned_streams (fold (prune_session stuck now True retention surplus) (List.enumerate n ids) w1) =
      pruned_streams (fold (prune_session stuck now False retention surplus) (List.enumerate n ids) w2) \<and>
    pruned_bytes (fold (prune_session stuck now True retention surplus) (List.enumerate n ids) w1) =
      pruned_bytes (fold (prune_session stuck now False retention surplus) (List.enumerate n ids) w2) \<and>
    pruned_dir (fold (prune_session stuck now True retention surplus) (List.enumerate n ids) w1) = pruned_dir w1"
  using assms(2-7)
proof (induction ids arbitrary: n w1 w2)
  case (Cons i ids)
  let ?w1 = "prune_session stuck now True retention surplus (n, i) w1"
  let ?w2 = "prune_session stuck now False retention surplus (n, i) w2"
  have step: "pruned_streams ?w1 = pruned_streams ?w2 \<and> pruned_bytes ?w1 = pruned_bytes ?w2 \<and> pruned_dir ?w1 = pruned_dir w1 \<and>
      bt_inv (session_streams (pruned_dir ?w2)) \<and> bt_inv (session_locks (pruned_dir ?w2)) \<and>
      (\<forall>k. k \<noteq> i \<longrightarrow> same_session (pruned_dir w2) (pruned_dir ?w2) k)"
    by (rule prune_session_alike [where stuck = stuck and i = i, OF assms(1)]) (use Cons.prems in auto)
  have others: "\<forall>k \<in> set ids. same_session (pruned_dir ?w1) (pruned_dir ?w2) k"
  proof
    fix k assume k: "k \<in> set ids"
    with Cons.prems(2) have "k \<noteq> i" by auto
    with step have "same_session (pruned_dir w2) (pruned_dir ?w2) k" "pruned_dir ?w1 = pruned_dir w1" by blast+
    moreover have "same_session (pruned_dir w1) (pruned_dir w2) k" using Cons.prems(1) k by simp
    ultimately show "same_session (pruned_dir ?w1) (pruned_dir ?w2) k" by (simp add: same_session_def)
  qed
  have "pruned_streams (fold (prune_session stuck now True retention surplus) (List.enumerate (Suc n) ids) ?w1) =
      pruned_streams (fold (prune_session stuck now False retention surplus) (List.enumerate (Suc n) ids) ?w2) \<and>
    pruned_bytes (fold (prune_session stuck now True retention surplus) (List.enumerate (Suc n) ids) ?w1) =
      pruned_bytes (fold (prune_session stuck now False retention surplus) (List.enumerate (Suc n) ids) ?w2) \<and>
    pruned_dir (fold (prune_session stuck now True retention surplus) (List.enumerate (Suc n) ids) ?w1) = pruned_dir ?w1"
    by (rule Cons.IH [OF others]) (use step Cons.prems(2) in auto)
  with step show ?case by simp
qed simp

lemma prune_sessions_dry:
  assumes "\<And>i. \<not> stuck i" "bt_inv (session_streams d)" "bt_inv (session_locks d)"
  shows "pruned_streams (prune_sessions stuck now True retention d) = pruned_streams (prune_sessions stuck now False retention d)"
    "pruned_bytes (prune_sessions stuck now True retention d) = pruned_bytes (prune_sessions stuck now False retention d)"
    "pruned_dir (prune_sessions stuck now True retention d) = d"
  using prune_each_session_dry [where stuck = stuck and ids = "map fst (session_streams d)" and
      ?w1.0 = "\<lparr>pruned_dir = d, pruned_streams = 0, pruned_bytes = 0\<rparr>" and ?w2.0 = "\<lparr>pruned_dir = d, pruned_streams = 0, pruned_bytes = 0\<rparr>", OF assms(1)]
    assms(2,3) bt_inv_distinct [OF assms(2)]
  by (simp_all add: prune_sessions_def Let_def same_session_def)

section \<open>The whole collection\<close>

text \<open>Nothing stands in the way of the real run: no refusal to unlink and no other process.\<close>

definition unobstructed :: "gc_env \<Rightarrow> gc_world \<Rightarrow> bool" where
  "unobstructed env w \<longleftrightarrow>
     quiet env \<and> (\<forall>p. \<not> unlink_blocked (env_files env) p \<and> \<not> slot_claimed (env_files env) p) \<and>
     (\<forall>n. \<not> manifest_stuck (env_manifests env) n) \<and> (\<forall>p. \<not> env_checkout_stuck env p) \<and>
     (\<forall>i. \<not> env_session_stuck env i) \<and> held_exist (env_manifests env) (manifest_locks w)"

definition world_inv :: "gc_world \<Rightarrow> bool" where
  "world_inv w \<longleftrightarrow>
     bt_inv (blobs (cache w)) \<and> bt_inv (records (cache w)) \<and> bt_inv (task_manifests w) \<and>
     bt_inv (session_streams (sessions w)) \<and> bt_inv (session_locks (sessions w))"

lemma listed_results_distinct:
  "distinct (snd (env_listing env)) \<Longrightarrow> distinct (map entry_path (listed_results env {} s))"
  by (simp add: listed_results_def walk_files_distinct)

lemma sweep_phase_dry:
  assumes clear: "unobstructed env w" and inv: "world_inv w"
    and listing: "distinct (fst (env_listing env))" "distinct (snd (env_listing env))"
    and acyclic: "acyclic_store (forms k) (cache w)"
  shows "counts_alike (sweep_phase k env True w out (evict_phase k env max_bytes True w))
      (sweep_phase k env False w out (evict_phase k env max_bytes False w)) \<and>
    sweep_store (sweep_phase k env True w out (evict_phase k env max_bytes True w)) = cache w"
proof -
  obtain ev1 v s1 where e1: "evict_phase k env max_bytes True w = (ev1, v, s1)"
    by (cases "evict_phase k env max_bytes True w") auto
  obtain ev2 v2 s2 where e2: "evict_phase k env max_bytes False w = (ev2, v2, s2)"
    by (cases "evict_phase k env max_bytes False w") auto
  have blobs: "bt_inv (blobs (cache w))" and recs: "bt_inv (records (cache w))" using inv by (simp_all add: world_inv_def)
  have free: "\<And>p. \<not> unlink_blocked (env_files env) p" "\<And>p. \<not> slot_claimed (env_files env) p \<and> \<not> unlink_blocked (env_files env) p"
    using clear by (simp_all add: unobstructed_def)
  have quiet: "\<And>p s. before_claim (env_files env) p s = s" using clear by (simp add: unobstructed_def quiet_def)
  note dry = evict_phase_dry [OF e1 e2 blobs listing(1) free(1)]
  note real = evict_phase_real [OF e2 blobs listing(1)]
  have acyclic2: "acyclic_store (forms k) s2" using acyclic_sub [OF acyclic] real by blast
  let ?walk = "0 < evicted_objects ev2"
  let ?start = "\<lambda>s. \<lparr>sweep_store = s, sweep_trees = Map.empty, sweep_live = evicted_remaining ev2,
      sweep_outcome = out\<lparr>removed_objects := evicted_objects ev2, removed_bytes := removed_bytes out + evicted_bytes ev2\<rparr>\<rparr>"
  have "counts_alike (sweep_results (env_files env) (forms k) v ?walk True (listed_results env {} (cache w)) (?start (cache w)))
        (sweep_results (env_files env) (forms k) {} ?walk False (listed_results env {} (cache w)) (?start s2)) \<and>
      sweep_store (sweep_results (env_files env) (forms k) v ?walk True (listed_results env {} (cache w)) (?start (cache w))) =
        sweep_store (?start (cache w))"
  proof (rule sweep_results_dry [OF quiet free(2) listed_results_distinct [OF listing(2)]])
    show "\<forall>e \<in> set (listed_results env {} (cache w)).
        broken_record (forms k) (sweep_store (?start (cache w))) v ?walk (entry_path e) =
        broken_record (forms k) (sweep_store (?start s2)) {} ?walk (entry_path e)"
      using broken_record_noted dry real by simp
  qed (use acyclic acyclic2 recs real in \<open>simp_all add: counts_alike_def\<close>)
  moreover have "ev1 = ev2" "s1 = cache w" "v2 = {}" using dry real by simp_all
  ultimately show ?thesis by (simp add: e1 e2 sweep_phase_def)
qed



end
