(* ===== verification/Depfile.thy ===== *)
theory Depfile
  imports Text Bytes
begin

text \<open>
  Dependency lists of C and C++ compiles (\<open>mbx-cache-cc/src/depfile.rs\<close>): reading and writing
  make rules, and the scan of a file for directives that make the assembler read more files. The
  text is a list of characters; make's escapes and the separators are all ASCII.
\<close>

section \<open>Reading a rule\<close>

datatype depfile_error = No_dependency_rule | Unterminated_continuation | Unmodeled_escape char
  | Trailing_escape | Unmodeled_variable char | Trailing_variable

abbreviation back_slash :: char where "back_slash \<equiv> CHR 0x5C"
abbreviation blank :: char where "blank \<equiv> CHR '' ''"
abbreviation hash_sign :: char where "hash_sign \<equiv> CHR ''#''"
abbreviation dollar :: char where "dollar \<equiv> CHR ''$''"

definition trim_end_tabs :: "string \<Rightarrow> string" where
  "trim_end_tabs s = rev (dropWhile (\<lambda>c. c = tab) (rev s))"

fun join_lines :: "bool \<Rightarrow> string list \<Rightarrow> string \<Rightarrow> depfile_error + string" where
  "join_lines continued [] joined = (if continued then Inl Unterminated_continuation else Inr joined)"
| "join_lines continued (l # ls) joined =
     (let trimmed = strip_cr l;
          (text, continues) = (case strip_suffix [back_slash] trimmed of Some t \<Rightarrow> (t, True) | None \<Rightarrow> (trimmed, False))
      in join_lines continues ls
           (joined @ (if continued then [blank] else []) @ trim_end_tabs text @ (if continues then [] else [newline])))"

definition join_continuations :: "string \<Rightarrow> depfile_error + string" where
  "join_continuations s = join_lines False (lines_of s) []"

text \<open>\<open>str::split_once\<close>.\<close>

fun split_once_at :: "string \<Rightarrow> string \<Rightarrow> (string \<times> string) option" where
  "split_once_at sep s =
     (case strip_prefix sep s of
        Some rest \<Rightarrow> Some ([], rest)
      | None \<Rightarrow>
          (case s of
             [] \<Rightarrow> None
           | c # cs \<Rightarrow> map_option (\<lambda>(a, b). (c # a, b)) (split_once_at sep cs)))"

declare split_once_at.simps [simp del]

definition RULE_SEPARATOR :: string where "RULE_SEPARATOR = '': ''"

text \<open>The scanner: what is left, the word being read and the words read.\<close>

fun split_escaped :: "string \<Rightarrow> string \<Rightarrow> string list \<Rightarrow> depfile_error + string list" where
  "split_escaped [] current files = Inr (if current = [] then files else files @ [current])"
| "split_escaped (c # cs) current files =
     (if c = blank \<or> c = tab then split_escaped cs [] (if current = [] then files else files @ [current])
      else if c = back_slash
      then (case cs of
              [] \<Rightarrow> Inl Trailing_escape
            | d # ds \<Rightarrow> if d = blank \<or> d = hash_sign then split_escaped ds (current @ [d]) files else Inl (Unmodeled_escape d))
      else if c = dollar
      then (case cs of
              [] \<Rightarrow> Inl Trailing_variable
            | d # ds \<Rightarrow> if d = dollar then split_escaped ds (current @ [d]) files else Inl (Unmodeled_variable d))
      else split_escaped cs (current @ [c]) files)"

definition split_escaped_prerequisites :: "string \<Rightarrow> depfile_error + string list" where
  "split_escaped_prerequisites words = split_escaped words [] []"

text \<open>\<open>str::split\<close> at any of a set of characters.\<close>

fun split_where :: "('a \<Rightarrow> bool) \<Rightarrow> 'a list \<Rightarrow> 'a list list" where
  "split_where P [] = [[]]"
| "split_where P (x # xs) =
     (if P x then [] # split_where P xs
      else (case split_where P xs of [] \<Rightarrow> [[x]] | w # ws \<Rightarrow> (x # w) # ws))"

definition split_prerequisites :: "string \<Rightarrow> depfile_error + string list" where
  "split_prerequisites words =
     (if back_slash \<notin> set words \<and> dollar \<notin> set words
      then Inr (filter (\<lambda>w. w \<noteq> []) (split_where (\<lambda>c. c = blank \<or> c = tab) words))
      else split_escaped_prerequisites words)"

definition parse_depfile :: "string \<Rightarrow> depfile_error + string list" where
  "parse_depfile contents =
     (case join_continuations contents of
        Inl e \<Rightarrow> Inl e
      | Inr joined \<Rightarrow>
          (case find_map (split_once_at RULE_SEPARATOR) (lines_of joined) of
             None \<Rightarrow> Inl No_dependency_rule
           | Some (_, prerequisites) \<Rightarrow> split_prerequisites prerequisites))"

section \<open>Writing a rule\<close>

record depfile_target =
  target_name :: string
  target_quoted :: bool

definition escape_char :: "char \<Rightarrow> string" where
  "escape_char c =
     (if c = blank then [back_slash, blank]
      else if c = hash_sign then [back_slash, hash_sign]
      else if c = dollar then [dollar, dollar]
      else [c])"

definition escape_make_word :: "string \<Rightarrow> string" where
  "escape_make_word w = concat (map escape_char w)"

definition target_text :: "depfile_target \<Rightarrow> string" where
  "target_text t = (if target_quoted t then escape_make_word (target_name t) else target_name t)"

definition render :: "depfile_target list \<Rightarrow> string list \<Rightarrow> string \<Rightarrow> bool \<Rightarrow> string" where
  "render targets files source_path phony_targets =
     join_with blank (map target_text targets) @ '':'' @
     concat (map (\<lambda>f. [blank, back_slash, newline, blank] @ escape_make_word f) files) @ [newline] @
     (if phony_targets
      then concat (map (\<lambda>f. escape_make_word f @ '':'' @ [newline]) (filter (\<lambda>f. f \<noteq> source_path) files))
      else [])"

section \<open>Splitting\<close>

lemma split_where_not_Nil [simp]: "split_where P xs \<noteq> []"
  by (induction xs) (auto split: list.splits)

lemma split_escaped_plain:
  assumes "back_slash \<notin> set words" "dollar \<notin> set words"
  shows "split_escaped words current files =
    Inr (files @ filter (\<lambda>w. w \<noteq> []) (case split_where (\<lambda>c. c = blank \<or> c = tab) words of [] \<Rightarrow> [] | w # ws \<Rightarrow> (current @ w) # ws))"
  using assms
proof (induction words arbitrary: current files)
  case (Cons c cs)
  obtain w ws where split: "split_where (\<lambda>c. c = blank \<or> c = tab) cs = w # ws"
    by (cases "split_where (\<lambda>c. c = blank \<or> c = tab) cs") simp_all
  show ?case
  proof (cases "c = blank \<or> c = tab")
    case True
    with Cons split show ?thesis by (auto simp: tab_def)
  next
    case False
    with Cons split show ?thesis by auto
  qed
qed simp

lemma split_escaped_word:
  assumes "back_slash \<notin> set w" "tab \<notin> set w"
  shows "split_escaped (escape_make_word w @ rest) current files = split_escaped rest (current @ w) files"
  using assms
proof (induction w arbitrary: current)
  case (Cons c w)
  have "escape_make_word (c # w) @ rest = escape_char c @ escape_make_word w @ rest" by (simp add: escape_make_word_def)
  moreover have "c \<noteq> back_slash" "c \<noteq> CHR 0x09" using Cons.prems by (auto simp: tab_def)
  ultimately show ?case using Cons by (simp add: escape_char_def tab_def)
qed (simp add: escape_make_word_def)

lemma split_prerequisites_reference: "split_prerequisites words = split_escaped_prerequisites words"
proof (cases "back_slash \<notin> set words \<and> dollar \<notin> set words")
  case True
  then show ?thesis
    using split_escaped_plain [of words "[]" "[]"]
    by (simp add: split_prerequisites_def split_escaped_prerequisites_def split: list.split)
next
  case False
  then show ?thesis by (auto simp: split_prerequisites_def)
qed

text \<open>The body of a rendered rule once its lines are joined.\<close>

definition joined_body :: "string list \<Rightarrow> string" where
  "joined_body files = concat (map (\<lambda>f. [blank, blank] @ escape_make_word f @ [blank]) (butlast files)) @
     [blank, blank] @ escape_make_word (last files)"

definition plain_path :: "string \<Rightarrow> bool" where
  "plain_path f \<longleftrightarrow> f \<noteq> [] \<and> back_slash \<notin> set f \<and> tab \<notin> set f \<and> newline \<notin> set f \<and> carriage_return \<notin> set f"

lemma split_body_words:
  assumes "\<forall>f \<in> set fs. plain_path f"
  shows "split_escaped (concat (map (\<lambda>f. [blank, blank] @ escape_make_word f @ [blank]) fs) @ rest) [] files =
    split_escaped rest [] (files @ fs)"
  using assms
proof (induction fs arbitrary: files)
  case (Cons f fs)
  then have "back_slash \<notin> set f" "tab \<notin> set f" "f \<noteq> []" by (simp_all add: plain_path_def)
  with Cons split_escaped_word [of f] show ?case by simp
qed simp

lemma split_joined_body:
  assumes "files \<noteq> []" "\<forall>f \<in> set files. plain_path f"
  shows "split_prerequisites (joined_body files) = Inr files"
proof -
  have last: "plain_path (last files)" using assms by simp
  then have "split_escaped ([blank, blank] @ escape_make_word (last files)) [] fs = Inr (fs @ [last files])" for fs
    using split_escaped_word [of "last files" "[]" "[]" fs] by (simp add: plain_path_def)
  moreover have "\<forall>f \<in> set (butlast files). plain_path f" using assms(2) in_set_butlastD by fast
  ultimately show ?thesis
    using split_body_words [of "butlast files" "[blank, blank] @ escape_make_word (last files)" "[]"] assms(1)
    by (simp add: split_prerequisites_reference split_escaped_prerequisites_def joined_body_def)
qed

section \<open>Lines\<close>

definition end_lines :: "string list \<Rightarrow> string" where
  "end_lines ls = concat (map (\<lambda>l. l @ [newline]) ls)"

lemma end_lines_simps [simp]:
  "end_lines [] = []" "end_lines (l # ls) = l @ newline # end_lines ls" "end_lines (ls @ ks) = end_lines ls @ end_lines ks"
  by (simp_all add: end_lines_def)

lemma split_end_lines: "\<forall>l \<in> set ls. newline \<notin> set l \<Longrightarrow> split_on newline (end_lines ls) = ls @ [[]]"
  by (induction ls) (simp_all add: split_on_append)

lemma lines_of_end_lines: "\<forall>l \<in> set ls. newline \<notin> set l \<Longrightarrow> lines_of (end_lines ls) = map strip_cr ls"
  by (simp add: lines_of_def split_end_lines butlast_append)

lemma strip_cr_other: "last l \<noteq> carriage_return \<Longrightarrow> strip_cr l = l"
  by (simp add: strip_cr_def)

lemma trim_end_tabs_other: "l = [] \<or> last l \<noteq> tab \<Longrightarrow> trim_end_tabs l = l"
  by (cases l rule: rev_cases) (auto simp: trim_end_tabs_def)

lemma strip_suffix_other: "l = [] \<or> last l \<noteq> c \<Longrightarrow> strip_suffix [c] l = None"
  by (cases "strip_suffix [c] l") (auto simp: strip_suffix_Some)

lemma strip_suffix_snoc [simp]: "strip_suffix [c] (l @ [c]) = Some l"
  by (simp add: strip_suffix_Some)

lemma escape_make_word_simps [simp]:
  "escape_make_word [] = []" "escape_make_word (v @ w) = escape_make_word v @ escape_make_word w"
  by (simp_all add: escape_make_word_def)

lemma escape_not_Nil: "w \<noteq> [] \<Longrightarrow> escape_make_word w \<noteq> []"
  by (cases w) (auto simp: escape_make_word_def escape_char_def)

lemma last_escape: "w \<noteq> [] \<Longrightarrow> last (escape_make_word w) = last w"
  by (cases w rule: rev_cases) (auto simp: escape_make_word_def escape_char_def)

lemma set_escape: "set (escape_make_word w) \<subseteq> set w \<union> {back_slash}"
  by (induction w) (auto simp: escape_make_word_def escape_char_def split: if_splits)

lemma plain_path_last:
  assumes "plain_path f"
  shows "last (escape_make_word f) \<notin> {back_slash, tab, newline, carriage_return}" "newline \<notin> set (escape_make_word f)"
proof -
  have "last f \<in> set f" using assms by (simp add: plain_path_def)
  with assms have "last f \<notin> {back_slash, tab, newline, carriage_return}"
    unfolding plain_path_def by (metis insertE emptyE)
  with assms show "last (escape_make_word f) \<notin> {back_slash, tab, newline, carriage_return}"
    by (simp add: plain_path_def last_escape)
  show "newline \<notin> set (escape_make_word f)" using set_escape [of f] assms by (auto simp: plain_path_def newline_def)
qed

text \<open>The lines of a rendered rule.\<close>

definition file_line :: "string \<Rightarrow> string" where
  "file_line f = blank # escape_make_word f"

definition rule_lines :: "string \<Rightarrow> string list \<Rightarrow> string list" where
  "rule_lines t files =
     (t @ '':'' @ [blank, back_slash]) # map (\<lambda>f. file_line f @ [blank, back_slash]) (butlast files) @ [file_line (last files)]"

definition phony_lines :: "string list \<Rightarrow> string \<Rightarrow> string list" where
  "phony_lines files source_path = map (\<lambda>f. escape_make_word f @ '':'') (filter (\<lambda>f. f \<noteq> source_path) files)"

lemma render_lines:
  assumes "files \<noteq> []"
  shows "render targets files source_path phony =
    end_lines (rule_lines (join_with blank (map target_text targets)) files @ (if phony then phony_lines files source_path else []))"
proof -
  have "concat (map (\<lambda>f. [blank, back_slash, newline, blank] @ escape_make_word f) files) @ [newline] =
      [blank, back_slash] @ [newline] @ end_lines (map (\<lambda>f. file_line f @ [blank, back_slash]) (butlast files) @ [file_line (last files)])"
    using assms by (induction files rule: induct_list012) (simp_all add: file_line_def)
  moreover have "concat (map (\<lambda>f. escape_make_word f @ '':'' @ [newline]) fs) = end_lines (map (\<lambda>f. escape_make_word f @ '':'') fs)" for fs
    by (induction fs) simp_all
  ultimately show ?thesis by (simp add: render_def rule_lines_def phony_lines_def)
qed

lemma join_ended_lines:
  assumes "\<forall>l \<in> set ls. l \<noteq> [] \<and> last l \<notin> {back_slash, tab, carriage_return}"
  shows "join_lines False ls joined = Inr (joined @ end_lines ls)"
  using assms by (induction ls arbitrary: joined) (simp_all add: strip_cr_other strip_suffix_other trim_end_tabs_other)

lemma join_continued_files:
  "join_lines True (map (\<lambda>f. file_line f @ [blank, back_slash]) fs @ ls) joined =
     join_lines True ls (joined @ concat (map (\<lambda>f. [blank, blank] @ escape_make_word f @ [blank]) fs))"
proof (induction fs arbitrary: joined)
  case (Cons f fs)
  have "file_line f @ [blank, back_slash] = (file_line f @ [blank]) @ [back_slash]" by simp
  then have "strip_suffix [back_slash] (file_line f @ [blank, back_slash]) = Some (file_line f @ [blank])"
    by (simp only: strip_suffix_snoc)
  with Cons show ?case
    by (simp add: strip_cr_other carriage_return_def trim_end_tabs_other tab_def) (simp add: file_line_def)
qed simp

lemma join_rule_lines:
  assumes "files \<noteq> []" "\<forall>f \<in> set files. plain_path f"
    and "\<forall>l \<in> set ls. l \<noteq> [] \<and> last l \<notin> {back_slash, tab, carriage_return}"
  shows "join_lines False (rule_lines t files @ ls) [] = Inr (end_lines ((t @ RULE_SEPARATOR @ joined_body files) # ls))"
proof -
  have "t @ '':'' @ [blank, back_slash] = (t @ RULE_SEPARATOR) @ [back_slash]" by (simp add: RULE_SEPARATOR_def)
  then have first: "strip_suffix [back_slash] (t @ '':'' @ [blank, back_slash]) = Some (t @ RULE_SEPARATOR)"
    by (simp only: strip_suffix_snoc)
  have "plain_path (last files)" using assms by simp
  note last = plain_path_last [OF this] and ne = escape_not_Nil [of "last files"]
  have "last (file_line (last files)) \<notin> {back_slash, tab, newline, carriage_return}"
    using last ne \<open>plain_path (last files)\<close> by (simp add: file_line_def plain_path_def)
  then have end_line: "strip_cr (file_line (last files)) = file_line (last files)"
    "strip_suffix [back_slash] (file_line (last files)) = None" "trim_end_tabs (file_line (last files)) = file_line (last files)"
    by (simp_all add: strip_cr_other strip_suffix_other trim_end_tabs_other)
  have start: "join_lines False (rule_lines t files @ ls) [] =
      join_lines True (map (\<lambda>f. file_line f @ [blank, back_slash]) (butlast files) @ file_line (last files) # ls) (t @ RULE_SEPARATOR)"
    unfolding rule_lines_def using first
    by (simp add: strip_cr_other carriage_return_def trim_end_tabs_other tab_def RULE_SEPARATOR_def)
  show ?thesis
    unfolding start join_continued_files using end_line join_ended_lines [OF assms(3)]
    by (simp add: joined_body_def file_line_def)
qed

lemma split_once_first:
  assumes "split_once_at RULE_SEPARATOR t = None"
  shows "split_once_at RULE_SEPARATOR (t @ RULE_SEPARATOR @ r) = Some (t, r)"
  using assms
proof (induction t)
  case Nil
  show ?case by (subst split_once_at.simps) simp
next
  case (Cons c t)
  have rest: "strip_prefix RULE_SEPARATOR (c # t) = None" "split_once_at RULE_SEPARATOR t = None"
    using Cons.prems by (subst (asm) split_once_at.simps; simp split: option.splits)+
  then have "strip_prefix RULE_SEPARATOR ((c # t) @ RULE_SEPARATOR @ r) = None"
    by (cases t) (auto simp: RULE_SEPARATOR_def split: if_splits)
  with Cons.IH [OF rest(2)] show ?case by (subst split_once_at.simps) simp
qed

text \<open>
  C39. A dependency list written for the caller reads back as the files it names. For any targets whose
  text has no line break and no rule separator, and any nonempty list of paths that avoid the
  characters make cannot escape, spaces, number signs and dollar signs included, with or without
  the phony rules, and whatever the source file is.
\<close>

theorem rendered_depfile_parses:
  assumes "files \<noteq> []" and "\<forall>f \<in> set files. plain_path f"
    and "newline \<notin> set (join_with blank (map target_text targets))"
    and "split_once_at RULE_SEPARATOR (join_with blank (map target_text targets)) = None"
  shows "parse_depfile (render targets files source_path phony) = Inr files"
proof -
  let ?t = "join_with blank (map target_text targets)"
  let ?phony = "if phony then phony_lines files source_path else []"
  have phony: "\<forall>l \<in> set ?phony. l \<noteq> [] \<and> last l \<notin> {back_slash, tab, carriage_return} \<and> newline \<notin> set l"
    using assms(2) plain_path_last(2) by (auto simp: phony_lines_def tab_def carriage_return_def newline_def)
  have rule: "\<forall>l \<in> set (rule_lines ?t files). newline \<notin> set l \<and> last l \<noteq> carriage_return"
  proof -
    have "plain_path (last files)" "\<forall>f \<in> set (butlast files). plain_path f"
      using assms(1,2) by (simp_all add: in_set_butlastD)
    with assms(3) plain_path_last show ?thesis
      by (auto simp: rule_lines_def file_line_def carriage_return_def newline_def escape_not_Nil plain_path_def)
  qed
  have lines: "lines_of (render targets files source_path phony) = rule_lines ?t files @ ?phony"
    unfolding render_lines [OF assms(1)] using rule phony
    by (subst lines_of_end_lines) (auto simp: strip_cr_other intro!: map_idI)
  have body: "newline \<notin> set (joined_body files)" "last (?t @ RULE_SEPARATOR @ joined_body files) \<noteq> carriage_return"
  proof -
    have last: "plain_path (last files)" and init: "\<forall>f \<in> set (butlast files). plain_path f"
      using assms(1,2) by (simp_all add: in_set_butlastD)
    with plain_path_last(2) show "newline \<notin> set (joined_body files)" by (auto simp: joined_body_def newline_def)
    show "last (?t @ RULE_SEPARATOR @ joined_body files) \<noteq> carriage_return"
      using plain_path_last(1) [OF last] escape_not_Nil [of "last files"] last by (auto simp: joined_body_def plain_path_def)
  qed
  have "join_continuations (render targets files source_path phony) =
      Inr (end_lines ((?t @ RULE_SEPARATOR @ joined_body files) # ?phony))"
    unfolding join_continuations_def lines using join_rule_lines [OF assms(1,2)] phony by blast
  moreover have "lines_of (end_lines ((?t @ RULE_SEPARATOR @ joined_body files) # ?phony)) =
      (?t @ RULE_SEPARATOR @ joined_body files) # ?phony"
    using body phony assms(3)
    by (subst lines_of_end_lines) (auto simp: strip_cr_other RULE_SEPARATOR_def newline_def intro!: map_idI)
  ultimately show ?thesis
    by (simp add: parse_depfile_def split_once_first [OF assms(4)] split_joined_body [OF assms(1,2)])
qed

theorem rendered_depfile_parses_witness:
  "parse_depfile (render [\<lparr>target_name = ''a b.o'', target_quoted = True\<rparr>] [''x y.c'', ''p$q.h'', ''#.h''] ''x y.c'' True) =
     Inr [''x y.c'', ''p$q.h'', ''#.h'']"
  by (rule rendered_depfile_parses)
    (simp_all add: plain_path_def target_text_def escape_make_word_def escape_char_def newline_def tab_def carriage_return_def
      split_once_at.simps RULE_SEPARATOR_def)

end
