(* ===== verification/Include_Manifest.thy ===== *)
theory Include_Manifest
  imports Text Ordered_Map "HOL-Library.Option_ord" "HOL-Library.Product_Lexorder" "HOL-Library.Multiset"
begin

text \<open>
  What a C or C++ compile could have read besides the files it names
  (\<open>mbx-cache-cc/src/depfile.rs\<close>): the scan of a source for directives that make the assembler
  read another file, the smallest set of include directories that covers all of them, and the
  digest of the includable names below each. Bytes are characters. The file system answers
  through parameters: \<open>symlink_metadata\<close> and the tree that \<open>read_dir\<close> walks.
\<close>

datatype cc_bypass_reason = Input_read | Too_many_inputs | Non_utf8_path

section \<open>The scan for assembler directives\<close>

definition to_ascii_lowercase :: "char \<Rightarrow> char" where
  "to_ascii_lowercase c = (if CHR ''A'' \<le> c \<and> c \<le> CHR ''Z'' then char_of (of_char c + 32 :: nat) else c)"

definition to_ascii_uppercase :: "char \<Rightarrow> char" where
  "to_ascii_uppercase c = (if CHR ''a'' \<le> c \<and> c \<le> CHR ''z'' then char_of (of_char c - 32 :: nat) else c)"

definition eq_ignore_ascii_case :: "string \<Rightarrow> string \<Rightarrow> bool" where
  "eq_ignore_ascii_case v w = (map to_ascii_lowercase v = map to_ascii_lowercase w)"

definition ASSEMBLER_INPUT_DIRECTIVES :: "string list" where
  "ASSEMBLER_INPUT_DIRECTIVES = [''.include'', ''.incbin'', ''.sinclude'']"

definition longest :: nat where
  "longest = Max (set (map length ASSEMBLER_INPUT_DIRECTIVES))"

text \<open>The test of one needle: look for its letter in either case, then for the whole token.\<close>

definition window_has :: "string \<Rightarrow> string \<Rightarrow> bool" where
  "window_has window needle = list_ex (\<lambda>offset.
     (window ! offset = needle ! 1 \<or> window ! offset = to_ascii_uppercase (needle ! 1)) \<and>
     (case checked_sub offset 1 of
        None \<Rightarrow> False
      | Some start \<Rightarrow> start + length needle \<le> length window \<and>
          eq_ignore_ascii_case (take (length needle) (drop start window)) needle)) [0..<length window]"

text \<open>The answers of \<open>read\<close> on the file: \<^term>\<open>None\<close> is an error, an empty chunk the end.\<close>

fun scan_loop :: "string \<Rightarrow> string option list \<Rightarrow> cc_bypass_reason + bool" where
  "scan_loop window [] = Inr False"
| "scan_loop window (None # reads) = Inl Input_read"
| "scan_loop window (Some chunk # reads) =
     (if chunk = [] then Inr False
      else let window = window @ chunk in
        if list_ex (window_has window) ASSEMBLER_INPUT_DIRECTIVES then Inr True
        else scan_loop (drop (saturating_sub (length window) (saturating_sub longest 1)) window) reads)"

definition contains_assembler_input_directive :: "string option list option \<Rightarrow> cc_bypass_reason + bool" where
  "contains_assembler_input_directive opened = (case opened of None \<Rightarrow> Inl Input_read | Some reads \<Rightarrow> scan_loop [] reads)"

text \<open>The reference: the token stands somewhere in the whole file.\<close>

definition occurs :: "string \<Rightarrow> string \<Rightarrow> bool" where
  "occurs needle s = list_ex (\<lambda>start. start + length needle \<le> length s \<and>
     eq_ignore_ascii_case (take (length needle) (drop start s)) needle) [0..<Suc (length s)]"

lemma occurs_iff: "occurs needle s \<longleftrightarrow> (\<exists>start. start + length needle \<le> length s \<and>
    eq_ignore_ascii_case (take (length needle) (drop start s)) needle)"
proof -
  have "start \<in> set [0..<Suc (length s)]" if "start + length needle \<le> length s" for start
    using that by (simp only: set_upt atLeastLessThan_iff) linarith
  then show ?thesis unfolding occurs_def list_ex_iff by blast
qed

lemma occurs_parts: "occurs needle s \<longleftrightarrow> (\<exists>u v w. s = u @ v @ w \<and> eq_ignore_ascii_case v needle)"
proof
  assume "occurs needle s"
  then obtain start where start: "eq_ignore_ascii_case (take (length needle) (drop start s)) needle"
    unfolding occurs_iff by blast
  have "s = take start s @ take (length needle) (drop start s) @ drop (length needle) (drop start s)"
    by (metis append_take_drop_id)
  with start show "\<exists>u v w. s = u @ v @ w \<and> eq_ignore_ascii_case v needle" by blast
next
  assume "\<exists>u v w. s = u @ v @ w \<and> eq_ignore_ascii_case v needle"
  then obtain u v w where parts: "s = u @ v @ w" "eq_ignore_ascii_case v needle" by blast
  then have "length v = length needle" unfolding eq_ignore_ascii_case_def by (metis length_map)
  with parts show "occurs needle s" unfolding occurs_iff by (intro exI [of _ "length u"]) simp
qed

lemma lowercase_eq_letter:
  assumes "CHR ''a'' \<le> d" "d \<le> CHR ''z''" "to_ascii_lowercase c = to_ascii_lowercase d"
  shows "c = d \<or> c = to_ascii_uppercase d"
proof -
  have code: "of_char e = (of_char e :: nat)" "c = e \<longleftrightarrow> (of_char c :: nat) = of_char e" for e by simp_all
  have d: "97 \<le> (of_char d :: nat)" "(of_char d :: nat) \<le> 122"
    using assms(1,2) by (simp_all add: less_eq_char_def)
  then have low: "to_ascii_lowercase d = d" by (simp add: to_ascii_lowercase_def less_eq_char_def)
  show ?thesis
  proof (cases "CHR ''A'' \<le> c \<and> c \<le> CHR ''Z''")
    case True
    then have c: "65 \<le> (of_char c :: nat)" "(of_char c :: nat) \<le> 90" by (simp_all add: less_eq_char_def)
    have "d = char_of (of_char c + 32 :: nat)" using assms(3) True low by (simp add: to_ascii_lowercase_def)
    then have "(of_char d :: nat) = of_char c + 32" using c by (simp add: of_char_of take_bit_eq_mod)
    then have "(of_char c :: nat) = of_char d - 32" by simp
    then have "c = char_of (of_char d - 32 :: nat)" by (metis char_of_char)
    then show ?thesis using assms(1,2) by (simp add: to_ascii_uppercase_def)
  next
    case False
    with assms(3) low show ?thesis by (auto simp: to_ascii_lowercase_def split: if_splits)
  qed
qed

text \<open>A needle of at least two bytes whose second is a small letter is found by its letter.\<close>

lemma window_has_occurs:
  assumes "2 \<le> length needle" "CHR ''a'' \<le> needle ! 1" "needle ! 1 \<le> CHR ''z''"
  shows "window_has window needle = occurs needle window"
proof
  assume "window_has window needle"
  then show "occurs needle window"
    unfolding window_has_def list_ex_iff occurs_iff by (auto split: option.splits)
next
  assume "occurs needle window"
  then obtain start where start: "start + length needle \<le> length window"
    and eq: "eq_ignore_ascii_case (take (length needle) (drop start window)) needle"
    unfolding occurs_iff by blast
  have "map to_ascii_lowercase (take (length needle) (drop start window)) ! 1 = map to_ascii_lowercase needle ! 1"
    using eq by (simp add: eq_ignore_ascii_case_def)
  then have "to_ascii_lowercase (window ! Suc start) = to_ascii_lowercase (needle ! 1)"
    using assms(1) start by simp
  from lowercase_eq_letter [OF assms(2,3) this] start eq assms(1) show "window_has window needle"
    unfolding window_has_def list_ex_iff by (intro bexI [of _ "Suc start"]) (auto simp: checked_sub_def)
qed

lemma directive_shape:
  assumes "needle \<in> set ASSEMBLER_INPUT_DIRECTIVES"
  shows "2 \<le> length needle" "CHR ''a'' \<le> needle ! 1" "needle ! 1 \<le> CHR ''z''" "length needle \<le> longest"
  using assms by (auto simp: ASSEMBLER_INPUT_DIRECTIVES_def longest_def less_eq_char_def)

text \<open>Only the last bytes of what was read can begin a token that the next chunk completes.\<close>

lemma occurs_more: "occurs needle p \<Longrightarrow> occurs needle (p @ q)" "occurs needle q \<Longrightarrow> occurs needle (p @ q)"
  unfolding occurs_parts by (metis append.assoc)+

lemma occurs_append:
  assumes "length needle \<le> n" "\<not> occurs needle p"
  shows "occurs needle (drop (length p - (n - 1)) p @ chunk) = occurs needle (p @ chunk)"
proof
  let ?k = "length p - (n - 1)"
  have "p @ chunk = take ?k p @ (drop ?k p @ chunk)" by simp
  then show "occurs needle (p @ chunk)" if "occurs needle (drop ?k p @ chunk)"
    using occurs_more(2) [OF that] by metis
next
  let ?k = "length p - (n - 1)"
  assume "occurs needle (p @ chunk)"
  then obtain u v w where parts: "p @ chunk = u @ v @ w" "eq_ignore_ascii_case v needle"
    unfolding occurs_parts by blast
  then have v: "length v = length needle" unfolding eq_ignore_ascii_case_def by (metis length_map)
  have "\<not> length (u @ v) \<le> length p"
  proof
    assume "length (u @ v) \<le> length p"
    moreover have "prefix (u @ v) (p @ chunk)" using parts(1) by (simp add: prefix_def)
    ultimately have "prefix (u @ v) p" by (meson prefix_length_prefix prefix_prefix prefix_order.order_refl)
    then have "\<exists>w. p = u @ v @ w" by (auto simp: prefix_def)
    with parts(2) assms(2) show False unfolding occurs_parts by blast
  qed
  then have "?k \<le> length u" using v assms(1) by simp
  then have "drop ?k p @ chunk = drop ?k u @ v @ w"
    using arg_cong [OF parts(1), of "drop ?k"] by simp
  with parts(2) show "occurs needle (drop ?k p @ chunk)" unfolding occurs_parts by blast
qed

lemma any_window_has:
  "list_ex (window_has w) ASSEMBLER_INPUT_DIRECTIVES = list_ex (\<lambda>needle. occurs needle w) ASSEMBLER_INPUT_DIRECTIVES"
  unfolding list_ex_iff using window_has_occurs directive_shape(1-3) by blast

lemma scan_loop_searches:
  assumes "\<forall>chunk \<in> set chunks. chunk \<noteq> []"
    and "\<not> list_ex (\<lambda>needle. occurs needle p) ASSEMBLER_INPUT_DIRECTIVES"
  shows "scan_loop (drop (length p - (longest - 1)) p) (map Some chunks) =
    Inr (list_ex (\<lambda>needle. occurs needle (p @ concat chunks)) ASSEMBLER_INPUT_DIRECTIVES)"
  using assms
proof (induction chunks arbitrary: p)
  case (Cons chunk chunks)
  let ?w = "drop (length p - (longest - 1)) p @ chunk"
  have found: "occurs needle ?w = occurs needle (p @ chunk)" if "needle \<in> set ASSEMBLER_INPUT_DIRECTIVES" for needle
    using that Cons.prems(2) directive_shape [OF that] by (intro occurs_append) (auto simp: list_ex_iff)
  show ?case
  proof (cases "list_ex (\<lambda>needle. occurs needle (p @ chunk)) ASSEMBLER_INPUT_DIRECTIVES")
    case True
    then have "list_ex (\<lambda>needle. occurs needle ((p @ chunk) @ concat chunks)) ASSEMBLER_INPUT_DIRECTIVES"
      using occurs_more(1) unfolding list_ex_iff by blast
    with True found Cons.prems(1) show ?thesis by (simp add: any_window_has Let_def) (simp add: list_ex_iff)
  next
    case False
    then have no: "\<not> list_ex (window_has ?w) ASSEMBLER_INPUT_DIRECTIVES"
      using found unfolding any_window_has by (auto simp: list_ex_iff)
    have "drop (length ?w - (longest - 1)) ?w = drop (length (p @ chunk) - (longest - 1)) (p @ chunk)"
    proof -
      have "?w = drop (length p - (longest - 1)) (p @ chunk)" by simp
      then show ?thesis by (simp only: drop_drop length_drop length_append) (rule arg_cong2 [of _ _ _ _ drop]; simp)
    qed
    with no Cons.IH [OF _ False] Cons.prems(1) show ?thesis by (simp add: Let_def)
  qed
qed simp

text \<open>
  C38. Reading a source piece by piece misses no directive. However the reads divide the file, the scan
  that keeps only the last bytes of its window answers exactly whether one of the directives
  stands in the file, in any mixture of cases and also across the seam of two or more reads.
\<close>

theorem scan_finds_split_directives:
  assumes "\<forall>chunk \<in> set chunks. chunk \<noteq> []"
  shows "contains_assembler_input_directive (Some (map Some chunks)) =
    Inr (list_ex (\<lambda>needle. occurs needle (concat chunks)) ASSEMBLER_INPUT_DIRECTIVES)"
proof -
  have "\<not> list_ex (\<lambda>needle. occurs needle []) ASSEMBLER_INPUT_DIRECTIVES"
    by (simp add: ASSEMBLER_INPUT_DIRECTIVES_def occurs_def)
  from scan_loop_searches [OF assms this] show ?thesis by (simp add: contains_assembler_input_directive_def)
qed

theorem scan_finds_split_directives_witness:
  "contains_assembler_input_directive (Some (map Some [''x .In'', ''c'', ''Bin y''])) = Inr True"
  using scan_finds_split_directives [of "[''x .In'', ''c'', ''Bin y'']"]
  by (simp add: ASSEMBLER_INPUT_DIRECTIVES_def occurs_def eq_ignore_ascii_case_def to_ascii_lowercase_def less_eq_char_def upt_conv_Cons char_of_def bit_0)

section \<open>Includable names\<close>

definition INCLUDABLE_EXTENSIONS :: "string list" where
  "INCLUDABLE_EXTENSIONS = [''c'', ''c++'', ''cc'', ''cpp'', ''cxx'', ''def'', ''gch'', ''h'', ''h++'', ''hh'', ''hpp'',
     ''hxx'', ''inc'', ''inl'', ''ipp'', ''pch'', ''s'', ''tcc'']"

text \<open>\<open>slice::binary_search(..).is_ok()\<close>, by halving.\<close>

fun binary_search :: "'a::linorder list \<Rightarrow> 'a \<Rightarrow> bool" where
  "binary_search [] v = False"
| "binary_search (x # xs) v =
     (let m = length (x # xs) div 2; y = (x # xs) ! m
      in if y = v then True
         else if y < v then binary_search (drop (Suc m) (x # xs)) v
         else binary_search (take m (x # xs)) v)"

lemma binary_search_sorted: "sorted xs \<Longrightarrow> binary_search xs v \<longleftrightarrow> v \<in> set xs"
proof (induction xs v rule: binary_search.induct)
  case (2 x xs v)
  let ?l = "x # xs" and ?m = "length (x # xs) div 2"
  have m: "?m < length ?l" by simp
  have parts: "?l = take ?m ?l @ ?l ! ?m # drop (Suc ?m) ?l" using id_take_nth_drop [OF m] .
  then have "sorted (take ?m ?l @ ?l ! ?m # drop (Suc ?m) ?l)" using "2.prems" by metis
  then have ord: "sorted (take ?m ?l)" "sorted (drop (Suc ?m) ?l)" "\<forall>a \<in> set (take ?m ?l). a \<le> ?l ! ?m"
    "\<forall>a \<in> set (drop (Suc ?m) ?l). ?l ! ?m \<le> a"
    by (simp_all add: sorted_append)
  have "v \<in> set ?l \<longleftrightarrow> v \<in> set (take ?m ?l) \<or> v = ?l ! ?m \<or> v \<in> set (drop (Suc ?m) ?l)"
    using parts by (metis UnE UnI1 UnI2 insert_iff list.simps(15) set_append)
  moreover have "binary_search ?l v = (if ?l ! ?m = v then True
      else if ?l ! ?m < v then binary_search (drop (Suc ?m) ?l) v else binary_search (take ?m ?l) v)"
    by (simp only: binary_search.simps Let_def)
  ultimately show ?case
    using "2.IH" [OF refl refl] ord by (auto simp del: binary_search.simps take_Cons drop_Cons simp: not_less)
qed simp

lemma includable_extension: "binary_search INCLUDABLE_EXTENSIONS v \<longleftrightarrow> v \<in> set INCLUDABLE_EXTENSIONS"
  by (rule binary_search_sorted) code_simp

text \<open>\<open>str::rsplit_once\<close> on one character.\<close>

definition rsplit_once :: "char \<Rightarrow> string \<Rightarrow> (string \<times> string) option" where
  "rsplit_once c s =
     (if c \<in> set s
      then Some (rev (tl (dropWhile (\<lambda>d. d \<noteq> c) (rev s))), rev (takeWhile (\<lambda>d. d \<noteq> c) (rev s)))
      else None)"

definition is_includable :: "string \<Rightarrow> bool" where
  "is_includable name =
     (case rsplit_once (CHR ''.'') name of
        Some (stem, extension) \<Rightarrow>
          if stem \<noteq> [] then binary_search INCLUDABLE_EXTENSIONS (map to_ascii_lowercase extension)
          else \<not> starts_with ''.'' name
      | None \<Rightarrow> \<not> starts_with ''.'' name)"

section \<open>The names below a directory\<close>

text \<open>
  What \<open>read_dir\<close> meets below a directory. \<^emph>\<open>Leaf\<close> is anything that is not a directory, links
  included. \<^emph>\<open>Gone\<close> and \<^emph>\<open>Unreadable\<close> are directories that cannot be opened. An entry may fail
  to be read, have a name that is not UTF-8, or refuse to tell its type.
\<close>

datatype node = Leaf | Gone | Unreadable | Directory "dir_entry list"
  and dir_entry = Entry_unreadable | Bad_name | Type_unreadable string | Entry string node

definition is_dir :: "node \<Rightarrow> bool" where
  "is_dir node = (node \<noteq> Leaf)"

definition MAX_MANIFEST_ENTRIES :: nat where
  "MAX_MANIFEST_ENTRIES = 16 * 1024"

definition relative :: "string \<Rightarrow> string \<Rightarrow> string" where
  "relative pre name = (if pre = [] then name else pre @ ''/'' @ name)"

fun entries_loop :: "string \<Rightarrow> dir_entry list \<Rightarrow> (node \<times> string) list \<Rightarrow> nat \<Rightarrow> string list \<Rightarrow>
    cc_bypass_reason + (node \<times> string) list \<times> nat \<times> string list" where
  "entries_loop pre [] pending budget names = Inr (pending, budget, names)"
| "entries_loop pre (Entry_unreadable # es) pending budget names = Inl Input_read"
| "entries_loop pre (Bad_name # es) pending budget names = Inl Non_utf8_path"
| "entries_loop pre (Type_unreadable name # es) pending budget names = Inl Input_read"
| "entries_loop pre (Entry name node # es) pending budget names =
     (if is_dir node then entries_loop pre es ((node, relative pre name) # pending) budget names
      else if \<not> is_includable name then entries_loop pre es pending budget names
      else if budget + 1 > MAX_MANIFEST_ENTRIES then Inl Too_many_inputs
      else entries_loop pre es pending (budget + 1) (names @ [relative pre name]))"

text \<open>The files and the directories one level down, and whether every entry there can be read.\<close>

fun entry_files :: "string \<Rightarrow> dir_entry list \<Rightarrow> string list" where
  "entry_files pre (Entry name node # es) =
     (if \<not> is_dir node \<and> is_includable name then [relative pre name] else []) @ entry_files pre es"
| "entry_files pre (e # es) = entry_files pre es"
| "entry_files pre [] = []"

fun entry_dirs :: "string \<Rightarrow> dir_entry list \<Rightarrow> (node \<times> string) list" where
  "entry_dirs pre (Entry name node # es) = (if is_dir node then [(node, relative pre name)] else []) @ entry_dirs pre es"
| "entry_dirs pre (e # es) = entry_dirs pre es"
| "entry_dirs pre [] = []"

definition entries_ok :: "dir_entry list \<Rightarrow> bool" where
  "entries_ok es = list_all (\<lambda>e. case e of Entry _ _ \<Rightarrow> True | _ \<Rightarrow> False) es"

lemma entries_loop_ok:
  assumes "entries_ok es" "budget \<le> MAX_MANIFEST_ENTRIES"
  shows "entries_loop pre es pending budget names =
    (if budget + length (entry_files pre es) \<le> MAX_MANIFEST_ENTRIES
     then Inr (rev (entry_dirs pre es) @ pending, budget + length (entry_files pre es), names @ entry_files pre es)
     else Inl Too_many_inputs)"
  using assms
  by (induction pre es pending budget names rule: entries_loop.induct) (auto simp: entries_ok_def)

lemma entries_loop_bad: "\<not> entries_ok es \<Longrightarrow> isl (entries_loop pre es pending budget names)"
  by (induction pre es pending budget names rule: entries_loop.induct) (auto simp: entries_ok_def)

lemma entries_loop_Inr:
  assumes "entries_loop pre es pending budget names = Inr (pending', budget', names')"
  shows "entries_ok es" "pending' = rev (entry_dirs pre es) @ pending"
proof -
  show "entries_ok es" using entries_loop_bad [of es pre pending budget names] assms by auto
  show "pending' = rev (entry_dirs pre es) @ pending"
    using assms by (induction pre es pending budget names rule: entries_loop.induct) (auto split: if_splits)
qed

lemma size_entry_dirs:
  "length (entry_dirs pre es) + sum_list (map (\<lambda>(node, _). size node) (entry_dirs pre es)) \<le> size_list size es"
  by (induction pre es rule: entry_dirs.induct) auto

text \<open>The walk. The top of the stack \<open>pending\<close> is the head of the list.\<close>

function walk :: "(node \<times> string) list \<Rightarrow> nat \<Rightarrow> string list \<Rightarrow> cc_bypass_reason + nat \<times> string list" where
  "walk [] budget names = Inr (budget, names)"
| "walk ((Gone, pre) # pending) budget names = walk pending budget names"
| "walk ((Unreadable, pre) # pending) budget names = Inl Input_read"
| "walk ((Leaf, pre) # pending) budget names = Inl Input_read"
| "walk ((Directory es, pre) # pending) budget names =
     (case entries_loop pre es pending budget names of
        Inl e \<Rightarrow> Inl e
      | Inr (pending, budget, names) \<Rightarrow> walk pending budget names)"
  by pat_completeness auto
termination
proof (relation "measure (\<lambda>(pending, _, _). sum_list (map (\<lambda>(node, _). size node) pending) + length pending)", goal_cases)
  case (3 es pre pending budget names r pending' rest budget' names')
  then have "pending' = rev (entry_dirs pre es) @ pending" by (auto dest: entries_loop_Inr)
  with size_entry_dirs [of pre es] show ?case by (simp add: rev_map [symmetric] sum_list_rev)
qed auto

definition include_manifest :: "(string \<Rightarrow> 'd) \<Rightarrow> node \<Rightarrow> nat \<Rightarrow> cc_bypass_reason + 'd \<times> nat" where
  "include_manifest blake3 tree budget =
     (case walk [(tree, [])] budget [] of
        Inl e \<Rightarrow> Inl e
      | Inr (budget, names) \<Rightarrow> Inr (blake3 (join_with newline (sort names)), budget))"

text \<open>The reference: the names below a directory, in the order of its entries.\<close>

fun strings_below :: "string \<Rightarrow> node \<Rightarrow> string list" and strings_entry :: "string \<Rightarrow> dir_entry \<Rightarrow> string list" where
  "strings_below pre (Directory es) = concat (map (strings_entry pre) es)"
| "strings_below pre node = []"
| "strings_entry pre (Entry name node) =
     (if is_dir node then strings_below (relative pre name) node
      else if is_includable name then [relative pre name] else [])"
| "strings_entry pre e = []"

fun readable :: "node \<Rightarrow> bool" and readable_entry :: "dir_entry \<Rightarrow> bool" where
  "readable (Directory es) = list_all readable_entry es"
| "readable Gone = True"
| "readable node = False"
| "readable_entry (Entry name node) = (is_dir node \<longrightarrow> readable node)"
| "readable_entry e = False"

lemma strings_entries:
  "mset (concat (map (strings_entry pre) es)) =
     mset (entry_files pre es) + mset (concat (map (\<lambda>(node, pre). strings_below pre node) (entry_dirs pre es)))"
  by (induction pre es rule: entry_files.induct) auto

lemma readable_entries: "list_all readable_entry es \<longleftrightarrow> entries_ok es \<and> list_all (readable \<circ> fst) (entry_dirs pre es)"
  by (induction pre es rule: entry_dirs.induct) (auto simp: entries_ok_def)

definition strings_pending :: "(node \<times> string) list \<Rightarrow> string list" where
  "strings_pending pending = concat (map (\<lambda>(node, pre). strings_below pre node) pending)"

lemma strings_pending_simps [simp]:
  "strings_pending [] = []" "strings_pending ((node, pre) # pending) = strings_below pre node @ strings_pending pending"
  "mset (strings_pending (rev ps @ pending)) = mset (strings_pending ps) + mset (strings_pending pending)"
  by (simp_all add: strings_pending_def mset_concat rev_map [symmetric] sum_list_rev)

lemma walk_readable:
  assumes "list_all (readable \<circ> fst) pending" "budget \<le> MAX_MANIFEST_ENTRIES"
  shows "\<exists>names'. mset names' = mset names + mset (strings_pending pending) \<and>
    walk pending budget names =
      (if budget + length (strings_pending pending) \<le> MAX_MANIFEST_ENTRIES
       then Inr (budget + length (strings_pending pending), names') else Inl Too_many_inputs)"
  using assms
proof (induction pending budget names rule: walk.induct)
  case (5 es pre pending budget names)
  let ?dirs = "rev (entry_dirs pre es) @ pending" and ?files = "entry_files pre es"
  have ok: "entries_ok es" "list_all (readable \<circ> fst) ?dirs"
    using "5.prems"(1) readable_entries [of es pre] by (auto simp: list_all_iff)
  have names: "mset (strings_pending ((Directory es, pre) # pending)) = mset ?files + mset (strings_pending ?dirs)"
    using strings_entries [of pre es] by (simp add: strings_pending_def [of "entry_dirs pre es"] del: mset_append) (simp add: mset_append)
  then have len: "length (strings_pending ((Directory es, pre) # pending)) = length ?files + length (strings_pending ?dirs)"
    by (metis size_mset size_union)
  show ?case
  proof (cases "budget + length ?files \<le> MAX_MANIFEST_ENTRIES")
    case True
    then have loop: "entries_loop pre es pending budget names = Inr (?dirs, budget + length ?files, names @ ?files)"
      using entries_loop_ok [OF ok(1) "5.prems"(2)] by simp
    from "5.IH" [OF loop refl refl ok(2) True] obtain names' where
      "mset names' = mset (names @ ?files) + mset (strings_pending ?dirs)"
      "walk ?dirs (budget + length ?files) (names @ ?files) =
        (if budget + length ?files + length (strings_pending ?dirs) \<le> MAX_MANIFEST_ENTRIES
         then Inr (budget + length ?files + length (strings_pending ?dirs), names') else Inl Too_many_inputs)" by blast
    with loop names len show ?thesis by (intro exI [of _ names']) (simp add: add.assoc)
  next
    case False
    then have loop: "entries_loop pre es pending budget names = Inl Too_many_inputs"
      using entries_loop_ok [OF ok(1) "5.prems"(2)] by simp
    have "\<not> budget + length (strings_pending ((Directory es, pre) # pending)) \<le> MAX_MANIFEST_ENTRIES"
      using False len by simp
    with loop show ?thesis by (intro exI [of _ "names @ strings_pending ((Directory es, pre) # pending)"]) simp
  qed
qed auto

lemma walk_unreadable: "\<not> list_all (readable \<circ> fst) pending \<Longrightarrow> isl (walk pending budget names)"
proof (induction pending budget names rule: walk.induct)
  case (5 es pre pending budget names)
  show ?case
  proof (cases "entries_loop pre es pending budget names")
    case (Inr r)
    obtain pending' budget' names' where r: "r = (pending', budget', names')" by (cases r)
    note dirs = entries_loop_Inr [OF Inr [unfolded r]]
    have "\<not> list_all (readable \<circ> fst) pending'"
      using "5.prems" dirs readable_entries [of es pre] by (auto simp: list_all_iff)
    from "5.IH" [OF Inr r [symmetric] refl this] show ?thesis using Inr r by simp
  qed simp
qed auto

text \<open>A manifest is the digest of the sorted names, whatever the order in which they are met.\<close>

lemma include_manifest_readable:
  assumes "readable tree" "budget \<le> MAX_MANIFEST_ENTRIES"
  shows "include_manifest blake3 tree budget =
    (if budget + length (strings_below [] tree) \<le> MAX_MANIFEST_ENTRIES
     then Inr (blake3 (join_with newline (sort (strings_below [] tree))), budget + length (strings_below [] tree))
     else Inl Too_many_inputs)"
proof -
  obtain names' where names: "mset names' = mset (strings_below [] tree)"
    "walk [(tree, [])] budget [] = (if budget + length (strings_below [] tree) \<le> MAX_MANIFEST_ENTRIES
       then Inr (budget + length (strings_below [] tree), names') else Inl Too_many_inputs)"
    using walk_readable [of "[(tree, [])]" budget "[]"] assms by auto
  have "sort names' = sort (strings_below [] tree)"
    by (rule properties_for_sort) (simp_all add: names(1))
  with names(2) show ?thesis by (simp add: include_manifest_def)
qed

lemma include_manifest_unreadable: "\<not> readable tree \<Longrightarrow> isl (include_manifest blake3 tree budget)"
  using walk_unreadable [of "[(tree, [])]" budget "[]"]
  by (auto simp: include_manifest_def split: sum.splits)

end
