(* ===== verification/Paths.thy ===== *)
theory Paths
  imports Text
begin

text \<open>
  Paths as the standard library's \<open>Path::components\<close> sees them: the list of components of an
  absolute or relative Unix path, with pushing, popping, joining and the lexical normalisation that the
  compiler adapters share.
\<close>

section \<open>Paths\<close>

datatype path_component = Root_dir | Cur_dir | Parent_dir | Normal string

type_synonym path = "path_component list"

definition component_key :: "path_component \<Rightarrow> nat \<times> string" where
  "component_key c = (case c of Root_dir \<Rightarrow> (0, []) | Cur_dir \<Rightarrow> (1, []) | Parent_dir \<Rightarrow> (2, []) | Normal n \<Rightarrow> (3, n))"

lemma component_key_inject [simp]: "component_key c = component_key c' \<longleftrightarrow> c = c'"
  by (auto simp: component_key_def split: path_component.splits)

instantiation path_component :: linorder
begin

definition less_eq_path_component :: "path_component \<Rightarrow> path_component \<Rightarrow> bool" where
  "less_eq_path_component c c' = (component_key c \<le> component_key c')"

definition less_path_component :: "path_component \<Rightarrow> path_component \<Rightarrow> bool" where
  "less_path_component c c' = (component_key c < component_key c')"

instance
  by standard (auto simp: less_eq_path_component_def less_path_component_def order_less_le)

end

definition pop_component :: "path \<Rightarrow> path" where
  "pop_component p = (case rev p of Normal _ # r \<Rightarrow> rev r | _ \<Rightarrow> p)"

definition push_component :: "path \<Rightarrow> path_component \<Rightarrow> path" where
  "push_component p c = (if c = Root_dir then [Root_dir] else p @ [c])"

definition is_normal :: "path_component \<Rightarrow> bool" where
  "is_normal c = (case c of Normal _ \<Rightarrow> True | _ \<Rightarrow> False)"

lemma is_normal_iff [simp]: "is_normal c \<longleftrightarrow> (\<exists>n. c = Normal n)"
  by (cases c) (simp_all add: is_normal_def)

definition is_absolute :: "path \<Rightarrow> bool" where
  "is_absolute p = (p \<noteq> [] \<and> hd p = Root_dir)"

definition absolute_path :: "path \<Rightarrow> bool" where
  "absolute_path p = (p \<noteq> [] \<and> hd p = Root_dir \<and> Root_dir \<notin> set (tl p))"

text \<open>\<open>Path::parent\<close>, \<open>Path::file_name\<close> and \<open>Path::join\<close>.\<close>

definition path_parent :: "path \<Rightarrow> path option" where
  "path_parent p = (if p = [] \<or> last p = Root_dir then None else Some (butlast p))"

definition path_file_name :: "path \<Rightarrow> string option" where
  "path_file_name p = (if p = [] then None else case last p of Normal n \<Rightarrow> Some n | _ \<Rightarrow> None)"

definition path_join :: "path \<Rightarrow> path \<Rightarrow> path" where
  "path_join p q = (if is_absolute q then q else p @ q)"

fun normalize_loop :: "path \<Rightarrow> path \<Rightarrow> path" where
  "normalize_loop normalized [] = normalized"
| "normalize_loop normalized (Cur_dir # cs) = normalize_loop normalized cs"
| "normalize_loop normalized (Parent_dir # cs) = normalize_loop (pop_component normalized) cs"
| "normalize_loop normalized (c # cs) = normalize_loop (push_component normalized c) cs"

definition normalize_components :: "path \<Rightarrow> path" where
  "normalize_components p = normalize_loop [] p"

text \<open>A path in normal form: the root and names.\<close>

definition clean_path :: "path \<Rightarrow> bool" where
  "clean_path p = (\<exists>ns. p = Root_dir # map Normal ns)"

lemma clean_path_simps [simp]:
  "clean_path [Root_dir]" "\<not> clean_path []" "clean_path (p @ [Normal n]) \<longleftrightarrow> clean_path p"
  "clean_path p \<Longrightarrow> clean_path (p @ map Normal ns)"
proof -
  show "clean_path [Root_dir]" by (simp add: clean_path_def)
  show "\<not> clean_path []" by (simp add: clean_path_def)
  show "clean_path (p @ [Normal n]) \<longleftrightarrow> clean_path p"
    by (cases p) (auto simp: clean_path_def append_eq_map_conv map_eq_append_conv intro: exI [of _ "_ @ [n]"])
  show "clean_path p \<Longrightarrow> clean_path (p @ map Normal ns)"
    by (auto simp: clean_path_def intro: exI [of _ "_ @ ns"])
qed

lemma clean_path_cases:
  assumes "clean_path p"
  obtains "p = [Root_dir]" | q n where "p = q @ [Normal n]" "clean_path q"
proof -
  obtain ns where p: "p = Root_dir # map Normal ns" using assms by (auto simp: clean_path_def)
  show thesis
  proof (cases ns rule: rev_cases)
    case Nil
    then show thesis using p that(1) by simp
  next
    case (snoc ms m)
    moreover have "clean_path (Root_dir # map Normal ms)" unfolding clean_path_def by blast
    ultimately show thesis using p that(2) [of "Root_dir # map Normal ms" m] by simp
  qed
qed

lemma clean_path_induct [consumes 1, case_names root child]:
  assumes "clean_path p" "P [Root_dir]" "\<And>q n. clean_path q \<Longrightarrow> P q \<Longrightarrow> P (q @ [Normal n])"
  shows "P p"
  using assms(1)
proof (induction "length p" arbitrary: p)
  case (Suc k)
  from Suc.prems show ?case by (rule clean_path_cases) (use Suc assms in auto)
qed simp

lemma pop_clean: "clean_path p \<Longrightarrow> clean_path (pop_component p)"
  by (erule clean_path_cases) (simp_all add: pop_component_def)

lemma normalize_loop_clean:
  "clean_path p \<Longrightarrow> clean_path (normalize_loop p cs)"
  by (induction p cs rule: normalize_loop.induct) (auto simp: push_component_def pop_clean)

lemma normalize_components_clean: "is_absolute p \<Longrightarrow> clean_path (normalize_components p)"
  by (cases p) (auto simp: is_absolute_def normalize_components_def push_component_def intro: normalize_loop_clean)

lemma normalize_loop_names: "normalize_loop p (map Normal ns) = p @ map Normal ns"
  by (induction ns arbitrary: p) (simp_all add: push_component_def)

lemma normalize_clean [simp]: "clean_path p \<Longrightarrow> normalize_components p = p"
  by (auto simp: clean_path_def normalize_components_def push_component_def normalize_loop_names)

lemma clean_is_absolute [simp]: "clean_path p \<Longrightarrow> is_absolute p"
  by (auto simp: clean_path_def is_absolute_def)

lemma clean_append: "clean_path (p @ q) \<Longrightarrow> p \<noteq> [] \<Longrightarrow> \<exists>ns. q = map Normal ns"
  by (cases p) (auto simp: clean_path_def append_eq_map_conv map_eq_append_conv)

end
