(* ===== verification/Include_Directories.thy ===== *)
theory Include_Directories
  imports Include_Manifest Paths
begin

text \<open>
  The include directories of a compile and the check that they did not change underneath it
  (\<open>mbx-cache-cc/src/depfile.rs\<close> and \<open>mbx/src/cc.rs\<close>): which directories are walked, the
  snapshot of their manifests, and the comparison of the snapshots taken before and after the
  compiler ran. A path is the list of its components.
\<close>

text \<open>
  \<open>symlink_metadata\<close> as the code reads it: \<^term>\<open>Some True\<close> for a directory that is not a link,
  \<^term>\<open>Some False\<close> for anything else that exists, \<^term>\<open>None\<close> for an error.
\<close>

type_synonym link_metadata = "path \<Rightarrow> bool option"

fun identity_loop :: "link_metadata \<Rightarrow> path \<Rightarrow> path \<Rightarrow> path option" where
  "identity_loop meta normalized [] = Some normalized"
| "identity_loop meta normalized (Cur_dir # cs) = identity_loop meta normalized cs"
| "identity_loop meta normalized (Parent_dir # cs) =
     (if meta normalized = Some True then identity_loop meta (pop_component normalized) cs else None)"
| "identity_loop meta normalized (c # cs) = identity_loop meta (push_component normalized c) cs"

definition manifest_directory_identity :: "link_metadata \<Rightarrow> path \<Rightarrow> path option" where
  "manifest_directory_identity meta directory = identity_loop meta [] directory"

fun covers_loop :: "link_metadata \<Rightarrow> path \<Rightarrow> path \<Rightarrow> bool" where
  "covers_loop meta current [] = True"
| "covers_loop meta current (c # cs) =
     (let current = push_component current c in if meta current \<noteq> Some True then False else covers_loop meta current cs)"

definition manifest_covers :: "link_metadata \<Rightarrow> path \<Rightarrow> path \<Rightarrow> bool" where
  "manifest_covers meta ancestor descendant =
     (case strip_prefix ancestor descendant of
        None \<Rightarrow> False
      | Some below \<Rightarrow> covers_loop meta ancestor below)"

section \<open>The smallest set of directories\<close>

definition covers :: "link_metadata \<Rightarrow> path option \<Rightarrow> path option \<Rightarrow> bool" where
  "covers meta ancestor normalized =
     (case (ancestor, normalized) of (Some a, Some n) \<Rightarrow> manifest_covers meta a n | _ \<Rightarrow> False)"

fun minimal_loop :: "link_metadata \<Rightarrow> (path \<times> path option) list \<Rightarrow> (path \<times> path option) list \<Rightarrow> (path \<times> path option) list" where
  "minimal_loop meta minimal [] = minimal"
| "minimal_loop meta minimal ((directory, normalized) # ds) =
     minimal_loop meta
       (if \<not> list_ex (\<lambda>(_, ancestor). covers meta ancestor normalized) minimal
        then minimal @ [(directory, normalized)] else minimal) ds"

definition directory_order :: "path \<times> path option \<Rightarrow> nat \<times> path option \<times> path" where
  "directory_order = (\<lambda>(directory, normalized). (length (unwrap_or normalized directory), normalized, directory))"

definition identified :: "link_metadata \<Rightarrow> path list \<Rightarrow> (path \<times> path option) list" where
  "identified meta directories =
     sort_key directory_order (map (\<lambda>d. (d, manifest_directory_identity meta d)) directories)"

definition minimal_manifest_directories :: "link_metadata \<Rightarrow> path list \<Rightarrow> path list" where
  "minimal_manifest_directories meta directories = map fst (minimal_loop meta [] (identified meta directories))"

lemma set_minimal_loop:
  "set minimal \<subseteq> set (minimal_loop meta minimal ds)" "set (minimal_loop meta minimal ds) \<subseteq> set minimal \<union> set ds"
  by (induction meta minimal ds rule: minimal_loop.induct) (auto split: if_splits)

lemma minimal_loop_covers:
  assumes "(d, n) \<in> set ds"
  shows "(d, n) \<in> set (minimal_loop meta minimal ds) \<or> (\<exists>(k, a) \<in> set (minimal_loop meta minimal ds). covers meta a n)"
  using assms
proof (induction meta minimal ds rule: minimal_loop.induct)
  case (2 meta minimal directory normalized ds)
  let ?minimal = "if \<not> list_ex (\<lambda>(_, ancestor). covers meta ancestor normalized) minimal
    then minimal @ [(directory, normalized)] else minimal"
  show ?case
  proof (cases "(d, n) = (directory, normalized)")
    case True
    then have "(d, n) \<in> set ?minimal \<or> (\<exists>(k, a) \<in> set ?minimal. covers meta a n)" by (auto simp: list_ex_iff)
    with set_minimal_loop(1) [of ?minimal meta ds] show ?thesis by (simp only: minimal_loop.simps) blast
  next
    case False
    then have "(d, n) \<in> set ds" using "2.prems" by auto
    from "2.IH" [OF this] show ?thesis by (simp only: minimal_loop.simps)
  qed
qed simp

definition antichain :: "link_metadata \<Rightarrow> (path \<times> path option) list \<Rightarrow> bool" where
  "antichain meta ds = (\<forall>(k, a) \<in> set ds. \<forall>(k', a') \<in> set ds. (k, a) \<noteq> (k', a') \<longrightarrow> \<not> covers meta a a')"

lemma manifest_covers_refl [simp]: "manifest_covers meta a a"
  using strip_prefix_append [of a "[]"] by (simp add: manifest_covers_def)

lemma covers_shorter: "covers meta (Some a) (Some n) \<Longrightarrow> length a \<le> length n"
  by (auto simp: covers_def manifest_covers_def strip_prefix_eq_Some split: option.splits)

lemma covers_later:
  assumes "covers meta a' a" "length (unwrap_or a d) \<le> length (unwrap_or a' d')"
  shows "covers meta a a'"
proof -
  obtain b b' where some: "a = Some b" "a' = Some b'" using assms(1) by (auto simp: covers_def split: option.splits)
  obtain r where "b = b' @ r" using assms(1) some
    by (auto simp: covers_def manifest_covers_def strip_prefix_eq_Some split: option.splits)
  with assms(2) some show ?thesis by (simp add: covers_def)
qed

lemma minimal_loop_antichain:
  assumes "sorted (map (\<lambda>(d, n). length (unwrap_or n d)) (minimal @ ds))" "antichain meta minimal"
  shows "antichain meta (minimal_loop meta minimal ds)"
  using assms
proof (induction meta minimal ds rule: minimal_loop.induct)
  case (2 meta minimal directory normalized ds)
  let ?x = "(directory, normalized)"
  show ?case
  proof (cases "list_ex (\<lambda>(_, ancestor). covers meta ancestor normalized) minimal")
    case True
    then show ?thesis using 2 by (simp add: sorted_append)
  next
    case False
    have "\<not> covers meta normalized a" if "(k, a) \<in> set minimal" for k a
    proof
      assume "covers meta normalized a"
      moreover have "length (unwrap_or a k) \<le> length (unwrap_or normalized directory)"
        using "2.prems"(1) that by (force simp: sorted_append)
      ultimately have "covers meta a normalized" by (rule covers_later)
      with that False show False by (auto simp: list_ex_iff)
    qed
    then have "antichain meta (minimal @ [?x])"
      using "2.prems"(2) False by (auto simp: antichain_def list_ex_iff)
    with 2 False show ?thesis by simp
  qed
qed simp

lemma set_identified [simp]:
  "set (identified meta directories) = (\<lambda>d. (d, manifest_directory_identity meta d)) ` set directories"
  by (simp add: identified_def)

lemma sorted_identified: "sorted (map (\<lambda>(d, n). length (unwrap_or n d)) (identified meta directories))"
proof -
  have "sorted_wrt (\<lambda>x y. directory_order x \<le> directory_order y) (identified meta directories)"
    using sorted_sort_key [of directory_order] by (simp add: identified_def sorted_map)
  then have "sorted_wrt (\<lambda>x y. fst (directory_order x) \<le> fst (directory_order y)) (identified meta directories)"
    by (rule sorted_wrt_mono_rel [rotated]) (auto simp: less_eq_prod_def)
  then show ?thesis by (simp add: sorted_map directory_order_def split_def)
qed

text \<open>Every directory is kept or covered by a kept one, and no kept one covers another.\<close>

lemma set_minimal_directories:
  "k \<in> set (minimal_manifest_directories meta ds) \<longleftrightarrow>
     (k, manifest_directory_identity meta k) \<in> set (minimal_loop meta [] (identified meta ds))"
  using set_minimal_loop(2) [of meta "[]" "identified meta ds"] by (force simp: minimal_manifest_directories_def)

lemma minimal_directories_subset: "set (minimal_manifest_directories meta ds) \<subseteq> set ds"
  using set_minimal_loop(2) [of meta "[]" "identified meta ds"] by (auto simp: set_minimal_directories)

lemma minimal_directories_cover:
  assumes "d \<in> set ds"
  shows "d \<in> set (minimal_manifest_directories meta ds) \<or>
    (\<exists>k \<in> set (minimal_manifest_directories meta ds).
       covers meta (manifest_directory_identity meta k) (manifest_directory_identity meta d))"
proof -
  have "(d, manifest_directory_identity meta d) \<in> set (identified meta ds)" using assms by simp
  from minimal_loop_covers [OF this, of meta "[]"] set_minimal_loop(2) [of meta "[]" "identified meta ds"]
  show ?thesis by (fastforce simp: set_minimal_directories)
qed

lemma minimal_directories_antichain:
  assumes "k \<in> set (minimal_manifest_directories meta ds)" "k' \<in> set (minimal_manifest_directories meta ds)" "k \<noteq> k'"
  shows "\<not> covers meta (manifest_directory_identity meta k) (manifest_directory_identity meta k')"
  using minimal_loop_antichain [of "[]" "identified meta ds" meta] sorted_identified [of meta ds] assms
  by (auto simp: set_minimal_directories antichain_def)

section \<open>The snapshot\<close>

fun snapshot_loop :: "(string \<Rightarrow> 'd) \<Rightarrow> (path \<Rightarrow> node) \<Rightarrow> path list \<Rightarrow> nat \<Rightarrow> (path, 'd) btree_map \<Rightarrow>
    cc_bypass_reason + (path, 'd) btree_map" where
  "snapshot_loop blake3 opens [] budget m = Inr m"
| "snapshot_loop blake3 opens (d # ds) budget m =
     (case include_manifest blake3 (opens d) budget of
        Inl e \<Rightarrow> Inl e
      | Inr (digest, budget) \<Rightarrow> snapshot_loop blake3 opens ds budget (bt_insert d digest m))"

definition manifest_snapshot :: "(string \<Rightarrow> 'd) \<Rightarrow> link_metadata \<Rightarrow> (path \<Rightarrow> node) \<Rightarrow> path list \<Rightarrow>
    cc_bypass_reason + (path, 'd) btree_map" where
  "manifest_snapshot blake3 meta opens directories =
     snapshot_loop blake3 opens (minimal_manifest_directories meta directories) 0 []"

definition manifest_text :: "node \<Rightarrow> string" where
  "manifest_text tree = join_with newline (sort (strings_below [] tree))"

definition manifest_size :: "(path \<Rightarrow> node) \<Rightarrow> path list \<Rightarrow> nat" where
  "manifest_size opens ds = sum_list (map (\<lambda>d. length (strings_below [] (opens d))) ds)"

definition manifests :: "(string \<Rightarrow> 'd) \<Rightarrow> (path \<Rightarrow> node) \<Rightarrow> path list \<Rightarrow> (path, 'd) btree_map \<Rightarrow> (path, 'd) btree_map" where
  "manifests blake3 opens ds m = fold (\<lambda>d. bt_insert d (blake3 (manifest_text (opens d)))) ds m"

lemma snapshot_loop_readable:
  assumes "list_all (readable \<circ> opens) ds" "budget \<le> MAX_MANIFEST_ENTRIES"
  shows "snapshot_loop blake3 opens ds budget m =
    (if budget + manifest_size opens ds \<le> MAX_MANIFEST_ENTRIES then Inr (manifests blake3 opens ds m) else Inl Too_many_inputs)"
  using assms
proof (induction ds arbitrary: budget m)
  case (Cons d ds)
  let ?n = "length (strings_below [] (opens d))"
  have here: "include_manifest blake3 (opens d) budget =
      (if budget + ?n \<le> MAX_MANIFEST_ENTRIES then Inr (blake3 (manifest_text (opens d)), budget + ?n) else Inl Too_many_inputs)"
    using include_manifest_readable [of "opens d" budget blake3] Cons.prems by (simp add: manifest_text_def)
  show ?case
  proof (cases "budget + ?n \<le> MAX_MANIFEST_ENTRIES")
    case True
    with here Cons.IH [of "budget + ?n" "bt_insert d (blake3 (manifest_text (opens d))) m"] Cons.prems
    show ?thesis by (simp add: manifest_size_def manifests_def add.assoc)
  next
    case False
    with here show ?thesis by (simp add: manifest_size_def)
  qed
qed (simp add: manifest_size_def manifests_def)

lemma snapshot_loop_unreadable:
  "\<not> list_all (readable \<circ> opens) ds \<Longrightarrow> isl (snapshot_loop blake3 opens ds budget m)"
proof (induction ds arbitrary: budget m)
  case (Cons d ds)
  show ?case
  proof (cases "include_manifest blake3 (opens d) budget")
    case (Inr r)
    then have "readable (opens d)" using include_manifest_unreadable [of "opens d" blake3 budget] by auto
    with Cons Inr show ?thesis by (cases r) simp
  qed simp
qed simp

lemma bt_get_manifests:
  "bt_inv m \<Longrightarrow> bt_inv (manifests blake3 opens ds m) \<and> bt_get (manifests blake3 opens ds m) =
     (\<lambda>d. if d \<in> set ds then Some (blake3 (manifest_text (opens d))) else bt_get m d)"
proof (induction ds arbitrary: m)
  case (Cons d ds)
  let ?m = "bt_insert d (blake3 (manifest_text (opens d))) m"
  have "bt_inv ?m" using Cons.prems by simp
  from Cons.IH [OF this] Cons.prems show ?case by (auto simp: manifests_def fun_eq_iff)
qed (simp add: manifests_def)

lemma snapshot_Inr:
  assumes "manifest_snapshot blake3 meta opens ds = Inr m"
  shows "list_all (readable \<circ> opens) (minimal_manifest_directories meta ds)"
    "bt_inv m"
    "bt_get m = (\<lambda>d. if d \<in> set (minimal_manifest_directories meta ds) then Some (blake3 (manifest_text (opens d))) else None)"
proof -
  let ?kept = "minimal_manifest_directories meta ds"
  show ok: "list_all (readable \<circ> opens) ?kept"
    using snapshot_loop_unreadable [of opens ?kept blake3 0 "[]"] assms by (auto simp: manifest_snapshot_def)
  then have "m = manifests blake3 opens ?kept []"
    using snapshot_loop_readable [OF ok, of 0 blake3 "[]"] assms by (auto simp: manifest_snapshot_def split: if_splits)
  then show "bt_inv m" "bt_get m = (\<lambda>d. if d \<in> set ?kept then Some (blake3 (manifest_text (opens d))) else None)"
    using bt_get_manifests [of "[]" blake3 opens ?kept] by (simp_all add: fun_eq_iff)
qed


section \<open>The check of the search path\<close>

datatype search_path_error = Bypass cc_bypass_reason | Search_path_modified path

fun compare_snapshots :: "(path, 'd) btree_map \<Rightarrow> (path, 'd) btree_map \<Rightarrow> search_path_error + unit" where
  "compare_snapshots [] after = Inr ()"
| "compare_snapshots ((directory, digest) # before) after =
     (if bt_get after directory \<noteq> Some digest then Inl (Search_path_modified directory)
      else compare_snapshots before after)"

definition verify_search_path_unchanged :: "cc_bypass_reason + (path, 'd) btree_map \<Rightarrow>
    cc_bypass_reason + (path, 'd) btree_map \<Rightarrow> search_path_error + unit" where
  "verify_search_path_unchanged before after =
     (case before of
        Inl e \<Rightarrow> Inl (Bypass e)
      | Inr before \<Rightarrow> (case after of Inl e \<Rightarrow> Inl (Bypass e) | Inr after \<Rightarrow> compare_snapshots before after))"

lemma compare_snapshots_Inr: "compare_snapshots before after = Inr () \<longleftrightarrow> (\<forall>(d, digest) \<in> set before. bt_get after d = Some digest)"
  by (induction before after rule: compare_snapshots.induct) auto

lemma verify_Inr:
  assumes "verify_search_path_unchanged (manifest_snapshot blake3 meta opens ds) (manifest_snapshot blake3 meta' opens' ds) = Inr ()"
    and "k \<in> set (minimal_manifest_directories meta ds)"
  shows "readable (opens k)" "readable (opens' k)" "k \<in> set (minimal_manifest_directories meta' ds)"
    "blake3 (manifest_text (opens k)) = blake3 (manifest_text (opens' k))"
proof -
  obtain m m' where m: "manifest_snapshot blake3 meta opens ds = Inr m" "manifest_snapshot blake3 meta' opens' ds = Inr m'"
    "compare_snapshots m m' = Inr ()"
    using assms(1) by (auto simp: verify_search_path_unchanged_def split: sum.splits)
  note s = snapshot_Inr [OF m(1)] and s' = snapshot_Inr [OF m(2)]
  have "bt_get m k = Some (blake3 (manifest_text (opens k)))" using s(3) assms(2) by simp
  then have "bt_get m' k = Some (blake3 (manifest_text (opens k)))"
    using m(3) by (auto simp: compare_snapshots_Inr dest: map_of_SomeD)
  with s'(3) show kept: "k \<in> set (minimal_manifest_directories meta' ds)"
    and "blake3 (manifest_text (opens k)) = blake3 (manifest_text (opens' k))" by (auto split: if_splits)
  show "readable (opens k)" "readable (opens' k)" using s(1) s'(1) assms(2) kept by (auto simp: list_all_iff)
qed

section \<open>Names below a covered directory\<close>

text \<open>Names as file systems give them: not empty, no separator; and no line break.\<close>

definition plain_name :: "string \<Rightarrow> bool" where
  "plain_name n = (n \<noteq> [] \<and> CHR ''/'' \<notin> set n \<and> newline \<notin> set n)"

fun plain_names :: "node \<Rightarrow> bool" and plain_names_entry :: "dir_entry \<Rightarrow> bool" where
  "plain_names (Directory es) = list_all plain_names_entry es"
| "plain_names node = True"
| "plain_names_entry (Entry n node) = (plain_name n \<and> plain_names node)"
| "plain_names_entry e = True"

lemma relative_relative: "n \<noteq> [] \<Longrightarrow> relative (relative pre n) s = relative pre (relative n s)"
  by (simp add: relative_def)

lemma strings_below_relative:
  "plain_names node \<Longrightarrow> strings_below pre node = map (relative pre) (strings_below [] node)"
  "plain_names_entry e \<Longrightarrow> strings_entry pre e = map (relative pre) (strings_entry [] e)"
proof (induction node and e arbitrary: pre and pre)
  case (Directory es)
  have "map (strings_entry pre) es = map (\<lambda>e. map (relative pre) (strings_entry [] e)) es"
  proof (rule map_cong [OF refl])
    fix e assume "e \<in> set es"
    moreover from this have "plain_names_entry e" using Directory.prems by (simp add: list_all_iff)
    ultimately show "strings_entry pre e = map (relative pre) (strings_entry [] e)" by (rule Directory.IH)
  qed
  then show ?case by (simp only: strings_below.simps map_concat map_map comp_def)
next
  case (Entry n node)
  then have n: "n \<noteq> []" "plain_names node" by (simp_all add: plain_name_def)
  have "relative (relative pre n) = relative pre \<circ> relative n" using n(1) by (auto simp: relative_relative)
  then have "strings_below (relative pre n) node = map (relative pre) (strings_below n node)"
    unfolding Entry.IH [OF n(2), of "relative pre n"] Entry.IH [OF n(2), of n] by simp
  then show ?case by (simp add: relative_def [of "[]"])
qed simp_all

lemma strings_below_plain:
  "plain_names node \<Longrightarrow> s \<in> set (strings_below [] node) \<Longrightarrow> s \<noteq> [] \<and> newline \<notin> set s"
  "plain_names_entry e \<Longrightarrow> s \<in> set (strings_entry [] e) \<Longrightarrow> s \<noteq> [] \<and> newline \<notin> set s"
proof (induction node and e arbitrary: s and s)
  case (Entry n node)
  have "strings_below n node = map (relative n) (strings_below [] node)"
    using strings_below_relative(1) [of node n] Entry.prems(1) by simp
  with Entry show ?case by (auto simp: relative_def plain_name_def newline_def split: if_splits)
qed (auto simp: list_all_iff)

lemma strings_entry_slash:
  assumes "plain_names_entry (Entry m node)" "plain_name n" "n @ ''/'' @ s \<in> set (strings_entry [] (Entry m node))"
  shows "m = n \<and> is_dir node \<and> s \<in> set (strings_below [] node)"
proof -
  have slash: "n @ ''/'' @ s \<noteq> m" using assms(1) by (auto simp: plain_name_def)
  have split: "n @ ''/'' @ s = m @ ''/'' @ t \<Longrightarrow> m = n \<and> t = s" for t
    using assms(1,2) split_on_append [of "CHR ''/''" n s] split_on_append [of "CHR ''/''" m t]
    by (auto simp: plain_name_def append_eq_append_conv2 Cons_eq_append_conv append_eq_Cons_conv)
  have "strings_below m node = map (\<lambda>s. m @ ''/'' @ s) (strings_below [] node)"
    using strings_below_relative(1) [of node m] assms(1) by (simp add: relative_def plain_name_def)
  with assms(3) slash split show ?thesis by (auto simp: relative_def split: if_splits)
qed

lemma strings_below_child:
  assumes "plain_names (Directory es)" "is_dir child" "\<And>c. Entry n c \<in> set es \<longleftrightarrow> c = child"
  shows "n @ ''/'' @ s \<in> set (strings_below [] (Directory es)) \<longleftrightarrow> s \<in> set (strings_below [] child)"
proof
  have entry: "Entry n child \<in> set es" using assms(3) by blast
  then have n: "plain_name n" "plain_names child" using assms(1) by (auto simp: list_all_iff)
  { assume "n @ ''/'' @ s \<in> set (strings_below [] (Directory es))"
    then obtain e where e: "e \<in> set es" "n @ ''/'' @ s \<in> set (strings_entry [] e)" by auto
    from e(2) obtain m node where en: "e = Entry m node" by (cases e) simp_all
    have "plain_names_entry (Entry m node)" using assms(1) e en by (auto simp: list_all_iff)
    from strings_entry_slash [OF this n(1)] e en have "m = n" "s \<in> set (strings_below [] node)" by auto
    with assms(3) e en show "s \<in> set (strings_below [] child)" by auto }
  assume "s \<in> set (strings_below [] child)"
  then have "n @ ''/'' @ s \<in> set (strings_entry [] (Entry n child))"
    using strings_below_relative(1) [OF n(2), of n] n(1) assms(2) by (simp add: relative_def plain_name_def)
  with entry show "n @ ''/'' @ s \<in> set (strings_below [] (Directory es))"
    by (simp only: strings_below.simps set_concat set_map) blast
qed

section \<open>What is assumed of a file system\<close>

text \<open>
  A dot names the directory itself. Two dots undo a plain directory, and at the root do nothing.
  What is a plain directory by its metadata is an entry of its parent, the only one of that
  name, unless the parent's listing is refused.
\<close>

definition file_system :: "link_metadata \<Rightarrow> (path \<Rightarrow> node) \<Rightarrow> bool" where
  "file_system meta opens =
     ((\<forall>p q. p \<noteq> [] \<longrightarrow> opens (p @ Cur_dir # q) = opens (p @ q)) \<and>
      (\<forall>p x q. p \<noteq> [] \<longrightarrow> meta (p @ [Normal x]) = Some True \<longrightarrow> opens (p @ Normal x # Parent_dir # q) = opens (p @ q)) \<and>
      (\<forall>q. opens (Root_dir # Parent_dir # q) = opens (Root_dir # q)) \<and>
      (\<forall>p n. p \<noteq> [] \<longrightarrow> meta (p @ [Normal n]) = Some True \<longrightarrow>
         is_dir (opens (p @ [Normal n])) \<and>
         (opens p = Unreadable \<or>
          (\<exists>es. opens p = Directory es \<and> (\<forall>c. Entry n c \<in> set es \<longleftrightarrow> c = opens (p @ [Normal n]))))))"

lemma file_systemD:
  assumes "file_system meta opens"
  shows "p \<noteq> [] \<Longrightarrow> opens (p @ Cur_dir # q) = opens (p @ q)"
    "p \<noteq> [] \<Longrightarrow> meta (p @ [Normal x]) = Some True \<Longrightarrow> opens (p @ Normal x # Parent_dir # q) = opens (p @ q)"
    "opens (Root_dir # Parent_dir # q) = opens (Root_dir # q)"
    "p \<noteq> [] \<Longrightarrow> meta (p @ [Normal n]) = Some True \<Longrightarrow> is_dir (opens (p @ [Normal n]))"
    "p \<noteq> [] \<Longrightarrow> meta (p @ [Normal n]) = Some True \<Longrightarrow> opens p \<noteq> Unreadable \<Longrightarrow>
      \<exists>es. opens p = Directory es \<and> (\<forall>c. Entry n c \<in> set es \<longleftrightarrow> c = opens (p @ [Normal n]))"
  using assms unfolding file_system_def by blast+

lemma identity_loop_opens:
  assumes "file_system meta opens" "list_all is_normal ns" "Root_dir \<notin> set cs"
    and "identity_loop meta (Root_dir # ns) cs = Some n"
  shows "opens (Root_dir # ns @ cs) = opens n \<and> (\<exists>ms. n = Root_dir # ms \<and> list_all is_normal ms)"
  using assms(2-)
proof (induction cs arbitrary: ns)
  case (Cons c cs)
  show ?case
  proof (cases c)
    case Cur_dir
    then show ?thesis using Cons file_systemD(1) [OF assms(1), of "Root_dir # ns" cs] by simp
  next
    case Parent_dir
    then have meta: "meta (Root_dir # ns) = Some True" using Cons.prems(3) by (simp split: if_splits)
    show ?thesis
    proof (cases ns rule: rev_cases)
      case Nil
      then show ?thesis using Cons.IH [of "[]"] Cons.prems Parent_dir meta file_systemD(3) [OF assms(1), of cs]
        by (simp add: pop_component_def)
    next
      case (snoc ms l)
      then obtain x where x: "l = Normal x" using Cons.prems(1) by (cases l) (auto simp: is_normal_def)
      have "opens ((Root_dir # ms) @ Normal x # Parent_dir # cs) = opens ((Root_dir # ms) @ cs)"
        using meta snoc x by (intro file_systemD(2) [OF assms(1)]) simp_all
      moreover have "identity_loop meta (Root_dir # ms) cs = Some n"
        using Cons.prems(3) Parent_dir meta snoc x by (simp add: pop_component_def)
      ultimately show ?thesis using Cons.IH [of ms] Cons.prems Parent_dir snoc x by simp
    qed
  next
    case (Normal x)
    then show ?thesis using Cons.IH [of "ns @ [Normal x]"] Cons.prems by (simp add: push_component_def is_normal_def)
  qed (use Cons in simp)
qed auto

lemma identity_opens:
  assumes "file_system meta opens" "absolute_path d" "manifest_directory_identity meta d = Some n"
  shows "opens d = opens n" "\<exists>ms. n = Root_dir # ms \<and> list_all is_normal ms"
proof -
  obtain cs where "d = Root_dir # cs" "Root_dir \<notin> set cs"
    using assms(2) by (cases d) (auto simp: absolute_path_def)
  with identity_loop_opens [OF assms(1), of "[]" cs n] assms(3)
  show "opens d = opens n" "\<exists>ms. n = Root_dir # ms \<and> list_all is_normal ms"
    by (auto simp: manifest_directory_identity_def push_component_def)
qed

fun path_under :: "path \<Rightarrow> string \<Rightarrow> string" where
  "path_under (Normal n # cs) s = n @ ''/'' @ path_under cs s"
| "path_under (c # cs) s = path_under cs s"
| "path_under [] s = s"

lemma covers_loop_strings:
  assumes "file_system meta opens" "covers_loop meta p cs" "list_all is_normal cs" "p \<noteq> []"
    and "readable (opens p)" "plain_names (opens p)"
  shows "path_under cs s \<in> set (strings_below [] (opens p)) \<longleftrightarrow> s \<in> set (strings_below [] (opens (p @ cs)))"
  using assms(2-)
proof (induction cs arbitrary: p)
  case (Cons c cs)
  then obtain n where n: "c = Normal n" by (cases c) (auto simp: is_normal_def)
  then have meta: "meta (p @ [Normal n]) = Some True" and loop: "covers_loop meta (p @ [Normal n]) cs"
    using Cons.prems(1) by (simp_all add: push_component_def Let_def split: if_splits)
  have "opens p \<noteq> Unreadable" using Cons.prems(4) by auto
  with file_systemD(5) [OF assms(1) Cons.prems(3) meta] obtain es where
    es: "opens p = Directory es" "\<And>c. Entry n c \<in> set es \<longleftrightarrow> c = opens (p @ [Normal n])" by blast
  have dir: "is_dir (opens (p @ [Normal n]))" using file_systemD(4) [OF assms(1) Cons.prems(3) meta] .
  have "Entry n (opens (p @ [Normal n])) \<in> set es" using es(2) by blast
  then have child: "readable (opens (p @ [Normal n]))" "plain_names (opens (p @ [Normal n]))"
    using Cons.prems(4,5) es(1) dir by (auto simp: list_all_iff)
  have "path_under (c # cs) s \<in> set (strings_below [] (opens p)) \<longleftrightarrow> path_under cs s \<in> set (strings_below [] (opens (p @ [Normal n])))"
    using strings_below_child [OF _ dir es(2), of "path_under cs s"] Cons.prems(5) es(1) n by simp
  with Cons.IH [OF loop _ _ child] Cons.prems(2) n show ?case by simp
qed simp

lemma covered_strings:
  assumes "file_system meta opens" "absolute_path k" "absolute_path d"
    and "manifest_directory_identity meta k = Some a" "manifest_directory_identity meta d = Some (a @ cs)"
    and "manifest_covers meta a (a @ cs)" "readable (opens k)" "plain_names (opens k)"
  shows "s \<in> set (strings_below [] (opens d)) \<longleftrightarrow> path_under cs s \<in> set (strings_below [] (opens k))"
proof -
  obtain ms where a: "a = Root_dir # ms" using identity_opens(2) [OF assms(1,2,4)] by blast
  obtain ns where "a @ cs = Root_dir # ns" "list_all is_normal ns" using identity_opens(2) [OF assms(1,3,5)] by blast
  with a have "list_all is_normal cs" by auto
  moreover have "covers_loop meta a cs" using assms(6) by (simp add: manifest_covers_def)
  ultimately show ?thesis
    using covers_loop_strings [OF assms(1), of a cs s] a assms(7,8) identity_opens(1) [OF assms(1,2,4)]
      identity_opens(1) [OF assms(1,3,5)] by simp
qed

lemma covers_loop_append: "covers_loop meta p (cs @ ds) \<Longrightarrow> covers_loop meta p cs"
  by (induction cs arbitrary: p) (auto simp: Let_def split: if_splits)

lemma covers_between:
  assumes "covers meta (Some a) (Some n)" "prefix a a'" "prefix a' n"
  shows "covers meta (Some a) (Some a')"
  using assms covers_loop_append by (auto simp: covers_def manifest_covers_def prefix_def)

lemma covers_prefix: "covers meta (Some a) (Some n) \<Longrightarrow> prefix a n"
  by (auto simp: covers_def manifest_covers_def strip_prefix_eq_Some split: option.splits)

lemma covering_unique:
  assumes "set (minimal_manifest_directories meta ds) = set (minimal_manifest_directories meta' ds)"
    and "\<And>e. e \<in> set ds \<Longrightarrow> manifest_directory_identity meta e = manifest_directory_identity meta' e"
    and "k \<in> set (minimal_manifest_directories meta ds)" "covers meta (manifest_directory_identity meta k) n"
    and "k' \<in> set (minimal_manifest_directories meta ds)" "covers meta' (manifest_directory_identity meta k') n"
  shows "k = k'"
proof (rule ccontr)
  assume ne: "k \<noteq> k'"
  obtain a a' b where ids: "manifest_directory_identity meta k = Some a" "manifest_directory_identity meta k' = Some a'" "n = Some b"
    using assms(4,6) by (auto simp: covers_def split: option.splits)
  then have ids': "manifest_directory_identity meta' k = Some a" "manifest_directory_identity meta' k' = Some a'"
    using assms(2,3,5) minimal_directories_subset [of meta ds] by (metis subsetD)+
  have below: "prefix a b" "prefix a' b" using assms(4,6) ids covers_prefix by auto
  then consider "prefix a a'" | "prefix a' a" using prefix_same_cases by blast
  then show False
  proof cases
    case 1
    then have "covers meta (Some a) (Some a')" using assms(4) ids below covers_between by metis
    with minimal_directories_antichain [OF assms(3,5) ne] ids show False by simp
  next
    case 2
    then have "covers meta' (Some a') (Some a)" using assms(6) ids below covers_between by metis
    with minimal_directories_antichain [of k' meta' ds k] assms(1,3,5) ne ids' show False by simp
  qed
qed

lemma join_newline_inject:
  assumes "join_with newline ws = join_with newline vs" "\<forall>w \<in> set ws \<union> set vs. w \<noteq> [] \<and> newline \<notin> set w"
  shows "ws = vs"
proof -
  have split: "split_on newline (join_with newline us) = (if us = [] then [[]] else us)"
    if "\<forall>w \<in> set us. w \<noteq> [] \<and> newline \<notin> set w" for us
    using that split_join [of us newline] by (cases us) auto
  have "(if ws = [] then [[]] else ws) = (if vs = [] then [[]] else vs)"
    using split [of ws] split [of vs] assms by (metis UnCI)
  with assms(2) show ?thesis by (auto split: if_splits)
qed

lemma manifest_text_inject:
  assumes "manifest_text t = manifest_text t'" "plain_names t" "plain_names t'"
  shows "set (strings_below [] t) = set (strings_below [] t')"
proof -
  have "sort (strings_below [] t) = sort (strings_below [] t')"
    using assms(1) strings_below_plain(1) [OF assms(2)] strings_below_plain(1) [OF assms(3)]
    unfolding manifest_text_def by (intro join_newline_inject) auto
  then show ?thesis by (metis set_sort)
qed

text \<open>
  C34. The check of the include directories notices every change of names. When the comparison of the
  snapshots taken before and after the compile passes, each searched directory, also one that
  was left out because another covers it, holds exactly the same includable names at any depth
  in both states. This holds when the paths keep their identity, which those without parent
  components always do, when the second snapshot walks no directory that the first one did not,
  when names have no line breaks and the digests compared do not collide.
\<close>

theorem search_path_check_is_sound:
  fixes blake3 :: "string \<Rightarrow> 'd"
  assumes "file_system meta opens" "file_system meta' opens'"
    and "\<forall>d \<in> set ds. absolute_path d \<and> manifest_directory_identity meta d = manifest_directory_identity meta' d"
    and "set (minimal_manifest_directories meta' ds) \<subseteq> set (minimal_manifest_directories meta ds)"
    and "\<forall>k \<in> set (minimal_manifest_directories meta ds). plain_names (opens k) \<and> plain_names (opens' k) \<and>
      (blake3 (manifest_text (opens k)) = blake3 (manifest_text (opens' k)) \<longrightarrow> manifest_text (opens k) = manifest_text (opens' k))"
    and "verify_search_path_unchanged (manifest_snapshot blake3 meta opens ds) (manifest_snapshot blake3 meta' opens' ds) = Inr ()"
    and "d \<in> set ds"
  shows "set (strings_below [] (opens d)) = set (strings_below [] (opens' d))"
proof -
  let ?kept = "set (minimal_manifest_directories meta ds)" and ?id = "manifest_directory_identity meta"
  have same: "?kept = set (minimal_manifest_directories meta' ds)" using assms(4) verify_Inr(3) [OF assms(6)] by blast
  have listed: "set (strings_below [] (opens k)) = set (strings_below [] (opens' k))" if "k \<in> ?kept" for k
    using that assms(5) verify_Inr(4) [OF assms(6) that] by (intro manifest_text_inject) auto
  show ?thesis
  proof (cases "d \<in> ?kept")
    case False
    with same minimal_directories_cover [OF assms(7)] obtain k k' where
      k: "k \<in> ?kept" "covers meta (?id k) (?id d)" and k': "k' \<in> ?kept" "covers meta' (?id k') (?id d)"
      using assms(3,7) minimal_directories_subset by (metis subsetD)
    have id': "?id e = manifest_directory_identity meta' e" if "e \<in> set ds" for e using assms(3) that by blast
    have "k = k'" using covering_unique [OF same id' k k'] by simp
    obtain a n where ids: "?id k = Some a" "?id d = Some n" using k(2) by (auto simp: covers_def split: option.splits)
    then obtain cs where cs: "n = a @ cs" using covers_prefix [of meta a n] k(2) by (auto simp: prefix_def)
    have in_ds: "k \<in> set ds" using k(1) minimal_directories_subset by blast
    have covers: "manifest_covers meta a (a @ cs)" "manifest_covers meta' a (a @ cs)"
      using k(2) k'(2) ids cs \<open>k = k'\<close> by (auto simp: covers_def)
    have "s \<in> set (strings_below [] (opens d)) \<longleftrightarrow> path_under cs s \<in> set (strings_below [] (opens k))" for s
      using assms(1,3,5,7) in_ds ids cs covers k(1) verify_Inr(1) [OF assms(6) k(1)]
      by (intro covered_strings) auto
    moreover have "s \<in> set (strings_below [] (opens' d)) \<longleftrightarrow> path_under cs s \<in> set (strings_below [] (opens' k))" for s
      using assms(2,3,5,7) in_ds ids cs covers k(1) verify_Inr(2) [OF assms(6) k(1)]
      by (intro covered_strings [where meta = meta']) auto
    ultimately show ?thesis using listed [OF k(1)] by blast
  qed (rule listed)
qed

section \<open>A tree without links is a file system\<close>

fun find_entry :: "string \<Rightarrow> dir_entry list \<Rightarrow> node option" where
  "find_entry n (Entry m c # es) = (if m = n then Some c else find_entry n es)"
| "find_entry n (e # es) = find_entry n es"
| "find_entry n [] = None"

definition node_child :: "string \<Rightarrow> node \<Rightarrow> node option" where
  "node_child n node = (case node of Directory es \<Rightarrow> find_entry n es | _ \<Rightarrow> None)"

lemma find_entry_Some: "find_entry n es = Some c \<Longrightarrow> Entry n c \<in> set es"
  by (induction n es rule: find_entry.induct) (auto split: if_splits)

fun tree_walk :: "node list \<Rightarrow> path \<Rightarrow> node list option" where
  "tree_walk stack [] = Some stack"
| "tree_walk stack (Root_dir # cs) = tree_walk [last stack] cs"
| "tree_walk stack (Cur_dir # cs) = tree_walk stack cs"
| "tree_walk stack (Parent_dir # cs) = tree_walk (if length stack = 1 then stack else tl stack) cs"
| "tree_walk stack (Normal n # cs) =
     (case node_child n (hd stack) of None \<Rightarrow> None | Some c \<Rightarrow> tree_walk (c # stack) cs)"

definition tree_opens :: "node \<Rightarrow> path \<Rightarrow> node" where
  "tree_opens root p = (case tree_walk [root] p of None \<Rightarrow> Gone | Some stack \<Rightarrow> hd stack)"

definition tree_meta :: "node \<Rightarrow> link_metadata" where
  "tree_meta root p = map_option (\<lambda>stack. is_dir (hd stack)) (tree_walk [root] p)"

definition entry_names :: "dir_entry list \<Rightarrow> string list" where
  "entry_names es = concat (map (\<lambda>e. case e of Entry n _ \<Rightarrow> [n] | _ \<Rightarrow> []) es)"

fun distinct_names :: "node \<Rightarrow> bool" and distinct_names_entry :: "dir_entry \<Rightarrow> bool" where
  "distinct_names (Directory es) = (distinct (entry_names es) \<and> list_all distinct_names_entry es)"
| "distinct_names node = True"
| "distinct_names_entry (Entry n node) = distinct_names node"
| "distinct_names_entry e = True"

lemma node_child_Some:
  assumes "node_child n node = Some c"
  obtains es where "node = Directory es" "Entry n c \<in> set es"
  using assms find_entry_Some by (auto simp: node_child_def split: node.splits)

lemma entry_unique:
  "distinct (entry_names es) \<Longrightarrow> Entry n c \<in> set es \<Longrightarrow> Entry n c' \<in> set es \<Longrightarrow> c = c'"
proof (induction es)
  case (Cons e es)
  have "n \<in> set (entry_names es)" if "Entry n b \<in> set es" for b using that by (force simp: entry_names_def)
  with Cons show ?case by (auto simp: entry_names_def split: dir_entry.splits)
qed simp

lemma tree_walk_append: "tree_walk stack (p @ q) = Option.bind (tree_walk stack p) (\<lambda>stack. tree_walk stack q)"
  by (induction stack p rule: tree_walk.induct) (auto split: option.splits)

lemma tree_walk_stack:
  assumes "tree_walk stack p = Some stack'" "stack \<noteq> []" "\<forall>node \<in> set stack. distinct_names node"
  shows "stack' \<noteq> [] \<and> (\<forall>node \<in> set stack'. distinct_names node)"
  using assms
proof (induction stack p rule: tree_walk.induct)
  case (4 stack cs)
  let ?up = "if length stack = 1 then stack else tl stack"
  have "?up \<noteq> []" "set ?up \<subseteq> set stack" using "4.prems"(2) by (cases stack; auto)+
  with "4.prems" show ?case by (intro "4.IH") auto
next
  case (5 stack n cs)
  then obtain c where c: "node_child n (hd stack) = Some c" by (auto split: option.splits)
  then obtain es where es: "hd stack = Directory es" "Entry n c \<in> set es" by (rule node_child_Some)
  have "distinct_names (hd stack)" using "5.prems" by simp
  then have "distinct_names c" using es by (auto simp: list_all_iff)
  with "5.prems" c show ?case by (intro "5.IH" [OF c]) auto
qed simp_all

lemma tree_file_system:
  assumes "distinct_names root"
  shows "file_system (tree_meta root) (tree_opens root)"
proof -
  have plain: "\<exists>node stack es c. tree_walk [root] p = Some (node # stack) \<and> node = Directory es \<and>
      node_child n node = Some c \<and> is_dir c \<and> (\<forall>c'. Entry n c' \<in> set es \<longleftrightarrow> c' = c)"
    if meta: "tree_meta root (p @ [Normal n]) = Some True" for p n
  proof -
    obtain stack where stack: "tree_walk [root] p = Some stack"
      using meta by (cases "tree_walk [root] p") (auto simp: tree_meta_def tree_walk_append)
    from tree_walk_stack [OF this] assms obtain node rest where node: "stack = node # rest" "distinct_names node"
      by (cases stack) auto
    obtain c where c: "node_child n node = Some c" "is_dir c"
      using meta stack node by (auto simp: tree_meta_def tree_walk_append split: option.splits)
    then obtain es where "node = Directory es" "Entry n c \<in> set es" by (metis node_child_Some)
    with c stack node entry_unique show ?thesis by (auto; blast)
  qed
  have up: "tree_opens root (p @ Normal x # Parent_dir # q) = tree_opens root (p @ q)"
    if "tree_meta root (p @ [Normal x]) = Some True" for p x q
    using plain [OF that] by (auto simp: tree_opens_def tree_walk_append)
  have sub: "is_dir (tree_opens root (p @ [Normal n])) \<and> (\<exists>es. tree_opens root p = Directory es \<and>
      (\<forall>c. Entry n c \<in> set es \<longleftrightarrow> c = tree_opens root (p @ [Normal n])))"
    if "tree_meta root (p @ [Normal n]) = Some True" for p n
    using plain [OF that] by (auto simp: tree_opens_def tree_walk_append)
  have "tree_opens root (p @ Cur_dir # q) = tree_opens root (p @ q)"
    "tree_opens root (Root_dir # Parent_dir # q) = tree_opens root (Root_dir # q)" for p q
    by (simp_all add: tree_opens_def tree_walk_append)
  with up sub show ?thesis unfolding file_system_def by blast
qed

text \<open>A project with two include directories, one below the other.\<close>

definition example_root :: "string \<Rightarrow> node" where
  "example_root extra =
     Directory [Entry ''inc'' (Directory [Entry ''a.h'' Leaf, Entry ''sub'' (Directory [Entry ''b.h'' Leaf]), Entry extra Leaf])]"

definition example_dirs :: "path list" where
  "example_dirs = [[Root_dir, Normal ''inc''], [Root_dir, Normal ''inc'', Normal ''sub'']]"

lemma example_identity: "d \<in> set example_dirs \<Longrightarrow> manifest_directory_identity meta d = Some d"
  by (auto simp: example_dirs_def manifest_directory_identity_def push_component_def)

lemma example_minimal: "minimal_manifest_directories (tree_meta (example_root extra)) example_dirs = [[Root_dir, Normal ''inc'']]"
proof -
  have "identified (tree_meta (example_root extra)) example_dirs = map (\<lambda>d. (d, Some d)) example_dirs"
    by (simp add: example_identity identified_def example_dirs_def directory_order_def)
  moreover have "manifest_covers (tree_meta (example_root extra)) [Root_dir, Normal ''inc''] [Root_dir, Normal ''inc'', Normal ''sub'']"
    by (simp add: manifest_covers_def Let_def push_component_def tree_meta_def example_root_def node_child_def is_dir_def)
  ultimately show ?thesis by (simp add: minimal_manifest_directories_def example_dirs_def covers_def)
qed

lemma example_includable: "is_includable ''a.h''" "is_includable ''b.h''" "\<not> is_includable ''a.o''" "\<not> is_includable ''a.d''"
  by code_simp+

lemma example_opens:
  "tree_opens (example_root extra) [Root_dir, Normal ''inc''] =
     Directory [Entry ''a.h'' Leaf, Entry ''sub'' (Directory [Entry ''b.h'' Leaf]), Entry extra Leaf]"
  by (simp add: tree_opens_def example_root_def node_child_def)

lemma example_strings:
  "\<not> is_includable extra \<Longrightarrow> strings_below [] (tree_opens (example_root extra) [Root_dir, Normal ''inc'']) = [''a.h'', ''sub/b.h'']"
  by (simp add: example_opens example_includable is_dir_def relative_def)

lemma example_snapshot:
  assumes "\<not> is_includable extra"
  shows "manifest_snapshot blake3 (tree_meta (example_root extra)) (tree_opens (example_root extra)) example_dirs =
    Inr [([Root_dir, Normal ''inc''], blake3 (''a.h'' @ [newline] @ ''sub/b.h''))]"
  using snapshot_loop_readable [of "tree_opens (example_root extra)" "[[Root_dir, Normal ''inc'']]" 0 blake3 "[]"] assms
  by (simp add: manifest_snapshot_def example_minimal example_strings manifest_size_def manifests_def manifest_text_def
      MAX_MANIFEST_ENTRIES_def del: snapshot_loop.simps)
    (simp add: example_opens is_dir_def)


theorem search_path_check_is_sound_witness:
  "set (strings_below [] (tree_opens (example_root ''a.o'') [Root_dir, Normal ''inc'', Normal ''sub''])) =
     set (strings_below [] (tree_opens (example_root ''a.d'') [Root_dir, Normal ''inc'', Normal ''sub'']))"
proof (rule search_path_check_is_sound [where ?blake3.0 = "\<lambda>t. t" and ds = example_dirs
      and meta = "tree_meta (example_root ''a.o'')" and meta' = "tree_meta (example_root ''a.d'')"])
  show "file_system (tree_meta (example_root ''a.o'')) (tree_opens (example_root ''a.o''))"
    "file_system (tree_meta (example_root ''a.d'')) (tree_opens (example_root ''a.d''))"
    by (rule tree_file_system, simp add: example_root_def entry_names_def)+
  show "verify_search_path_unchanged
      (manifest_snapshot (\<lambda>t. t) (tree_meta (example_root ''a.o'')) (tree_opens (example_root ''a.o'')) example_dirs)
      (manifest_snapshot (\<lambda>t. t) (tree_meta (example_root ''a.d'')) (tree_opens (example_root ''a.d'')) example_dirs) = Inr ()"
    by (simp add: example_snapshot example_includable verify_search_path_unchanged_def)
  show "\<forall>k \<in> set (minimal_manifest_directories (tree_meta (example_root ''a.o'')) example_dirs).
      plain_names (tree_opens (example_root ''a.o'') k) \<and> plain_names (tree_opens (example_root ''a.d'') k) \<and>
      (manifest_text (tree_opens (example_root ''a.o'') k) = manifest_text (tree_opens (example_root ''a.d'') k) \<longrightarrow>
       manifest_text (tree_opens (example_root ''a.o'') k) = manifest_text (tree_opens (example_root ''a.d'') k))"
    by (simp add: example_minimal example_opens plain_name_def newline_def)
  show "\<forall>d \<in> set example_dirs. absolute_path d \<and> manifest_directory_identity (tree_meta (example_root ''a.o'')) d =
      manifest_directory_identity (tree_meta (example_root ''a.d'')) d"
    by (simp add: example_identity) (simp add: example_dirs_def absolute_path_def)
qed (simp add: example_minimal, simp add: example_dirs_def)

text \<open>
  A directory that only the second snapshot walks is not compared. An empty directory whose name is
  not includable, replaced by a link to a directory with headers, passes the check.
\<close>

definition link_dirs :: "path list" where
  "link_dirs = [[Root_dir, Normal ''k''], [Root_dir, Normal ''k'', Normal ''e.d'']]"

definition before_opens :: "path \<Rightarrow> node" where
  "before_opens p = (if p = [Root_dir, Normal ''k''] then Directory [Entry ''e.d'' (Directory [])]
     else if p = [Root_dir, Normal ''k'', Normal ''e.d''] then Directory [] else Gone)"

definition after_opens :: "path \<Rightarrow> node" where
  "after_opens p = (if p = [Root_dir, Normal ''k''] then Directory [Entry ''e.d'' Leaf]
     else if p = [Root_dir, Normal ''k'', Normal ''e.d''] then Directory [Entry ''a.h'' Leaf] else Gone)"

definition before_meta :: link_metadata where
  "before_meta p = (if p \<in> {[Root_dir], [Root_dir, Normal ''k''], [Root_dir, Normal ''k'', Normal ''e.d'']} then Some True else None)"

definition after_meta :: link_metadata where
  "after_meta = before_meta([Root_dir, Normal ''k'', Normal ''e.d''] \<mapsto> False)"

lemma new_walk_is_not_compared:
  "verify_search_path_unchanged (manifest_snapshot (\<lambda>t. t) before_meta before_opens link_dirs)
     (manifest_snapshot (\<lambda>t. t) after_meta after_opens link_dirs) = Inr ()"
  "strings_below [] (before_opens [Root_dir, Normal ''k'', Normal ''e.d'']) = []"
  "strings_below [] (after_opens [Root_dir, Normal ''k'', Normal ''e.d'']) = [''a.h'']"
  by code_simp+

end
