(* ===== verification/Path_Mapping.thy ===== *)
theory Path_Mapping
  imports Paths
begin

text \<open>
  Paths in cache keys (\<open>mbx-cache-core/src/path_mapping.rs\<close>, and \<open>denormalize_path\<close> of
  \<open>mbx-cache-cc/src/lib.rs\<close>): host roots are replaced by placeholders after links are resolved,
  through a memo of resolved directories, and a predicted text is turned back into a host path.
  The host's file system is a record of the answers of \<open>realpath\<close>, of directory listings and of
  \<open>lstat\<close>, with what the code relies on as the predicate \<open>host_laws\<close>.
\<close>

section \<open>Mappings\<close>

record path_mapping =
  root :: path
  placeholder :: string

definition ordered :: "path_mapping list \<Rightarrow> path_mapping list" where
  "ordered mappings = sort_key (\<lambda>mapping. - int (length (root mapping))) mappings"

datatype path_normalization_error = Unmapped_absolute_path path | Non_utf8 path

text \<open>\<open>utf8\<close> tells whether a file name is valid UTF-8.\<close>

fun slash_components :: "(string \<Rightarrow> bool) \<Rightarrow> path \<Rightarrow> path \<Rightarrow> path_normalization_error + string list" where
  "slash_components utf8 p [] = Inr []"
| "slash_components utf8 p (Normal n # cs) =
     (if \<not> utf8 n then Inl (Non_utf8 p)
      else case slash_components utf8 p cs of Inl e \<Rightarrow> Inl e | Inr ns \<Rightarrow> Inr (n # ns))"
| "slash_components utf8 p (c # cs) = slash_components utf8 p cs"

definition slash_path :: "(string \<Rightarrow> bool) \<Rightarrow> path \<Rightarrow> path_normalization_error + string" where
  "slash_path utf8 p = map_sum (\<lambda>e. e) (join_with (CHR ''/'')) (slash_components utf8 p p)"

definition stand_in :: "path_mapping \<Rightarrow> string" where
  "stand_in mapping = ''${'' @ placeholder mapping @ ''}''"

fun map_resolved :: "(string \<Rightarrow> bool) \<Rightarrow> path \<Rightarrow> path \<Rightarrow> path_mapping list \<Rightarrow> path_normalization_error + string" where
  "map_resolved utf8 absolute resolved [] = Inl (Unmapped_absolute_path absolute)"
| "map_resolved utf8 absolute resolved (mapping # mappings) =
     (case strip_prefix (root mapping) resolved of
        Some below \<Rightarrow>
          (case slash_path utf8 below of
             Inl e \<Rightarrow> Inl e
           | Inr names \<Rightarrow> Inr (if names = [] then stand_in mapping else stand_in mapping @ ''/'' @ names))
      | None \<Rightarrow> map_resolved utf8 absolute resolved mappings)"

section \<open>Aliases\<close>

record path_host =
  real_path :: "path \<Rightarrow> path option"
  dir_listing :: "path \<Rightarrow> string option list option"
  is_link_at :: "path \<Rightarrow> bool option"

definition MAX_DIRECTORY_ENTRIES :: nat where
  "MAX_DIRECTORY_ENTRIES = 256"

record resolved_directory =
  resolved_to :: path
  listed_names :: "string list"

type_synonym path_aliases = "path \<rightharpoonup> resolved_directory"

definition resolve_directory :: "path_host \<Rightarrow> path \<Rightarrow> resolved_directory" where
  "resolve_directory h resolved =
     \<lparr>resolved_to = resolved,
      listed_names = (case dir_listing h resolved of
                        None \<Rightarrow> []
                      | Some entries \<Rightarrow> map the (filter (\<lambda>e. e \<noteq> None) (take MAX_DIRECTORY_ENTRIES entries)))\<rparr>"

definition check_child :: "path_host \<Rightarrow> resolved_directory \<Rightarrow> string \<Rightarrow> path option" where
  "check_child h dir name =
     (let candidate = resolved_to dir @ [Normal name]
      in if name \<in> set (listed_names dir)
         then case is_link_at h candidate of
                None \<Rightarrow> None
              | Some linked \<Rightarrow> if \<not> linked then Some candidate else real_path h candidate
         else real_path h candidate)"

definition canonicalize :: "path_host \<Rightarrow> path_aliases \<Rightarrow> path \<Rightarrow> path option \<times> path_aliases" where
  "canonicalize h aliases p =
     (case (path_parent p, path_file_name p) of
        (Some parent, Some name) \<Rightarrow>
          if parent = [] then (real_path h p, aliases)
          else (case aliases parent of
                  Some dir \<Rightarrow> (check_child h dir name, aliases)
                | None \<Rightarrow>
                    (case real_path h parent of
                       None \<Rightarrow> (None, aliases)
                     | Some resolved \<Rightarrow>
                         let dir = resolve_directory h resolved
                         in (check_child h dir name, aliases(parent \<mapsto> dir))))
      | _ \<Rightarrow> (real_path h p, aliases))"

text \<open>The names found missing are kept in the order in which they are pushed back.\<close>

function resolve_loop :: "path_host \<Rightarrow> path_aliases \<Rightarrow> path \<Rightarrow> path \<Rightarrow> string list \<Rightarrow> path \<times> path_aliases" where
  "resolve_loop h aliases p existing missing =
     (case canonicalize h aliases existing of
        (Some resolved, aliases) \<Rightarrow> (normalize_components (resolved @ map Normal missing), aliases)
      | (None, aliases) \<Rightarrow>
          (case path_file_name existing of
             None \<Rightarrow> (p, aliases)
           | Some name \<Rightarrow>
               (case path_parent existing of
                  None \<Rightarrow> (p, aliases)
                | Some parent \<Rightarrow> resolve_loop h aliases p parent (name # missing))))"
  by pat_completeness auto
termination
  by (relation "measure (\<lambda>(_, _, _, existing, _). length existing)") (auto simp: path_parent_def split: if_splits)

definition resolve_path_aliases_with :: "path_host \<Rightarrow> path_aliases \<Rightarrow> path \<Rightarrow> path \<times> path_aliases" where
  "resolve_path_aliases_with h aliases p = resolve_loop h aliases p p []"

definition resolve_mapping_root :: "path_host \<Rightarrow> path \<Rightarrow> path" where
  "resolve_mapping_root h p =
     (let p = normalize_components p
      in if is_absolute p then fst (resolve_path_aliases_with h Map.empty p) else p)"

definition resolve_path_mappings :: "path_host \<Rightarrow> path_mapping list \<Rightarrow> path_mapping list" where
  "resolve_path_mappings h mappings = map (\<lambda>mapping. mapping\<lparr>root := resolve_mapping_root h (root mapping)\<rparr>) mappings"

definition absolute_from :: "path \<Rightarrow> path \<Rightarrow> path" where
  "absolute_from working_dir p =
     (if is_absolute p then normalize_components p else normalize_components (path_join working_dir p))"

definition normalize_resolved_mapped_path_with :: "(string \<Rightarrow> bool) \<Rightarrow> path_host \<Rightarrow> path_aliases \<Rightarrow> path \<Rightarrow> path \<Rightarrow>
    path_mapping list \<Rightarrow> (path_normalization_error + string) \<times> path_aliases" where
  "normalize_resolved_mapped_path_with utf8 h aliases p working_dir mappings =
     (let absolute = absolute_from working_dir p;
          (resolved, aliases) = (if is_absolute absolute then resolve_path_aliases_with h aliases absolute else (absolute, aliases))
      in (map_resolved utf8 absolute resolved mappings, aliases))"

definition normalize_resolved_mapped_path :: "(string \<Rightarrow> bool) \<Rightarrow> path_host \<Rightarrow> path \<Rightarrow> path \<Rightarrow> path_mapping list \<Rightarrow>
    path_normalization_error + string" where
  "normalize_resolved_mapped_path utf8 h p working_dir mappings =
     fst (normalize_resolved_mapped_path_with utf8 h Map.empty p working_dir mappings)"

definition normalize_mapped_path :: "(string \<Rightarrow> bool) \<Rightarrow> path_host \<Rightarrow> path \<Rightarrow> path \<Rightarrow> path_mapping list \<Rightarrow>
    path_normalization_error + string" where
  "normalize_mapped_path utf8 h p working_dir mappings =
     normalize_resolved_mapped_path utf8 h p working_dir (resolve_path_mappings h mappings)"

text \<open>One memo for the paths of a whole action.\<close>

fun normalize_paths :: "(string \<Rightarrow> bool) \<Rightarrow> path_host \<Rightarrow> path_aliases \<Rightarrow> path list \<Rightarrow> path \<Rightarrow> path_mapping list \<Rightarrow>
    (path_normalization_error + string) list" where
  "normalize_paths utf8 h aliases [] working_dir mappings = []"
| "normalize_paths utf8 h aliases (p # ps) working_dir mappings =
     (let (answer, aliases) = normalize_resolved_mapped_path_with utf8 h aliases p working_dir mappings
      in answer # normalize_paths utf8 h aliases ps working_dir mappings)"

section \<open>The memo answers as \<open>realpath\<close>\<close>

text \<open>
  Resolving a name below a directory is resolving it below the directory's real path. A real path
  is its own. A listed name that is not a link is real below a real directory. What cannot be
  examined cannot be resolved.
\<close>

definition host_laws :: "path_host \<Rightarrow> bool" where
  "host_laws h =
     (real_path h [Root_dir] = Some [Root_dir] \<and>
      (\<forall>p n. p \<noteq> [] \<longrightarrow> real_path h (p @ [Normal n]) = Option.bind (real_path h p) (\<lambda>r. real_path h (r @ [Normal n]))) \<and>
      (\<forall>p r. real_path h p = Some r \<longrightarrow> clean_path r \<and> real_path h r = Some r) \<and>
      (\<forall>p r es n. real_path h p = Some r \<longrightarrow> dir_listing h r = Some es \<longrightarrow> Some n \<in> set es \<longrightarrow>
         is_link_at h (r @ [Normal n]) = Some False \<longrightarrow> real_path h (r @ [Normal n]) = Some (r @ [Normal n])) \<and>
      (\<forall>p r n. real_path h p = Some r \<longrightarrow> is_link_at h (r @ [Normal n]) = None \<longrightarrow> real_path h (r @ [Normal n]) = None))"

lemma host_lawsD:
  assumes "host_laws h"
  shows "real_path h [Root_dir] = Some [Root_dir]"
    "p \<noteq> [] \<Longrightarrow> real_path h (p @ [Normal n]) = Option.bind (real_path h p) (\<lambda>r. real_path h (r @ [Normal n]))"
    "real_path h p = Some r \<Longrightarrow> clean_path r" "real_path h p = Some r \<Longrightarrow> real_path h r = Some r"
    "real_path h p = Some r \<Longrightarrow> dir_listing h r = Some es \<Longrightarrow> Some n \<in> set es \<Longrightarrow>
       is_link_at h (r @ [Normal n]) = Some False \<Longrightarrow> real_path h (r @ [Normal n]) = Some (r @ [Normal n])"
    "real_path h p = Some r \<Longrightarrow> is_link_at h (r @ [Normal n]) = None \<Longrightarrow> real_path h (r @ [Normal n]) = None"
  using assms unfolding host_laws_def by blast+

definition aliases_good :: "path_host \<Rightarrow> path_aliases \<Rightarrow> bool" where
  "aliases_good h aliases = (\<forall>parent dir. aliases parent = Some dir \<longrightarrow>
     (\<exists>resolved. real_path h parent = Some resolved \<and> dir = resolve_directory h resolved))"

lemma aliases_good_empty [simp]: "aliases_good h Map.empty"
  by (simp add: aliases_good_def)

lemma check_child_real:
  assumes "host_laws h" "real_path h parent = Some resolved"
  shows "check_child h (resolve_directory h resolved) name = real_path h (resolved @ [Normal name])"
proof -
  have listed: "\<exists>es. dir_listing h resolved = Some es \<and> Some name \<in> set es"
    if "name \<in> set (listed_names (resolve_directory h resolved))"
    using that in_set_takeD [of "Some name" MAX_DIRECTORY_ENTRIES]
    by (cases "dir_listing h resolved") (auto simp: resolve_directory_def)
  have "resolved_to (resolve_directory h resolved) = resolved" by (simp add: resolve_directory_def)
  moreover have "real_path h (resolved @ [Normal name]) = Some (resolved @ [Normal name])"
    if "name \<in> set (listed_names (resolve_directory h resolved))" "is_link_at h (resolved @ [Normal name]) = Some False"
    using listed [OF that(1)] that(2) host_lawsD(5) [OF assms] by blast
  ultimately show ?thesis
    using host_lawsD(6) [OF assms, of name] by (auto simp: check_child_def Let_def split: option.splits)
qed

lemma canonicalize_real:
  assumes "host_laws h" "aliases_good h aliases"
  shows "fst (canonicalize h aliases p) = real_path h p \<and> aliases_good h (snd (canonicalize h aliases p))"
proof (cases "\<exists>parent name. path_parent p = Some parent \<and> path_file_name p = Some name \<and> parent \<noteq> []")
  case True
  then obtain parent name where p: "path_parent p = Some parent" "path_file_name p = Some name" "parent \<noteq> []" by blast
  then have "p = parent @ [Normal name]"
    by (cases p rule: rev_cases) (auto simp: path_parent_def path_file_name_def split: path_component.splits if_splits)
  then have real: "real_path h p = Option.bind (real_path h parent) (\<lambda>r. real_path h (r @ [Normal name]))"
    using host_lawsD(2) [OF assms(1) p(3)] by simp
  show ?thesis
  proof (cases "aliases parent")
    case (Some dir)
    then obtain resolved where "real_path h parent = Some resolved" "dir = resolve_directory h resolved"
      using assms(2) by (auto simp: aliases_good_def)
    with Some real check_child_real [OF assms(1)] p assms(2) show ?thesis by (simp add: canonicalize_def)
  next
    case None
    show ?thesis
    proof (cases "real_path h parent")
      case (Some resolved)
      then have "aliases_good h (aliases(parent \<mapsto> resolve_directory h resolved))"
        using assms(2) by (auto simp: aliases_good_def)
      with None Some real check_child_real [OF assms(1) Some] p show ?thesis by (simp add: canonicalize_def Let_def)
    qed (use None real p assms(2) in \<open>simp add: canonicalize_def\<close>)
  qed
next
  case False
  then show ?thesis using assms(2) by (auto simp: canonicalize_def split: option.splits)
qed

text \<open>The reference: the real path of the longest prefix that has one, and the rest as written.\<close>

function resolve_ref :: "path_host \<Rightarrow> path \<Rightarrow> path" where
  "resolve_ref h p =
     (case real_path h p of
        Some r \<Rightarrow> r
      | None \<Rightarrow> if length p \<le> 1 then p else resolve_ref h (butlast p) @ [last p])"
  by pat_completeness auto
termination
  by (relation "measure (\<lambda>(_, p). length p)") auto

declare resolve_ref.simps [simp del] resolve_loop.simps [simp del]

lemma resolve_ref_snoc:
  "q \<noteq> [] \<Longrightarrow> resolve_ref h (q @ [c]) = (case real_path h (q @ [c]) of Some r \<Rightarrow> r | None \<Rightarrow> resolve_ref h q @ [c])"
  by (subst resolve_ref.simps) (simp split: option.splits)

lemma resolve_ref_clean:
  assumes "host_laws h" "clean_path p"
  shows "clean_path (resolve_ref h p)"
  using assms(2)
proof (induction rule: clean_path_induct)
  case root
  show ?case using host_lawsD(1) [OF assms(1)] by (subst resolve_ref.simps) simp
next
  case (child q n)
  have "q \<noteq> []" using child.hyps by auto
  with child.IH host_lawsD(3) [OF assms(1)] show ?case by (subst resolve_ref.simps) (auto split: option.splits)
qed

lemma resolve_loop_ref:
  assumes "host_laws h" "clean_path existing" "aliases_good h aliases"
  shows "fst (resolve_loop h aliases p existing missing) = resolve_ref h existing @ map Normal missing \<and>
    aliases_good h (snd (resolve_loop h aliases p existing missing))"
  using assms(2,3)
proof (induction existing arbitrary: aliases missing rule: clean_path_induct)
  case root
  obtain answer aliases' where c: "canonicalize h aliases [Root_dir] = (answer, aliases')" by (cases "canonicalize h aliases [Root_dir]")
  have "answer = Some [Root_dir]" "aliases_good h aliases'"
    using canonicalize_real [OF assms(1) root, of "[Root_dir]"] c host_lawsD(1) [OF assms(1)] by simp_all
  then show ?case using c host_lawsD(1) [OF assms(1)]
    by (simp add: resolve_loop.simps [of _ _ _ "[Root_dir]"] resolve_ref.simps [of _ "[Root_dir]"]
      clean_path_simps(4) [of "[Root_dir]", simplified])
next
  case (child q n)
  let ?e = "q @ [Normal n]"
  obtain answer aliases' where c: "canonicalize h aliases ?e = (answer, aliases')" by (cases "canonicalize h aliases ?e")
  have answer: "answer = real_path h ?e" "aliases_good h aliases'"
    using canonicalize_real [OF assms(1) child.prems, of ?e] c by simp_all
  have q: "q \<noteq> []" using child.hyps by auto
  show ?case
  proof (cases answer)
    case None
    have "resolve_loop h aliases p ?e missing = resolve_loop h aliases' p q (n # missing)"
      using c None by (subst resolve_loop.simps) (simp add: path_file_name_def path_parent_def)
    moreover have "resolve_ref h ?e = resolve_ref h q @ [Normal n]"
      using None answer q by (subst resolve_ref.simps) simp
    ultimately show ?thesis using child.IH [OF answer(2)] by simp
  next
    case (Some r)
    then have "clean_path r" using answer host_lawsD(3) [OF assms(1), of ?e r] by simp
    with Some answer c show ?thesis
      by (subst (1 2) resolve_loop.simps) (simp add: resolve_ref.simps [of _ ?e])
  qed
qed

lemma resolve_with_ref:
  assumes "host_laws h" "clean_path p" "aliases_good h aliases"
  shows "fst (resolve_path_aliases_with h aliases p) = resolve_ref h p"
    "aliases_good h (snd (resolve_path_aliases_with h aliases p))"
  using resolve_loop_ref [OF assms, of p "[]"] by (simp_all add: resolve_path_aliases_with_def)

lemma normalize_with_good:
  assumes "host_laws h" "is_absolute working_dir" "aliases_good h aliases"
  shows "fst (normalize_resolved_mapped_path_with utf8 h aliases p working_dir mappings) =
      map_resolved utf8 (absolute_from working_dir p) (resolve_ref h (absolute_from working_dir p)) mappings"
    "aliases_good h (snd (normalize_resolved_mapped_path_with utf8 h aliases p working_dir mappings))"
proof -
  have clean: "clean_path (absolute_from working_dir p)"
    using assms(2) by (auto simp: absolute_from_def path_join_def intro!: normalize_components_clean) (simp add: is_absolute_def)
  from resolve_with_ref [OF assms(1) this assms(3)] clean
  show "fst (normalize_resolved_mapped_path_with utf8 h aliases p working_dir mappings) =
      map_resolved utf8 (absolute_from working_dir p) (resolve_ref h (absolute_from working_dir p)) mappings"
    "aliases_good h (snd (normalize_resolved_mapped_path_with utf8 h aliases p working_dir mappings))"
    by (simp_all add: normalize_resolved_mapped_path_with_def Let_def split_def)
qed


section \<open>Back from a text to a path\<close>

lemma resolve_ref_real:
  assumes "host_laws h" "clean_path p"
  shows "real_path h (resolve_ref h p) = real_path h p"
  using assms(2)
proof (induction rule: clean_path_induct)
  case root
  show ?case by (simp add: host_lawsD(1) [OF assms(1)] resolve_ref.simps [of _ "[Root_dir]"])
next
  case (child q n)
  have q: "q \<noteq> []" "resolve_ref h q \<noteq> []" using child.hyps resolve_ref_clean [OF assms(1), of q] by auto
  show ?case
  proof (cases "real_path h (q @ [Normal n])")
    case None
    then have "resolve_ref h (q @ [Normal n]) = resolve_ref h q @ [Normal n]" using q by (subst resolve_ref.simps) simp
    with child.IH q show ?thesis by (simp add: host_lawsD(2) [OF assms(1)])
  next
    case (Some r)
    then show ?thesis using host_lawsD(4) [OF assms(1)] by (subst resolve_ref.simps) auto
  qed
qed

lemma resolve_ref_idem:
  assumes "host_laws h" "clean_path p"
  shows "resolve_ref h (resolve_ref h p) = resolve_ref h p"
  using assms(2)
proof (induction rule: clean_path_induct)
  case root
  show ?case by (simp add: host_lawsD(1) [OF assms(1)] resolve_ref.simps [of _ "[Root_dir]"])
next
  case (child q n)
  have q: "q \<noteq> []" "resolve_ref h q \<noteq> []" using child.hyps resolve_ref_clean [OF assms(1), of q] by auto
  have real: "real_path h (resolve_ref h (q @ [Normal n])) = real_path h (q @ [Normal n])"
    using child.hyps assms(1) by (intro resolve_ref_real) simp_all
  show ?case
  proof (cases "real_path h (q @ [Normal n])")
    case None
    then have "resolve_ref h (q @ [Normal n]) = resolve_ref h q @ [Normal n]" using q by (subst resolve_ref.simps) simp
    with None real child.IH q show ?thesis by (simp add: resolve_ref.simps [of _ "resolve_ref h q @ [Normal n]"])
  next
    case (Some r)
    then have "resolve_ref h (q @ [Normal n]) = r" by (subst resolve_ref.simps) simp
    with Some real show ?thesis by (simp add: resolve_ref.simps [of _ r])
  qed
qed

lemma resolve_ref_append:
  assumes "host_laws h" "clean_path p"
  shows "real_path h (resolve_ref h p @ map Normal ns) = real_path h (p @ map Normal ns) \<and>
    resolve_ref h (resolve_ref h p @ map Normal ns) = resolve_ref h (p @ map Normal ns)"
proof (induction ns rule: rev_induct)
  case Nil
  show ?case using resolve_ref_real [OF assms] resolve_ref_idem [OF assms] by simp
next
  case (snoc n ns)
  have ne: "p @ map Normal ns \<noteq> []" "resolve_ref h p @ map Normal ns \<noteq> []"
    using assms resolve_ref_clean [OF assms] by auto
  have "real_path h ((resolve_ref h p @ map Normal ns) @ [Normal n]) = real_path h ((p @ map Normal ns) @ [Normal n])"
    using snoc host_lawsD(2) [OF assms(1) ne(1), of n] host_lawsD(2) [OF assms(1) ne(2), of n] by simp
  moreover from this have "resolve_ref h ((resolve_ref h p @ map Normal ns) @ [Normal n]) = resolve_ref h ((p @ map Normal ns) @ [Normal n])"
    using snoc by (simp only: resolve_ref_snoc [OF ne(1)] resolve_ref_snoc [OF ne(2)])
  ultimately show ?case by simp
qed

text \<open>\<open>Path::components\<close> of a text.\<close>

definition part_component :: "string \<Rightarrow> path" where
  "part_component w =
     (if w = [] \<or> w = ''.'' then [] else if w = ''..'' then [Parent_dir] else [Normal w])"

definition parse_path :: "string \<Rightarrow> path" where
  "parse_path s =
     (let parts = split_on (CHR ''/'') s
      in (if starts_with ''/'' s then [Root_dir] else if hd parts = ''.'' then [Cur_dir] else []) @ concat (map part_component parts))"

definition SYSTEM_ROOTS :: "string list" where
  "SYSTEM_ROOTS = [''/Applications/Xcode.app'', ''/Library/Developer'', ''/nix/store'', ''/usr/include'', ''/usr/lib'',
     ''/usr/local/include'']"

text \<open>\<open>developer_roots\<close> asks the system for the selected developer tools: an argument.\<close>

definition is_system_path :: "path list \<Rightarrow> path \<Rightarrow> bool" where
  "is_system_path developer_roots p =
     (list_ex (\<lambda>r. starts_with (parse_path r) p) SYSTEM_ROOTS \<or> list_ex (\<lambda>r. starts_with r p) developer_roots)"

definition safe_suffix :: "string \<Rightarrow> bool" where
  "safe_suffix s = (s = [] \<or> \<not> list_ex (\<lambda>c. c = [] \<or> c = ''.'' \<or> c = ''..'' \<or> CHR 0x5C \<in> set c) (split_on (CHR ''/'') s))"

datatype denormalize_error = Invalid_predicted_input string

fun denormalize_path :: "path list \<Rightarrow> string \<Rightarrow> path_mapping list \<Rightarrow> denormalize_error + path" where
  "denormalize_path developer_roots v [] =
     (let p = parse_path v
      in if is_absolute p \<and> is_system_path developer_roots p \<and> normalize_components p = p then Inr p
         else Inl (Invalid_predicted_input v))"
| "denormalize_path developer_roots v (mapping # mappings) =
     (case (if v = stand_in mapping then Some [] else strip_prefix (stand_in mapping @ ''/'') v) of
        None \<Rightarrow> denormalize_path developer_roots v mappings
      | Some rest \<Rightarrow>
          if \<not> is_absolute (root mapping) \<or> \<not> safe_suffix rest then Inl (Invalid_predicted_input v)
          else Inr (normalize_components (root mapping) @ map Normal (filter (\<lambda>c. c \<noteq> []) (split_on (CHR ''/'') rest))))"

text \<open>What the adapters check of a list of mappings.\<close>

definition placeholder_char :: "char \<Rightarrow> bool" where
  "placeholder_char c = (CHR ''0'' \<le> c \<and> c \<le> CHR ''9'' \<or> CHR ''A'' \<le> c \<and> c \<le> CHR ''Z'' \<or> CHR ''a'' \<le> c \<and> c \<le> CHR ''z'' \<or> c = CHR ''_'')"

definition valid_mappings :: "path_mapping list \<Rightarrow> bool" where
  "valid_mappings mappings =
     (list_all (\<lambda>m. is_absolute (root m) \<and> placeholder m \<noteq> [] \<and> list_all placeholder_char (placeholder m)) mappings \<and>
      distinct (map placeholder mappings))"

definition mapped_text :: "path_mapping \<Rightarrow> string list \<Rightarrow> string" where
  "mapped_text mapping ns = (if ns = [] then stand_in mapping else stand_in mapping @ ''/'' @ join_with (CHR ''/'') ns)"

definition plain_component :: "string \<Rightarrow> bool" where
  "plain_component n = (n \<noteq> [] \<and> n \<noteq> ''.'' \<and> n \<noteq> ''..'' \<and> CHR ''/'' \<notin> set n \<and> CHR 0x5C \<notin> set n)"

lemma slash_components_names:
  "slash_components utf8 p (map Normal ns) = (if list_all utf8 ns then Inr ns else Inl (Non_utf8 p))"
  by (induction ns) auto

lemma join_names_Nil: "list_all (\<lambda>n. n \<noteq> []) ns \<Longrightarrow> join_with c ns = [] \<longleftrightarrow> ns = []"
  by (cases "(c, ns)" rule: join_with.cases) auto

lemma slash_path_names:
  "slash_path utf8 (map Normal ns) =
     (if list_all utf8 ns then Inr (join_with (CHR ''/'') ns) else Inl (Non_utf8 (map Normal ns)))"
  by (simp add: slash_path_def slash_components_names)

lemma map_resolved_text:
  assumes "map_resolved utf8 absolute resolved mappings = Inr s" "clean_path resolved"
    and "\<forall>m \<in> set mappings. clean_path (root m)" "\<forall>n. Normal n \<in> set resolved \<longrightarrow> n \<noteq> []"
  shows "\<exists>m \<in> set mappings. \<exists>ns. resolved = root m @ map Normal ns \<and> s = mapped_text m ns"
  using assms(1,3)
proof (induction mappings)
  case (Cons m mappings)
  show ?case
  proof (cases "strip_prefix (root m) resolved")
    case (Some below)
    then have below: "resolved = root m @ below" by (simp add: strip_prefix_eq_Some)
    moreover have "root m \<noteq> []" using Cons.prems(2) by auto
    ultimately obtain ns where ns: "below = map Normal ns" using assms(2) clean_append by metis
    then have "list_all (\<lambda>n. n \<noteq> []) ns" using below assms(4) by (auto simp: list_all_iff)
    with Cons.prems(1) Some ns have "s = mapped_text m ns"
      by (auto simp: mapped_text_def slash_path_names join_names_Nil split: if_splits)
    with below ns show ?thesis by auto
  qed (use Cons in auto)
qed simp

lemma map_resolved_other: "map_resolved utf8 a r ms = Inr s \<Longrightarrow> map_resolved utf8 a' r ms = Inr s"
  by (induction ms) (auto split: option.splits)

lemma stand_in_inject:
  assumes "stand_in m @ v = stand_in m' @ w" "list_all placeholder_char (placeholder m)" "list_all placeholder_char (placeholder m')"
  shows "placeholder m = placeholder m'"
proof -
  have brace: "CHR ''}'' \<notin> set (placeholder k)" if "list_all placeholder_char (placeholder k)" for k
    using that by (auto simp: list_all_iff placeholder_char_def less_eq_char_def)
  have "placeholder m @ CHR ''}'' # v = placeholder m' @ CHR ''}'' # w" using assms(1) by (simp add: stand_in_def)
  then show ?thesis
    using split_on_append [OF brace [OF assms(2)], of v] split_on_append [OF brace [OF assms(3)], of w] by simp
qed

lemma denormalize_mapped_text:
  assumes "valid_mappings mappings" "m \<in> set mappings" "list_all plain_component ns"
  shows "denormalize_path developer_roots (mapped_text m ns) mappings = Inr (normalize_components (root m) @ map Normal ns)"
  using assms(1,2)
proof (induction mappings)
  case (Cons k mappings)
  have valid: "list_all placeholder_char (placeholder k)" "list_all placeholder_char (placeholder m)" "is_absolute (root m)"
    using Cons.prems by (auto simp: valid_mappings_def list_all_iff)
  have "\<exists>w. mapped_text m ns = stand_in m @ w" by (simp add: mapped_text_def)
  then obtain w where w: "mapped_text m ns = stand_in m @ w" by blast
  have same: "k = m" if "mapped_text m ns = stand_in k @ v" for v
  proof -
    have "stand_in m @ w = stand_in k @ v" using w that by simp
    from stand_in_inject [OF this valid(2,1)] have "placeholder m = placeholder k" .
    with Cons.prems show ?thesis by (auto simp: valid_mappings_def rev_image_eqI)
  qed
  show ?case
  proof (cases "k = m")
    case True
    have words: "split_on (CHR ''/'') (join_with (CHR ''/'') ns) = ns" if "ns \<noteq> []"
      using that assms(3) by (intro split_join) (auto simp: plain_component_def list_all_iff)
    have names: "filter (\<lambda>c. c \<noteq> []) ns = ns" "\<not> list_ex (\<lambda>c. c = [] \<or> c = ''.'' \<or> c = ''..'' \<or> CHR 0x5C \<in> set c) ns"
      using assms(3) by (auto simp: plain_component_def list_all_iff list_ex_iff filter_id_conv)
    have "strip_prefix (stand_in m @ ''/'') (stand_in m @ ''/'' @ s) = Some s" for s
      using strip_prefix_append [of "stand_in m @ ''/''" s] by simp
    with True words names valid(3) show ?thesis by (cases "ns = []") (simp_all add: mapped_text_def safe_suffix_def)
  next
    case False
    have "strip_prefix (stand_in k @ ''/'') (mapped_text m ns) \<noteq> Some rest" for rest
      using same [of "''/'' @ rest"] False by (auto simp: strip_prefix_eq_Some)
    then have "mapped_text m ns \<noteq> stand_in k" "strip_prefix (stand_in k @ ''/'') (mapped_text m ns) = None"
      using same [of "[]"] False by auto
    with Cons False show ?thesis by (simp add: valid_mappings_def)
  qed
qed simp

lemma resolved_roots_clean:
  assumes "host_laws h" "valid_mappings mappings" "m \<in> set (resolve_path_mappings h mappings)"
  obtains k where "k \<in> set mappings" "m = k\<lparr>root := resolve_ref h (normalize_components (root k))\<rparr>"
    "clean_path (normalize_components (root k))" "clean_path (root m)"
proof -
  obtain k where k: "k \<in> set mappings" "m = k\<lparr>root := resolve_mapping_root h (root k)\<rparr>"
    using assms(3) by (auto simp: resolve_path_mappings_def)
  have clean: "clean_path (normalize_components (root k))"
    using k(1) assms(2) by (auto simp: valid_mappings_def list_all_iff intro: normalize_components_clean)
  then have "resolve_mapping_root h (root k) = resolve_ref h (normalize_components (root k))"
    using resolve_with_ref(1) [OF assms(1) clean, of Map.empty] by (simp add: resolve_mapping_root_def)
  with that [OF k(1)] k(2) clean resolve_ref_clean [OF assms(1) clean] show thesis by simp
qed

lemma absolute_from_clean: "is_absolute working_dir \<Longrightarrow> clean_path (absolute_from working_dir p)"
  by (auto simp: absolute_from_def path_join_def intro!: normalize_components_clean) (simp add: is_absolute_def)

lemma normalize_mapped_ref:
  assumes "host_laws h" "is_absolute working_dir"
  shows "normalize_mapped_path utf8 h p working_dir mappings =
    map_resolved utf8 (absolute_from working_dir p) (resolve_ref h (absolute_from working_dir p)) (resolve_path_mappings h mappings)"
  using normalize_with_good(1) [OF assms aliases_good_empty]
  by (simp add: normalize_mapped_path_def normalize_resolved_mapped_path_def)

lemma mapped_text_back:
  assumes "host_laws h" "is_absolute working_dir" "valid_mappings mappings"
    and "normalize_mapped_path utf8 h p working_dir mappings = Inr s"
    and "\<forall>n. Normal n \<in> set (resolve_ref h (absolute_from working_dir p)) \<longrightarrow> plain_component n"
  shows "\<exists>k \<in> set mappings. \<exists>ns. list_all plain_component ns \<and> clean_path (normalize_components (root k)) \<and>
    denormalize_path developer_roots s mappings = Inr (normalize_components (root k) @ map Normal ns) \<and>
    normalize_mapped_path utf8 h (normalize_components (root k) @ map Normal ns) working_dir mappings = Inr s"
proof -
  let ?a = "absolute_from working_dir p" and ?ms = "resolve_path_mappings h mappings"
  let ?r = "resolve_ref h ?a"
  note clean = absolute_from_clean [OF assms(2)] and normalize = normalize_mapped_ref [OF assms(1,2)]
  have s: "map_resolved utf8 ?a ?r ?ms = Inr s" using assms(4) normalize by simp
  have "\<forall>m \<in> set ?ms. clean_path (root m)" using resolved_roots_clean [OF assms(1,3)] by metis
  moreover have "\<forall>n. Normal n \<in> set ?r \<longrightarrow> n \<noteq> []" using assms(5) by (auto simp: plain_component_def)
  ultimately obtain m ns where m: "m \<in> set ?ms" "?r = root m @ map Normal ns" "s = mapped_text m ns"
    using map_resolved_text [OF s resolve_ref_clean [OF assms(1) clean]] by blast
  obtain k where k: "k \<in> set mappings" "m = k\<lparr>root := resolve_ref h (normalize_components (root k))\<rparr>"
    "clean_path (normalize_components (root k))" using resolved_roots_clean [OF assms(1,3) m(1)] by metis
  let ?q = "normalize_components (root k) @ map Normal ns"
  have "resolve_ref h ?q = resolve_ref h ?r"
    using resolve_ref_append [OF assms(1) k(3), of ns] m(2) k(2) by simp
  then have "resolve_ref h ?q = ?r" using resolve_ref_idem [OF assms(1) clean] by simp
  moreover have "absolute_from working_dir ?q = ?q" using k(3) by (simp add: absolute_from_def)
  ultimately have "normalize_mapped_path utf8 h ?q working_dir mappings = Inr s"
    using normalize [of utf8 ?q] map_resolved_other [OF s] by simp
  moreover have "s = mapped_text k ns" using m(3) k(2) by (simp add: mapped_text_def stand_in_def)
  moreover have "list_all plain_component ns" using assms(5) m(2) by (auto simp: list_all_iff)
  ultimately show ?thesis using denormalize_mapped_text [OF assms(3) k(1)] k(1,3) by blast
qed

text \<open>
  A predicted input names the same file to the key that predicted it. The text a path gets in an
  action key is turned back into a host path, and that path gets the very same text again, for any
  links in the path or in the mapped roots and for paths whose last part does not exist yet.
  The mappings are as the adapters validate them, and no name has a backslash, which the
  reader of predictions refuses.
\<close>

theorem predicted_path_keeps_its_text:
  assumes "host_laws h" "is_absolute working_dir" "valid_mappings mappings"
    and "normalize_mapped_path utf8 h p working_dir mappings = Inr s"
    and "\<forall>n. Normal n \<in> set (fst (resolve_path_aliases_with h Map.empty (absolute_from working_dir p))) \<longrightarrow> plain_component n"
  shows "\<exists>q. denormalize_path developer_roots s mappings = Inr q \<and> normalize_mapped_path utf8 h q working_dir mappings = Inr s"
proof -
  have "\<forall>n. Normal n \<in> set (resolve_ref h (absolute_from working_dir p)) \<longrightarrow> plain_component n"
    using assms(5) resolve_with_ref(1) [OF assms(1) absolute_from_clean [OF assms(2)] aliases_good_empty] by simp
  from mapped_text_back [OF assms(1-4) this] show ?thesis by blast
qed

section \<open>A host with a link\<close>

text \<open>A checkout in \<open>/real\<close> that is also reached through the link \<open>/w\<close>.\<close>

definition example_existing :: "path list" where
  "example_existing = [[Root_dir], [Root_dir, Normal ''real''], [Root_dir, Normal ''real'', Normal ''src'']]"

definition example_step :: "path \<Rightarrow> path_component \<Rightarrow> path option" where
  "example_step r c =
     (case c of
        Root_dir \<Rightarrow> Some [Root_dir]
      | Cur_dir \<Rightarrow> Some r
      | Parent_dir \<Rightarrow> Some (pop_component r)
      | Normal n \<Rightarrow>
          if r @ [c] = [Root_dir, Normal ''w''] then Some [Root_dir, Normal ''real'']
          else if r @ [c] \<in> set example_existing then Some (r @ [c]) else None)"

fun example_walk :: "path \<Rightarrow> path \<Rightarrow> path option" where
  "example_walk r [] = Some r"
| "example_walk r (c # cs) = Option.bind (example_step r c) (\<lambda>r. example_walk r cs)"

definition example_host :: path_host where
  "example_host =
     \<lparr>real_path = (\<lambda>p. if is_absolute p then example_walk [Root_dir] p else None),
      dir_listing = (\<lambda>p. if p = [Root_dir] then Some [Some ''real'', Some ''w'']
                         else if p = [Root_dir, Normal ''real''] then Some [Some ''src''] else None),
      is_link_at = (\<lambda>p. if p = [Root_dir, Normal ''w''] then Some True
                        else if p \<in> set example_existing then Some False else None)\<rparr>"

lemma example_walk_append: "example_walk r (p @ q) = Option.bind (example_walk r p) (\<lambda>r. example_walk r q)"
  by (induction p arbitrary: r) (auto simp: bind_assoc)

lemma example_walk_existing: "example_walk r p = Some q \<Longrightarrow> r \<in> set example_existing \<Longrightarrow> q \<in> set example_existing"
proof (induction p arbitrary: r)
  case (Cons c cs)
  then obtain r' where r': "example_step r c = Some r'" "example_walk r' cs = Some q" by (auto simp: bind_eq_Some_conv)
  have "r' \<in> set example_existing"
    using r'(1) Cons.prems(2) by (cases c) (auto simp: example_step_def example_existing_def pop_component_def split: if_splits)
  with r'(2) Cons.IH show ?case by blast
qed simp

lemma example_existing_real:
  "r \<in> set example_existing \<Longrightarrow> clean_path r \<and> is_absolute r \<and> example_walk [Root_dir] r = Some r"
  by (auto simp: example_existing_def example_step_def is_absolute_def clean_path_def
      intro: exI [of _ "[''real'']"] exI [of _ "[''real'', ''src'']"])

lemma example_host_laws: "host_laws example_host"
proof -
  have real: "r \<in> set example_existing" if "real_path example_host p = Some r" for p r
    using that example_walk_existing [of "[Root_dir]" p r] by (auto simp: example_host_def example_existing_def split: if_splits)
  have below: "real_path example_host (r @ [Normal n]) = example_step r (Normal n)" if "r \<in> set example_existing" for r n
    using example_existing_real [OF that]
    by (auto simp: example_host_def example_walk_append is_absolute_def)
  have step: "real_path example_host (p @ [Normal n]) = Option.bind (real_path example_host p) (\<lambda>r. real_path example_host (r @ [Normal n]))"
    if "p \<noteq> []" for p n
  proof (cases "real_path example_host p")
    case None
    then show ?thesis using that by (auto simp: example_host_def example_walk_append is_absolute_def split: if_splits)
  next
    case (Some r)
    then have "real_path example_host (p @ [Normal n]) = example_step r (Normal n)"
      using that by (auto simp: example_host_def example_walk_append is_absolute_def split: if_splits)
    with Some below [OF real [OF Some]] show ?thesis by simp
  qed
  have own: "clean_path r \<and> real_path example_host r = Some r" if "real_path example_host p = Some r" for p r
    using example_existing_real [OF real [OF that]] by (simp add: example_host_def)
  have plain: "real_path example_host (r @ [Normal n]) = Some (r @ [Normal n])"
    if "real_path example_host p = Some r" "is_link_at example_host (r @ [Normal n]) = Some False" for p r n
    using that(2) below [OF real [OF that(1)]] by (auto simp: example_host_def example_step_def split: if_splits)
  have missing: "real_path example_host (r @ [Normal n]) = None"
    if "real_path example_host p = Some r" "is_link_at example_host (r @ [Normal n]) = None" for p r n
    using that(2) below [OF real [OF that(1)]] by (auto simp: example_host_def example_step_def split: if_splits)
  have "real_path example_host [Root_dir] = Some [Root_dir]"
    by (simp add: example_host_def example_step_def is_absolute_def)
  with step own plain missing show ?thesis unfolding host_laws_def by blast
qed

definition example_mappings :: "path_mapping list" where
  "example_mappings = [\<lparr>root = [Root_dir, Normal ''w''], placeholder = ''workspace''\<rparr>]"

lemma example_text:
  "normalize_mapped_path (\<lambda>_. True) example_host [Root_dir, Normal ''real'', Normal ''src'', Normal ''new.c''] [Root_dir] example_mappings =
     Inr ''${workspace}/src/new.c''"
  by code_simp

lemma example_resolved:
  "fst (resolve_path_aliases_with example_host Map.empty
      (absolute_from [Root_dir] [Root_dir, Normal ''real'', Normal ''src'', Normal ''new.c''])) =
     [Root_dir, Normal ''real'', Normal ''src'', Normal ''new.c'']"
  by code_simp


theorem predicted_path_keeps_its_text_witness:
  "\<exists>q. denormalize_path [] ''${workspace}/src/new.c'' example_mappings = Inr q \<and>
     normalize_mapped_path (\<lambda>_. True) example_host q [Root_dir] example_mappings = Inr ''${workspace}/src/new.c''"
  by (rule predicted_path_keeps_its_text [OF example_host_laws _ _ example_text])
    (simp_all only: example_resolved, simp_all add: is_absolute_def valid_mappings_def example_mappings_def placeholder_char_def less_eq_char_def plain_component_def)

end
