(* ===== verification/Cc_Action.thy ===== *)
theory Cc_Action
  imports Path_Mapping Protocol Ordered_Map
begin

text \<open>
  The action key of a C or C++ compile (\<open>ActionBuilder\<close> of \<open>mbx-cache-cc/src/lib.rs\<close>): the
  validation of path mappings, the texts of arguments and inputs, and the descriptor whose digest
  is the key. Canonical JSON, the hash function and the file system of the host are arguments.
\<close>

section \<open>Data\<close>

datatype argument = Plain string | Path_argument string path | Prefix_map string path string | Source_argument path

record cc_compiler_identity =
  family :: string
  version_text :: string
  target :: string
  assembler :: string

record cc_action_input =
  input_path :: string
  input_digest :: digest

record cc_action_context =
  cc_compiler :: cc_compiler_identity
  working_dir :: path
  path_mappings :: "path_mapping list"
  cc_environment :: "(string, string option) btree_map"
  cc_inputs :: "cc_action_input list"

text \<open>The fields of \<open>CcInvocation\<close> that enter a key.\<close>

record cc_invocation =
  arguments :: "argument list"
  required_inputs :: "path list"
  preprocessed_assembly :: bool
  preprocessing_arguments :: "string list option"

record preprocessing_context =
  pp_working_dir :: path
  pp_arguments :: "string list"
  pp_roots :: "(string, path) btree_map"

record cc_path_binding =
  pb_working_dir :: path
  pb_arguments :: "argument list"
  pb_roots :: "(string, path) btree_map"

record cc_invocation_descriptor =
  id_assembly_input_model :: "nat option"
  id_preprocessing :: "preprocessing_context option"
  id_compiler :: cc_compiler_identity
  id_arguments :: "string list"
  id_required_inputs :: "string list"

record cc_action_descriptor =
  ad_path_binding :: "cc_path_binding option"
  ad_version :: nat
  ad_adapter_version :: nat
  ad_assembly_input_model :: "nat option"
  ad_preprocessing :: "preprocessing_context option"
  ad_compiler :: cc_compiler_identity
  ad_arguments :: "string list"
  ad_environment :: "(string, string option) btree_map"
  ad_inputs :: "(string \<times> digest) list"

datatype cc_action_error = Cc_unmapped_absolute_path path | Cc_non_utf8_path path
  | Relative_working_directory path | Relative_path_mapping path | Invalid_path_placeholder string
  | Invalid_input_digest string | Conflicting_input string | Missing_required_input string

definition cc_error_of :: "path_normalization_error \<Rightarrow> cc_action_error" where
  "cc_error_of e = (case e of Unmapped_absolute_path p \<Rightarrow> Cc_unmapped_absolute_path p | Non_utf8 p \<Rightarrow> Cc_non_utf8_path p)"

definition ACTION_SCHEMA_VERSION :: nat where "ACTION_SCHEMA_VERSION = 1"

definition ADAPTER_VERSION :: nat where "ADAPTER_VERSION = 1"

definition INCLUDE_MANIFEST_PREFIX :: string where "INCLUDE_MANIFEST_PREFIX = ''@include-manifest:''"

section \<open>Validation of mappings\<close>

fun validate_loop :: "path set \<Rightarrow> string set \<Rightarrow> path_mapping list \<Rightarrow> cc_action_error + unit" where
  "validate_loop roots placeholders [] = Inr ()"
| "validate_loop roots placeholders (m # ms) =
     (if \<not> is_absolute (root m) then Inl (Relative_path_mapping (root m))
      else if placeholder m = [] \<or> \<not> list_all placeholder_char (placeholder m) \<or>
              normalize_components (root m) \<in> roots \<or> placeholder m \<in> placeholders
      then Inl (Invalid_path_placeholder (placeholder m))
      else validate_loop (insert (normalize_components (root m)) roots) (insert (placeholder m) placeholders) ms)"

definition validate_mappings :: "cc_action_context \<Rightarrow> cc_action_error + unit" where
  "validate_mappings ctx =
     (if \<not> is_absolute (working_dir ctx) then Inl (Relative_working_directory (working_dir ctx))
      else validate_loop {} {} (path_mappings ctx))"

lemma validate_loop_valid:
  assumes "validate_loop roots placeholders ms = Inr ()"
  shows "valid_mappings ms \<and> set (map placeholder ms) \<inter> placeholders = {} \<and>
    distinct (map (normalize_components \<circ> root) ms) \<and> set (map (normalize_components \<circ> root) ms) \<inter> roots = {}"
  using assms
  by (induction roots placeholders ms rule: validate_loop.induct) (auto simp: valid_mappings_def split: if_splits)

section \<open>Texts\<close>

text \<open>\<open>PathBuf::to_str\<close> of a normalised absolute path.\<close>

definition component_names :: "path \<Rightarrow> string list" where
  "component_names p = concat (map (\<lambda>c. case c of Normal n \<Rightarrow> [n] | _ \<Rightarrow> []) p)"

definition show_path :: "path \<Rightarrow> string" where
  "show_path p = ''/'' @ join_with (CHR ''/'') (component_names p)"

record cc_world =
  utf8 :: "string \<Rightarrow> bool"
  path_world :: path_host
  developer_roots :: "path list"

record action_builder =
  builder_context :: cc_action_context
  mappings :: "path_mapping list"

definition new_builder :: "cc_world \<Rightarrow> cc_action_context \<Rightarrow> action_builder" where
  "new_builder w ctx =
     (let ctx = ctx\<lparr>path_mappings := ordered (path_mappings ctx)\<rparr>
      in \<lparr>builder_context = ctx, mappings = resolve_path_mappings (path_world w) (path_mappings ctx)\<rparr>)"

definition normalize_path :: "cc_world \<Rightarrow> action_builder \<Rightarrow> path_aliases \<Rightarrow> path \<Rightarrow> (cc_action_error + string) \<times> path_aliases" where
  "normalize_path w b aliases p =
     (let (answer, aliases) = normalize_resolved_mapped_path_with (utf8 w) (path_world w) aliases p
            (working_dir (builder_context b)) (mappings b)
      in (case answer of
            Inr normalized \<Rightarrow> Inr normalized
          | Inl reason \<Rightarrow>
              let absolute = absolute_from (working_dir (builder_context b)) p
              in if is_system_path (developer_roots w) absolute
                 then if list_all (utf8 w) (component_names absolute) then Inr (show_path absolute)
                      else Inl (Cc_non_utf8_path absolute)
                 else Inl (cc_error_of reason),
          aliases))"

definition normalize_input_path :: "cc_world \<Rightarrow> action_builder \<Rightarrow> path_aliases \<Rightarrow> string \<Rightarrow> (cc_action_error + string) \<times> path_aliases" where
  "normalize_input_path w b aliases p =
     (case (if utf8 w p then strip_prefix INCLUDE_MANIFEST_PREFIX p else None) of
        Some directory \<Rightarrow>
          (let (answer, aliases) = normalize_path w b aliases (parse_path directory)
           in (map_sum (\<lambda>e. e) (\<lambda>t. INCLUDE_MANIFEST_PREFIX @ t) answer, aliases))
      | None \<Rightarrow> normalize_path w b aliases (parse_path p))"

definition normalize_argument :: "cc_world \<Rightarrow> action_builder \<Rightarrow> path_aliases \<Rightarrow> argument \<Rightarrow> (cc_action_error + string) \<times> path_aliases" where
  "normalize_argument w b aliases a =
     (case a of
        Plain v \<Rightarrow> (Inr v, aliases)
      | Path_argument flag p \<Rightarrow>
          (let (answer, aliases) = normalize_path w b aliases p
           in (map_sum (\<lambda>e. e) (\<lambda>t. flag @ ''='' @ t) answer, aliases))
      | Prefix_map flag p to \<Rightarrow>
          (let (answer, aliases) = normalize_path w b aliases p
           in (map_sum (\<lambda>e. e) (\<lambda>t. flag @ ''='' @ t @ ''='' @ to) answer, aliases))
      | Source_argument p \<Rightarrow> normalize_path w b aliases p)"

text \<open>\<open>map(..).collect::<Result<..>>()\<close>, stopping at the first error.\<close>

fun collect_texts :: "(path_aliases \<Rightarrow> 'x \<Rightarrow> (cc_action_error + string) \<times> path_aliases) \<Rightarrow> path_aliases \<Rightarrow> 'x list \<Rightarrow>
    (cc_action_error + string list) \<times> path_aliases" where
  "collect_texts f aliases [] = (Inr [], aliases)"
| "collect_texts f aliases (x # xs) =
     (case f aliases x of
        (Inl e, aliases) \<Rightarrow> (Inl e, aliases)
      | (Inr t, aliases) \<Rightarrow>
          (case collect_texts f aliases xs of (Inl e, aliases) \<Rightarrow> (Inl e, aliases) | (Inr ts, aliases) \<Rightarrow> (Inr (t # ts), aliases)))"

definition btree_set :: "'a::linorder list \<Rightarrow> 'a list" where
  "btree_set xs = sort (remdups xs)"

definition roots_of :: "path_mapping list \<Rightarrow> (string, path) btree_map" where
  "roots_of ms = fold (\<lambda>m. bt_insert (placeholder m) (root m)) ms []"

section \<open>The action\<close>

definition invocation_descriptor :: "cc_world \<Rightarrow> action_builder \<Rightarrow> cc_invocation \<Rightarrow> path_aliases \<Rightarrow>
    (cc_action_error + cc_invocation_descriptor) \<times> path_aliases" where
  "invocation_descriptor w b iv aliases =
     (case validate_mappings (builder_context b) of
        Inl e \<Rightarrow> (Inl e, aliases)
      | Inr _ \<Rightarrow>
          (case collect_texts (normalize_argument w b) aliases (arguments iv) of
             (Inl e, aliases) \<Rightarrow> (Inl e, aliases)
           | (Inr texts, aliases) \<Rightarrow>
               (case collect_texts (normalize_path w b) aliases (required_inputs iv) of
                  (Inl e, aliases) \<Rightarrow> (Inl e, aliases)
                | (Inr required, aliases) \<Rightarrow>
                    (Inr \<lparr>id_assembly_input_model = (if preprocessed_assembly iv then Some 1 else None),
                          id_preprocessing = map_option (\<lambda>args. \<lparr>pp_working_dir = working_dir (builder_context b),
                              pp_arguments = args, pp_roots = roots_of (mappings b)\<rparr>) (preprocessing_arguments iv),
                          id_compiler = cc_compiler (builder_context b),
                          id_arguments = texts,
                          id_required_inputs = btree_set required\<rparr>, aliases))))"

fun inputs_loop :: "cc_world \<Rightarrow> action_builder \<Rightarrow> path_aliases \<Rightarrow> cc_action_input list \<Rightarrow> (string, digest) btree_map \<Rightarrow>
    (cc_action_error + (string, digest) btree_map) \<times> path_aliases" where
  "inputs_loop w b aliases [] m = (Inr m, aliases)"
| "inputs_loop w b aliases (i # js) m =
     (case validate_digest (input_digest i) of
        Inl _ \<Rightarrow> (Inl (Invalid_input_digest (input_path i)), aliases)
      | Inr _ \<Rightarrow>
          (case normalize_input_path w b aliases (input_path i) of
             (Inl e, aliases) \<Rightarrow> (Inl e, aliases)
           | (Inr t, aliases) \<Rightarrow>
               if (case bt_get m t of None \<Rightarrow> False | Some existing \<Rightarrow> existing \<noteq> input_digest i)
               then (Inl (Conflicting_input t), aliases)
               else inputs_loop w b aliases js (bt_insert t (input_digest i) m)))"

definition build_descriptor :: "cc_world \<Rightarrow> cc_invocation \<Rightarrow> cc_action_context \<Rightarrow> bool \<Rightarrow> cc_action_error + cc_action_descriptor" where
  "build_descriptor w iv ctx path_specific =
     (let b = new_builder w ctx in
      case validate_mappings (builder_context b) of
        Inl e \<Rightarrow> Inl e
      | Inr _ \<Rightarrow>
          (case invocation_descriptor w b iv Map.empty of
             (Inl e, aliases) \<Rightarrow> Inl e
           | (Inr descr, aliases) \<Rightarrow>
               (case inputs_loop w b aliases (cc_inputs (builder_context b)) [] of
                  (Inl e, aliases) \<Rightarrow> Inl e
                | (Inr m, aliases) \<Rightarrow>
                    (case collect_texts (normalize_path w b) aliases (required_inputs iv) of
                       (Inl e, aliases) \<Rightarrow> Inl e
                     | (Inr required, aliases) \<Rightarrow>
                         (case find (\<lambda>t. bt_get m t = None) (btree_set required) of
                            Some missing \<Rightarrow> Inl (Missing_required_input missing)
                          | None \<Rightarrow>
                              Inr \<lparr>ad_path_binding = (if path_specific
                                     then Some \<lparr>pb_working_dir = working_dir (builder_context b), pb_arguments = arguments iv,
                                                pb_roots = roots_of (path_mappings (builder_context b))\<rparr>
                                     else None),
                                   ad_version = ACTION_SCHEMA_VERSION,
                                   ad_adapter_version = ADAPTER_VERSION,
                                   ad_assembly_input_model = id_assembly_input_model descr,
                                   ad_preprocessing = id_preprocessing descr,
                                   ad_compiler = id_compiler descr,
                                   ad_arguments = id_arguments descr,
                                   ad_environment = cc_environment (builder_context b),
                                   ad_inputs = m\<rparr>)))))"

record cc_action =
  action_digest :: digest
  action_bytes :: "char list"

text \<open>\<open>json\<close> is the canonical JSON of a descriptor and \<open>hash_of\<close> the hash function.\<close>

definition build_action :: "(cc_action_descriptor \<Rightarrow> char list) \<Rightarrow> (digest_algorithm \<Rightarrow> char list \<Rightarrow> string) \<Rightarrow> cc_world \<Rightarrow>
    cc_invocation \<Rightarrow> cc_action_context \<Rightarrow> bool \<Rightarrow> cc_action_error + cc_action" where
  "build_action json hash_of w iv ctx path_specific =
     map_sum (\<lambda>e. e) (\<lambda>d. \<lparr>action_digest = blake3_digest hash_of (json d), action_bytes = json d\<rparr>)
       (build_descriptor w iv ctx path_specific)"

section \<open>What a key contains\<close>

text \<open>A step over the memo whose answer does not depend on what the memo holds.\<close>

definition steady_step :: "path_host \<Rightarrow> (path_aliases \<Rightarrow> 'x \<Rightarrow> 'y \<times> path_aliases) \<Rightarrow> bool" where
  "steady_step h f = (\<forall>aliases x. aliases_good h aliases \<longrightarrow>
     fst (f aliases x) = fst (f Map.empty x) \<and> aliases_good h (snd (f aliases x)))"

lemma steadyI:
  assumes "\<And>aliases x. aliases_good h aliases \<Longrightarrow> fst (f aliases x) = fst (f Map.empty x) \<and> aliases_good h (snd (f aliases x))"
  shows "steady_step h f"
  unfolding steady_step_def using assms by blast

lemma steady_at:
  assumes "steady_step h f" "aliases_good h aliases"
  shows "fst (f aliases x) = fst (f Map.empty x)" "aliases_good h (snd (f aliases x))"
  using assms unfolding steady_step_def by blast+

lemma steadyD:
  assumes "steady_step h f" "aliases_good h aliases" "f aliases x = (answer, aliases')"
  shows "fst (f Map.empty x) = answer" "aliases_good h aliases'"
  using steady_at [OF assms(1,2), of x] assms(3) by (metis fst_conv, metis snd_conv)

lemma steady_normalize_path:
  assumes "host_laws (path_world w)" "is_absolute (working_dir (builder_context b))"
  shows "steady_step (path_world w) (normalize_path w b)"
proof (rule steadyI)
  fix aliases p assume good: "aliases_good (path_world w) aliases"
  note here = normalize_with_good [OF assms good] and empty = normalize_with_good(1) [OF assms aliases_good_empty]
  show "fst (normalize_path w b aliases p) = fst (normalize_path w b Map.empty p) \<and>
      aliases_good (path_world w) (snd (normalize_path w b aliases p))"
    by (simp add: normalize_path_def Let_def split_def here empty)
qed

lemma steady_normalize_input_path:
  assumes "steady_step h (normalize_path w b)"
  shows "steady_step h (normalize_input_path w b)"
proof (rule steadyI)
  fix aliases p assume "aliases_good h aliases"
  note here = steady_at [OF assms this]
  then show "fst (normalize_input_path w b aliases p) = fst (normalize_input_path w b Map.empty p) \<and>
      aliases_good h (snd (normalize_input_path w b aliases p))"
    by (simp add: normalize_input_path_def split_def Let_def here split: option.splits)
qed

lemma steady_normalize_argument:
  assumes "steady_step h (normalize_path w b)"
  shows "steady_step h (normalize_argument w b)"
proof (rule steadyI)
  fix aliases a assume good: "aliases_good h aliases"
  note here = steady_at [OF assms good]
  show "fst (normalize_argument w b aliases a) = fst (normalize_argument w b Map.empty a) \<and>
      aliases_good h (snd (normalize_argument w b aliases a))"
    by (cases a) (simp_all add: normalize_argument_def split_def Let_def here good)
qed

lemma collect_texts_steady:
  assumes "steady_step h f" "aliases_good h aliases" "collect_texts f aliases xs = (answer, aliases')"
  shows "aliases_good h aliases'" "answer = Inr ts \<Longrightarrow> map (\<lambda>x. fst (f Map.empty x)) xs = map Inr ts"
proof -
  have "aliases_good h aliases' \<and> (answer = Inr ts \<longrightarrow> map (\<lambda>x. fst (f Map.empty x)) xs = map Inr ts)"
    using assms(2,3)
  proof (induction xs arbitrary: aliases answer aliases' ts)
    case (Cons x xs)
    obtain r al where r: "f aliases x = (r, al)" by (cases "f aliases x")
    note st = steadyD [OF assms(1) Cons.prems(1) r]
    obtain rs al' where rs: "collect_texts f al xs = (rs, al')" by (cases "collect_texts f al xs")
    note IH = Cons.IH [OF st(2) rs]
    show ?case
    proof (cases r)
      case (Inl e)
      then show ?thesis using Cons.prems(2) r st(2) by auto
    next
      case (Inr t)
      then show ?thesis using Cons.prems(2) r rs st(1) IH [of "tl ts"] by (cases rs) auto
    qed
  qed auto
  then show "aliases_good h aliases'" "answer = Inr ts \<Longrightarrow> map (\<lambda>x. fst (f Map.empty x)) xs = map Inr ts" by blast+
qed

definition input_text :: "cc_world \<Rightarrow> action_builder \<Rightarrow> cc_action_input \<Rightarrow> cc_action_error + string" where
  "input_text w b i = fst (normalize_input_path w b Map.empty (input_path i))"

lemma inputs_loop_entries:
  assumes "steady_step h (normalize_input_path w b)" "aliases_good h aliases" "bt_inv m"
    and "inputs_loop w b aliases js m = (Inr m', aliases')"
  shows "aliases_good h aliases' \<and> bt_inv m' \<and>
    (\<forall>t d. bt_get m' t = Some d \<longleftrightarrow> bt_get m t = Some d \<or> (\<exists>i \<in> set js. input_text w b i = Inr t \<and> input_digest i = d))"
  using assms(2-)
proof (induction js arbitrary: aliases m)
  case (Cons i js)
  obtain r al where r: "normalize_input_path w b aliases (input_path i) = (r, al)" by (cases "normalize_input_path w b aliases (input_path i)")
  note st = steadyD [OF assms(1) Cons.prems(1) r]
  have v: "validate_digest (input_digest i) = Inr ()"
    using Cons.prems(3) by (cases "validate_digest (input_digest i)") simp_all
  have step: "inputs_loop w b aliases (i # js) m = (case r of Inl e \<Rightarrow> (Inl e, al) | Inr t \<Rightarrow>
      if (case bt_get m t of None \<Rightarrow> False | Some existing \<Rightarrow> existing \<noteq> input_digest i)
      then (Inl (Conflicting_input t), al) else inputs_loop w b al js (bt_insert t (input_digest i) m))"
    using v r by (cases r) simp_all
  obtain t where t: "r = Inr t" using Cons.prems(3) step by (cases r) simp_all
  have itext: "input_text w b i = Inr t" using st(1) t by (simp add: input_text_def)
  have ok: "bt_get m t = None \<or> bt_get m t = Some (input_digest i)"
    "inputs_loop w b al js (bt_insert t (input_digest i) m) = (Inr m', aliases')"
    using Cons.prems(3) unfolding step t by (auto split: option.splits if_splits)
  have inv': "bt_inv (bt_insert t (input_digest i) m)" using Cons.prems(2) by simp
  from Cons.IH [OF st(2) inv' ok(2)] have IH: "aliases_good h aliases'" "bt_inv m'"
    "\<And>s d. bt_get m' s = Some d \<longleftrightarrow> ((bt_get m)(t \<mapsto> input_digest i)) s = Some d \<or> (\<exists>i \<in> set js. input_text w b i = Inr s \<and> input_digest i = d)"
    using Cons.prems(2) by auto
  have "bt_get m' s = Some d \<longleftrightarrow> bt_get m s = Some d \<or> (\<exists>i \<in> set (i # js). input_text w b i = Inr s \<and> input_digest i = d)" for s d
    using IH(3) [of s d] ok(1) itext by (cases "s = t") auto
  with IH(1,2) show ?case by blast
qed simp

text \<open>The parts of a key, computed without a memo.\<close>

definition key_arguments :: "cc_world \<Rightarrow> cc_invocation \<Rightarrow> cc_action_context \<Rightarrow> (cc_action_error + string) list" where
  "key_arguments w iv ctx = map (\<lambda>a. fst (normalize_argument w (new_builder w ctx) Map.empty a)) (arguments iv)"

definition key_inputs :: "cc_world \<Rightarrow> cc_action_context \<Rightarrow> (string \<times> digest) set" where
  "key_inputs w ctx = {(t, d). \<exists>i \<in> set (cc_inputs ctx). input_text w (new_builder w ctx) i = Inr t \<and> input_digest i = d}"

definition key_preprocessing :: "cc_world \<Rightarrow> cc_invocation \<Rightarrow> cc_action_context \<Rightarrow> preprocessing_context option" where
  "key_preprocessing w iv ctx = map_option (\<lambda>args. \<lparr>pp_working_dir = working_dir ctx, pp_arguments = args,
     pp_roots = roots_of (mappings (new_builder w ctx))\<rparr>) (preprocessing_arguments iv)"

definition key_binding :: "cc_invocation \<Rightarrow> cc_action_context \<Rightarrow> bool \<Rightarrow> cc_path_binding option" where
  "key_binding iv ctx path_specific = (if path_specific
     then Some \<lparr>pb_working_dir = working_dir ctx, pb_arguments = arguments iv, pb_roots = roots_of (ordered (path_mappings ctx))\<rparr>
     else None)"

lemma new_builder_simps [simp]:
  "builder_context (new_builder w ctx) = ctx\<lparr>path_mappings := ordered (path_mappings ctx)\<rparr>"
  by (simp add: new_builder_def Let_def)

lemma build_descriptor_run:
  assumes "build_descriptor w iv ctx path_specific = Inr d"
  obtains texts al1 req al2 m al3 req' al4 where "is_absolute (working_dir ctx)"
    "collect_texts (normalize_argument w (new_builder w ctx)) Map.empty (arguments iv) = (Inr texts, al1)"
    "collect_texts (normalize_path w (new_builder w ctx)) al1 (required_inputs iv) = (Inr req, al2)"
    "inputs_loop w (new_builder w ctx) al2 (cc_inputs ctx) [] = (Inr m, al3)"
    "collect_texts (normalize_path w (new_builder w ctx)) al3 (required_inputs iv) = (Inr req', al4)"
    "find (\<lambda>t. bt_get m t = None) (btree_set req') = None"
    "d = \<lparr>ad_path_binding = key_binding iv ctx path_specific, ad_version = ACTION_SCHEMA_VERSION, ad_adapter_version = ADAPTER_VERSION,
      ad_assembly_input_model = (if preprocessed_assembly iv then Some 1 else None), ad_preprocessing = key_preprocessing w iv ctx,
      ad_compiler = cc_compiler ctx, ad_arguments = texts, ad_environment = cc_environment ctx, ad_inputs = m\<rparr>"
proof -
  let ?b = "new_builder w ctx"
  note defs = build_descriptor_def invocation_descriptor_def Let_def
  have valid: "validate_mappings (builder_context ?b) = Inr ()"
    using assms by (cases "validate_mappings (builder_context ?b)") (simp_all add: build_descriptor_def Let_def)
  then have wd: "is_absolute (working_dir ctx)" by (auto simp: validate_mappings_def split: if_splits)
  obtain r1 al1 where "collect_texts (normalize_argument w ?b) Map.empty (arguments iv) = (r1, al1)" by fastforce
  with assms valid obtain texts where texts: "collect_texts (normalize_argument w ?b) Map.empty (arguments iv) = (Inr texts, al1)"
    by (cases r1) (simp_all add: defs)
  obtain r2 al2 where "collect_texts (normalize_path w ?b) al1 (required_inputs iv) = (r2, al2)" by fastforce
  with assms valid texts obtain req where req: "collect_texts (normalize_path w ?b) al1 (required_inputs iv) = (Inr req, al2)"
    by (cases r2) (simp_all add: defs)
  obtain r3 al3 where "inputs_loop w ?b al2 (cc_inputs ctx) [] = (r3, al3)" by fastforce
  with assms valid texts req obtain m where m: "inputs_loop w ?b al2 (cc_inputs ctx) [] = (Inr m, al3)"
    by (cases r3) (simp_all add: defs)
  obtain r4 al4 where "collect_texts (normalize_path w ?b) al3 (required_inputs iv) = (r4, al4)" by fastforce
  with assms valid texts req m obtain req' where req': "collect_texts (normalize_path w ?b) al3 (required_inputs iv) = (Inr req', al4)"
    by (cases r4) (simp_all add: defs)
  have found: "find (\<lambda>t. bt_get m t = None) (btree_set req') = None"
    using assms valid texts req m req' by (cases "find (\<lambda>t. bt_get m t = None) (btree_set req')") (simp_all add: defs)
  have d: "d = \<lparr>ad_path_binding = key_binding iv ctx path_specific, ad_version = ACTION_SCHEMA_VERSION, ad_adapter_version = ADAPTER_VERSION,
      ad_assembly_input_model = (if preprocessed_assembly iv then Some 1 else None), ad_preprocessing = key_preprocessing w iv ctx,
      ad_compiler = cc_compiler ctx, ad_arguments = texts, ad_environment = cc_environment ctx, ad_inputs = m\<rparr>"
    using assms valid texts req m req' found
    by (cases path_specific; cases "preprocessed_assembly iv") (auto simp: defs key_binding_def key_preprocessing_def)
  show thesis by (rule that [OF wd texts req m req' found d])
qed

lemma build_descriptor_parts:
  assumes "host_laws (path_world w)" "build_descriptor w iv ctx path_specific = Inr d"
  shows "ad_path_binding d = key_binding iv ctx path_specific" "ad_version d = ACTION_SCHEMA_VERSION"
    "ad_adapter_version d = ADAPTER_VERSION"
    "ad_assembly_input_model d = (if preprocessed_assembly iv then Some 1 else None)"
    "ad_preprocessing d = key_preprocessing w iv ctx" "ad_compiler d = cc_compiler ctx"
    "map Inr (ad_arguments d) = key_arguments w iv ctx" "ad_environment d = cc_environment ctx"
    "bt_inv (ad_inputs d)" "bt_get (ad_inputs d) t = Some dg \<longleftrightarrow> (t, dg) \<in> key_inputs w ctx"
    "p \<in> set (required_inputs iv) \<Longrightarrow> \<exists>t dg. fst (normalize_path w (new_builder w ctx) Map.empty p) = Inr t \<and> (t, dg) \<in> key_inputs w ctx"
proof -
  let ?b = "new_builder w ctx" and ?h = "path_world w"
  obtain texts al1 req al2 m al3 req' al4 where wd: "is_absolute (working_dir ctx)"
    and texts: "collect_texts (normalize_argument w ?b) Map.empty (arguments iv) = (Inr texts, al1)"
    and req: "collect_texts (normalize_path w ?b) al1 (required_inputs iv) = (Inr req, al2)"
    and m: "inputs_loop w ?b al2 (cc_inputs ctx) [] = (Inr m, al3)"
    and req': "collect_texts (normalize_path w ?b) al3 (required_inputs iv) = (Inr req', al4)"
    and found: "find (\<lambda>t. bt_get m t = None) (btree_set req') = None"
    and d: "d = \<lparr>ad_path_binding = key_binding iv ctx path_specific, ad_version = ACTION_SCHEMA_VERSION, ad_adapter_version = ADAPTER_VERSION,
      ad_assembly_input_model = (if preprocessed_assembly iv then Some 1 else None), ad_preprocessing = key_preprocessing w iv ctx,
      ad_compiler = cc_compiler ctx, ad_arguments = texts, ad_environment = cc_environment ctx, ad_inputs = m\<rparr>"
    using build_descriptor_run [OF assms(2)] by blast
  have sp: "steady_step ?h (normalize_path w ?b)" using wd by (intro steady_normalize_path [OF assms(1)]) simp
  note t = collect_texts_steady [OF steady_normalize_argument [OF sp] aliases_good_empty texts]
  note r = collect_texts_steady [OF sp t(1) req]
  note e = inputs_loop_entries [OF steady_normalize_input_path [OF sp] r(1) bt_inv_Nil m]
  note r' = collect_texts_steady [OF sp conjunct1 [OF e] req']
  show "ad_path_binding d = key_binding iv ctx path_specific" "ad_version d = ACTION_SCHEMA_VERSION"
    "ad_adapter_version d = ADAPTER_VERSION"
    "ad_assembly_input_model d = (if preprocessed_assembly iv then Some 1 else None)"
    "ad_preprocessing d = key_preprocessing w iv ctx" "ad_compiler d = cc_compiler ctx" "ad_environment d = cc_environment ctx"
    by (simp_all add: d)
  show "map Inr (ad_arguments d) = key_arguments w iv ctx" using t(2) [OF refl] by (simp add: d key_arguments_def)
  show "bt_inv (ad_inputs d)" using e by (simp add: d)
  show get: "bt_get (ad_inputs d) t = Some dg \<longleftrightarrow> (t, dg) \<in> key_inputs w ctx" for t dg
    using e by (auto simp: d key_inputs_def)
  assume "p \<in> set (required_inputs iv)"
  then obtain t where t: "fst (normalize_path w ?b Map.empty p) = Inr t" "t \<in> set req'"
    using r'(2) [OF refl] by (metis (no_types, lifting) image_iff list.set_map)
  then have "bt_get m t \<noteq> None" using found by (auto simp: find_None_iff btree_set_def)
  with t(1) get show "\<exists>t dg. fst (normalize_path w (new_builder w ctx) Map.empty p) = Inr t \<and> (t, dg) \<in> key_inputs w ctx"
    by (auto simp: d)
qed

lemma descriptor_eq_iff:
  assumes "host_laws (path_world w)" "host_laws (path_world w')"
    and "build_descriptor w iv ctx ps = Inr d" "build_descriptor w' iv' ctx' ps' = Inr d'"
  shows "d = d' \<longleftrightarrow> cc_compiler ctx = cc_compiler ctx' \<and> cc_environment ctx = cc_environment ctx' \<and>
      preprocessed_assembly iv = preprocessed_assembly iv' \<and> key_preprocessing w iv ctx = key_preprocessing w' iv' ctx' \<and>
      key_binding iv ctx ps = key_binding iv' ctx' ps' \<and> key_arguments w iv ctx = key_arguments w' iv' ctx' \<and>
      key_inputs w ctx = key_inputs w' ctx'"
proof -
  note parts = build_descriptor_parts [OF assms(1,3)] and parts' = build_descriptor_parts [OF assms(2,4)]
  have "ad_arguments d = ad_arguments d' \<longleftrightarrow> key_arguments w iv ctx = key_arguments w' iv' ctx'"
    using parts(7) parts'(7) inj_map_eq_map [of Inr "ad_arguments d" "ad_arguments d'"] by (metis inj_Inr)
  moreover have "ad_inputs d = ad_inputs d' \<longleftrightarrow> key_inputs w ctx = key_inputs w' ctx'"
  proof
    assume "ad_inputs d = ad_inputs d'"
    then show "key_inputs w ctx = key_inputs w' ctx'" using parts(10) parts'(10) by (metis (mono_tags, lifting) prod.collapse subsetI subset_antisym)
  next
    assume "key_inputs w ctx = key_inputs w' ctx'"
    then have "bt_get (ad_inputs d) t = bt_get (ad_inputs d') t" for t
      using parts(10) [of t] parts'(10) [of t] by (metis not_None_eq)
    then show "ad_inputs d = ad_inputs d'" using bt_ext parts(9) parts'(9) by blast
  qed
  ultimately show ?thesis using parts(1-6,8) parts'(1-6,8) by (cases d; cases d') (auto split: if_splits)
qed


text \<open>One file reached directly and through a link, listed in two orders.\<close>

definition example_world :: cc_world where
  "example_world = \<lparr>utf8 = (\<lambda>_. True), path_world = example_host, developer_roots = []\<rparr>"

definition example_call :: cc_invocation where
  "example_call = \<lparr>arguments = [Plain ''-c'', Source_argument (parse_path ''a.c'')], required_inputs = [parse_path ''a.c''],
     preprocessed_assembly = False, preprocessing_arguments = None\<rparr>"

definition example_context :: "cc_action_input list \<Rightarrow> cc_action_context" where
  "example_context inputs =
     \<lparr>cc_compiler = \<lparr>family = ''clang'', version_text = ''20'', target = ''t'', assembler = ''''\<rparr>, working_dir = parse_path ''/w'',
      path_mappings = example_mappings, cc_environment = [], cc_inputs = inputs\<rparr>"

definition example_inputs :: "cc_action_input list" where
  "example_inputs = [\<lparr>input_path = ''/w/a.c'', input_digest = sample_digest 1\<rparr>, \<lparr>input_path = ''/usr/include/b.h'', input_digest = sample_digest 2\<rparr>]"

definition example_inputs' :: "cc_action_input list" where
  "example_inputs' = [\<lparr>input_path = ''/usr/include/b.h'', input_digest = sample_digest 2\<rparr>, \<lparr>input_path = ''/real/a.c'', input_digest = sample_digest 1\<rparr>,
     \<lparr>input_path = ''/w/a.c'', input_digest = sample_digest 1\<rparr>]"

lemma example_descriptors:
  "build_descriptor example_world example_call (example_context example_inputs) False =
     build_descriptor example_world example_call (example_context example_inputs') False"
  "\<not> isl (build_descriptor example_world example_call (example_context example_inputs) False)"
  by code_simp+


end
