(* ===== verification/Cc_Prediction.thy ===== *)
theory Cc_Prediction
  imports Cc_Action "HOL-Library.Multiset"
begin

text \<open>
  Predictions of the inputs of a C or C++ compile (\<open>CcInvocation::prediction\<close> and
  \<open>CcInputPrediction::discover\<close> of \<open>mbx-cache-cc/src/lib.rs\<close>): the texts of the inputs of a
  finished compile are recorded, and a later invocation turns them back into paths, digests those
  files again and rebuilds the key before compiling.
\<close>

section \<open>Recording and reading a prediction\<close>

record cc_input_prediction =
  pr_path_specific :: bool
  pr_version :: nat
  pr_inputs :: "string list"
  pr_environment :: "string list"
  pr_compiler_duration_ns :: u64
  pr_source_name :: string

definition prediction_of :: "cc_world \<Rightarrow> cc_action_context \<Rightarrow> u64 \<Rightarrow> string \<Rightarrow> cc_action_error + cc_input_prediction" where
  "prediction_of w ctx duration name =
     (case collect_texts (\<lambda>aliases i. normalize_input_path w (new_builder w ctx) aliases (input_path i)) Map.empty (cc_inputs ctx) of
        (Inl e, _) \<Rightarrow> Inl e
      | (Inr texts, _) \<Rightarrow>
          Inr \<lparr>pr_path_specific = False, pr_version = 1, pr_inputs = remdups_adj (sort texts),
               pr_environment = map fst (cc_environment ctx), pr_compiler_duration_ns = duration, pr_source_name = name\<rparr>)"

definition MAX_PREDICTED_INPUTS :: nat where
  "MAX_PREDICTED_INPUTS = 16 * 1024"

datatype discover_error = Unsupported_prediction | Invalid_entry denormalize_error

fun discover_loop :: "path list \<Rightarrow> path_mapping list \<Rightarrow> string list \<Rightarrow> path set \<Rightarrow> path set \<Rightarrow> discover_error + path set \<times> path set" where
  "discover_loop dev ms [] files directories = Inr (files, directories)"
| "discover_loop dev ms (e # es) files directories =
     (case strip_prefix INCLUDE_MANIFEST_PREFIX e of
        Some directory \<Rightarrow>
          (case denormalize_path dev directory ms of
             Inl err \<Rightarrow> Inl (Invalid_entry err)
           | Inr p \<Rightarrow> discover_loop dev ms es files (insert p directories))
      | None \<Rightarrow>
          (case denormalize_path dev e ms of
             Inl err \<Rightarrow> Inl (Invalid_entry err)
           | Inr p \<Rightarrow> discover_loop dev ms es (insert p files) directories))"

text \<open>The paths that \<open>discover\<close> hands to \<open>CcDiscoveredInputs::collect\<close>.\<close>

definition discover_paths :: "path list \<Rightarrow> path_mapping list \<Rightarrow> cc_input_prediction \<Rightarrow> discover_error + path set \<times> path set" where
  "discover_paths dev ms pr =
     (if pr_version pr \<noteq> 1 then Inl Unsupported_prediction
      else if length (pr_inputs pr) > MAX_PREDICTED_INPUTS \<or> length (pr_environment pr) > 4 * 1024 then Inl Unsupported_prediction
      else discover_loop dev (ordered ms) (pr_inputs pr) {} {})"

section \<open>From texts to paths and back\<close>

lemma parse_show_path:
  assumes "clean_path p" "list_all plain_component (component_names p)"
  shows "parse_path (show_path p) = p"
proof -
  obtain ns where p: "p = Root_dir # map Normal ns" using assms(1) by (auto simp: clean_path_def)
  have names: "component_names p = ns" unfolding p by (induction ns) (simp_all add: component_names_def)
  have parts: "concat (map part_component ns) = map Normal ns"
    using assms(2) unfolding names by (induction ns) (simp_all add: part_component_def plain_component_def)
  have "split_on (CHR ''/'') (join_with (CHR ''/'') ns) = (if ns = [] then [[]] else ns)"
    using assms(2) split_join [of ns "CHR ''/''"] unfolding names by (auto simp: plain_component_def list_all_iff)
  then have "parse_path (CHR ''/'' # join_with (CHR ''/'') ns) = Root_dir # map Normal ns"
    using parts by (simp add: parse_path_def starts_with_def part_component_def)
  moreover have "show_path p = CHR ''/'' # join_with (CHR ''/'') ns" using names by (simp add: show_path_def)
  ultimately show ?thesis by (simp add: p)
qed

definition plain_source :: "cc_world \<Rightarrow> cc_action_context \<Rightarrow> path \<Rightarrow> bool" where
  "plain_source w ctx p =
     (list_all plain_component (component_names (absolute_from (working_dir ctx) p)) \<and>
      list_all plain_component (component_names (resolve_ref (path_world w) (absolute_from (working_dir ctx) p))))"

lemma component_names_mem: "n \<in> set (component_names p) \<longleftrightarrow> Normal n \<in> set p"
  by (induction p) (auto simp: component_names_def split: path_component.splits)

lemma ordered_valid: "valid_mappings (ordered ms) \<longleftrightarrow> valid_mappings ms"
proof -
  have "mset (ordered ms) = mset ms" by (simp add: ordered_def)
  then have "distinct (map placeholder (ordered ms)) \<longleftrightarrow> distinct (map placeholder ms)" "set (ordered ms) = set ms"
    by (metis mset_map mset_eq_imp_distinct_iff, metis mset_eq_setD)
  then show ?thesis by (simp add: valid_mappings_def list_all_iff)
qed

definition path_text :: "cc_world \<Rightarrow> cc_action_context \<Rightarrow> path \<Rightarrow> cc_action_error + string" where
  "path_text w ctx p = fst (normalize_path w (new_builder w ctx) Map.empty p)"

lemma path_text_eq:
  "path_text w ctx p =
     (case normalize_mapped_path (utf8 w) (path_world w) p (working_dir ctx) (ordered (path_mappings ctx)) of
        Inr t \<Rightarrow> Inr t
      | Inl reason \<Rightarrow>
          let absolute = absolute_from (working_dir ctx) p
          in if is_system_path (developer_roots w) absolute
             then if list_all (utf8 w) (component_names absolute) then Inr (show_path absolute) else Inl (Cc_non_utf8_path absolute)
             else Inl (cc_error_of reason))"
  by (simp add: path_text_def normalize_path_def normalize_mapped_path_def normalize_resolved_mapped_path_def new_builder_def split_def Let_def
      split: sum.split)

lemma denormalize_verbatim:
  assumes "clean_path p" "list_all plain_component (component_names p)" "is_system_path dev p"
  shows "denormalize_path dev (show_path p) ms = Inr p"
proof (induction ms)
  case Nil
  show ?case using assms parse_show_path by simp
next
  case (Cons m ms)
  then show ?case by (simp add: show_path_def stand_in_def)
qed

lemma path_text_back:
  assumes "host_laws (path_world w)" "is_absolute (working_dir ctx)" "valid_mappings (path_mappings ctx)"
    and "\<forall>m \<in> set (path_mappings ctx). list_all plain_component (component_names (normalize_components (root m)))"
    and "path_text w ctx p = Inr t" "plain_source w ctx p"
  shows "\<exists>q. denormalize_path (developer_roots w) t (ordered (path_mappings ctx)) = Inr q \<and> path_text w ctx q = Inr t \<and>
    clean_path q \<and> list_all plain_component (component_names q)"
proof (cases "normalize_mapped_path (utf8 w) (path_world w) p (working_dir ctx) (ordered (path_mappings ctx))")
  case (Inr s)
  then have t: "s = t" using assms(5) by (simp add: path_text_eq)
  have plain: "\<forall>n. Normal n \<in> set (resolve_ref (path_world w) (absolute_from (working_dir ctx) p)) \<longrightarrow> plain_component n"
    using assms(6) by (auto simp: plain_source_def list_all_iff component_names_mem)
  obtain k ns where k: "k \<in> set (ordered (path_mappings ctx))" "list_all plain_component ns" "clean_path (normalize_components (root k))"
    and q: "denormalize_path (developer_roots w) s (ordered (path_mappings ctx)) = Inr (normalize_components (root k) @ map Normal ns)"
      "normalize_mapped_path (utf8 w) (path_world w) (normalize_components (root k) @ map Normal ns) (working_dir ctx) (ordered (path_mappings ctx)) = Inr s"
    using mapped_text_back [OF assms(1,2) _ Inr plain] assms(3) ordered_valid by blast
  have "k \<in> set (path_mappings ctx)" using k(1) by (simp add: ordered_def)
  then have "list_all plain_component (component_names (normalize_components (root k) @ map Normal ns))"
    using assms(4) k(2) by (auto simp: list_all_iff component_names_mem)
  with q k(3) t show ?thesis by (auto simp: path_text_eq)
next
  case (Inl e)
  let ?a = "absolute_from (working_dir ctx) p"
  have t: "is_system_path (developer_roots w) ?a" "t = show_path ?a" "list_all (utf8 w) (component_names ?a)"
    using assms(5) Inl by (auto simp: path_text_eq Let_def split: if_splits)
  have a: "clean_path ?a" "list_all plain_component (component_names ?a)"
    using absolute_from_clean [OF assms(2)] assms(6) by (auto simp: plain_source_def)
  then have same: "absolute_from (working_dir ctx) ?a = ?a" by (simp add: absolute_from_def)
  then have "normalize_mapped_path (utf8 w) (path_world w) ?a (working_dir ctx) (ordered (path_mappings ctx)) =
      normalize_mapped_path (utf8 w) (path_world w) p (working_dir ctx) (ordered (path_mappings ctx))"
    by (simp add: normalize_mapped_ref [OF assms(1,2)])
  with Inl t same have "path_text w ctx ?a = Inr t" by (simp add: path_text_eq Let_def)
  with denormalize_verbatim [OF a t(1)] a t(2) show ?thesis by blast
qed

lemma path_text_start:
  assumes "path_text w ctx p = Inr t"
  shows "t \<noteq> []" "hd t \<in> {CHR ''$'', CHR ''/''}"
proof -
  have mapped: "s \<noteq> [] \<and> hd s = CHR ''$''" if "map_resolved u x y ms = Inr s" for u x y ms s
    using that by (induction ms) (auto simp: stand_in_def split: option.splits sum.splits if_splits)
  have "normalize_mapped_path (utf8 w) (path_world w) p (working_dir ctx) (ordered (path_mappings ctx)) = Inr t \<or> t = show_path (absolute_from (working_dir ctx) p)"
    using assms by (auto simp: path_text_eq Let_def split: sum.splits if_splits)
  moreover have "\<exists>u x y ms. map_resolved u x y ms = Inr t"
    if "normalize_mapped_path (utf8 w) (path_world w) p (working_dir ctx) (ordered (path_mappings ctx)) = Inr t"
    using that by (auto simp: normalize_mapped_path_def normalize_resolved_mapped_path_def
      normalize_resolved_mapped_path_with_def Let_def split_def)
  ultimately have "t \<noteq> [] \<and> hd t = CHR ''$'' \<or> t = show_path (absolute_from (working_dir ctx) p)" using mapped by blast
  then show "t \<noteq> []" "hd t \<in> {CHR ''$'', CHR ''/''}" by (auto simp: show_path_def)
qed

section \<open>Rebuilding an action\<close>

lemma collect_texts_success:
  assumes "steady_step h f" "aliases_good h aliases" "map (\<lambda>x. fst (f Map.empty x)) xs = map Inr ts"
  shows "fst (collect_texts f aliases xs) = Inr ts"
  using assms(2,3)
proof (induction xs arbitrary: aliases ts)
  case (Cons x xs)
  obtain r al where r: "f aliases x = (r, al)" by (cases "f aliases x")
  note st = steadyD [OF assms(1) Cons.prems(1) r]
  obtain t ts' where ts: "ts = t # ts'" "r = Inr t" "map (\<lambda>x. fst (f Map.empty x)) xs = map Inr ts'"
    using Cons.prems(2) st(1) by (cases ts) auto
  with Cons.IH [OF st(2) ts(3)] r show ?case by (auto split: prod.splits)
qed simp

lemma inputs_loop_valid:
  assumes "steady_step h (normalize_input_path w b)" "aliases_good h aliases" "inputs_loop w b aliases js m = (Inr m', aliases')" "i \<in> set js"
  shows "validate_digest (input_digest i) = Inr () \<and> (\<exists>t. input_text w b i = Inr t)"
  using assms(2-)
proof (induction js arbitrary: aliases m)
  case (Cons j js)
  obtain r al where r: "normalize_input_path w b aliases (input_path j) = (r, al)" by (cases "normalize_input_path w b aliases (input_path j)")
  note st = steadyD [OF assms(1) Cons.prems(1) r]
  have v: "validate_digest (input_digest j) = Inr ()" using Cons.prems(2) by (cases "validate_digest (input_digest j)") simp_all
  obtain t where t: "r = Inr t" using Cons.prems(2) v r by (cases r) simp_all
  then have "inputs_loop w b al js (bt_insert t (input_digest j) m) = (Inr m', aliases')"
    using Cons.prems(2) v r by (auto split: if_splits)
  with Cons.IH [OF st(2)] Cons.prems(3) v st(1) t show ?case by (auto simp: input_text_def)
qed simp

lemma inputs_loop_success:
  assumes "steady_step h (normalize_input_path w b)" "aliases_good h aliases" "bt_inv m"
    and "\<forall>i \<in> set js. validate_digest (input_digest i) = Inr () \<and> (\<exists>t. input_text w b i = Inr t \<and> (bt_get m t = None \<or> bt_get m t = Some (input_digest i)))"
    and "\<forall>i \<in> set js. \<forall>j \<in> set js. input_text w b i = input_text w b j \<longrightarrow> input_digest i = input_digest j"
  shows "\<exists>m' aliases'. inputs_loop w b aliases js m = (Inr m', aliases')"
  using assms(2-)
proof (induction js arbitrary: aliases m)
  case Nil
  show ?case by (simp only: inputs_loop.simps prod.inject sum.inject) blast
next
  case (Cons i js)
  obtain r al where r: "normalize_input_path w b aliases (input_path i) = (r, al)" by (cases "normalize_input_path w b aliases (input_path i)")
  note st = steadyD [OF assms(1) Cons.prems(1) r]
  obtain t where t: "input_text w b i = Inr t" "bt_get m t = None \<or> bt_get m t = Some (input_digest i)" using Cons.prems(3) by auto
  have rt: "r = Inr t" using st(1) t(1) by (simp add: input_text_def)
  have step: "inputs_loop w b aliases (i # js) m = inputs_loop w b al js (bt_insert t (input_digest i) m)"
    using Cons.prems(3) r rt t(2) by auto
  have next_ok: "\<exists>s. input_text w b j = Inr s \<and>
      (bt_get (bt_insert t (input_digest i) m) s = None \<or> bt_get (bt_insert t (input_digest i) m) s = Some (input_digest j))"
    if "j \<in> set js" for j
  proof -
    have "j \<in> set (i # js)" "i \<in> set (i # js)" using that by auto
    with Cons.prems(3,4) obtain s where "input_text w b j = Inr s" "bt_get m s = None \<or> bt_get m s = Some (input_digest j)"
      "s = t \<longrightarrow> input_digest i = input_digest j" using t(1) by metis
    then show ?thesis using Cons.prems(2) by auto
  qed
  have "\<exists>m' aliases'. inputs_loop w b al js (bt_insert t (input_digest i) m) = (Inr m', aliases')"
  proof (rule Cons.IH [OF st(2)])
    show "bt_inv (bt_insert t (input_digest i) m)" using Cons.prems(2) by simp
    show "\<forall>j \<in> set js. validate_digest (input_digest j) = Inr () \<and> (\<exists>s. input_text w b j = Inr s \<and>
        (bt_get (bt_insert t (input_digest i) m) s = None \<or> bt_get (bt_insert t (input_digest i) m) s = Some (input_digest j)))"
    proof
      fix j assume j: "j \<in> set js"
      then have "validate_digest (input_digest j) = Inr ()" using Cons.prems(3) by simp
      with next_ok [OF j] show "validate_digest (input_digest j) = Inr () \<and> (\<exists>s. input_text w b j = Inr s \<and>
          (bt_get (bt_insert t (input_digest i) m) s = None \<or> bt_get (bt_insert t (input_digest i) m) s = Some (input_digest j)))" by (intro conjI)
    qed
    show "\<forall>i \<in> set js. \<forall>j \<in> set js. input_text w b i = input_text w b j \<longrightarrow> input_digest i = input_digest j"
      using Cons.prems(4) by (meson list.set_intros(2))
  qed
  then show ?case by (simp only: step)
qed

lemma new_builder_inputs:
  "normalize_path w (new_builder w (ctx\<lparr>cc_inputs := js\<rparr>)) = normalize_path w (new_builder w ctx)"
  "normalize_input_path w (new_builder w (ctx\<lparr>cc_inputs := js\<rparr>)) = normalize_input_path w (new_builder w ctx)"
  "normalize_argument w (new_builder w (ctx\<lparr>cc_inputs := js\<rparr>)) = normalize_argument w (new_builder w ctx)"
  "input_text w (new_builder w (ctx\<lparr>cc_inputs := js\<rparr>)) = input_text w (new_builder w ctx)"
  "mappings (new_builder w (ctx\<lparr>cc_inputs := js\<rparr>)) = mappings (new_builder w ctx)"
proof -
  show m: "mappings (new_builder w (ctx\<lparr>cc_inputs := js\<rparr>)) = mappings (new_builder w ctx)" by (simp add: new_builder_def Let_def)
  show p: "normalize_path w (new_builder w (ctx\<lparr>cc_inputs := js\<rparr>)) = normalize_path w (new_builder w ctx)"
  proof -
    have wd: "working_dir (builder_context (new_builder w (ctx\<lparr>cc_inputs := js\<rparr>))) = working_dir (builder_context (new_builder w ctx))" by simp
    show ?thesis unfolding normalize_path_def m wd ..
  qed
  show i: "normalize_input_path w (new_builder w (ctx\<lparr>cc_inputs := js\<rparr>)) = normalize_input_path w (new_builder w ctx)"
    unfolding normalize_input_path_def p ..
  show "normalize_argument w (new_builder w (ctx\<lparr>cc_inputs := js\<rparr>)) = normalize_argument w (new_builder w ctx)"
    unfolding normalize_argument_def p ..
  show "input_text w (new_builder w (ctx\<lparr>cc_inputs := js\<rparr>)) = input_text w (new_builder w ctx)"
    unfolding input_text_def i ..
qed

lemma build_descriptor_rebuild:
  assumes "host_laws (path_world w)" "build_descriptor w iv ctx ps = Inr d"
    and "key_inputs w (ctx\<lparr>cc_inputs := js\<rparr>) = key_inputs w ctx"
    and "\<forall>i \<in> set js. validate_digest (input_digest i) = Inr () \<and> (\<exists>t. input_text w (new_builder w ctx) i = Inr t)"
  shows "build_descriptor w iv (ctx\<lparr>cc_inputs := js\<rparr>) ps = Inr d"
proof -
  let ?b = "new_builder w ctx" and ?h = "path_world w" and ?ctx = "ctx\<lparr>cc_inputs := js\<rparr>"
  let ?b' = "new_builder w ?ctx"
  obtain texts al1 req al2 m al3 req' al4 where run: "is_absolute (working_dir ctx)"
    "collect_texts (normalize_argument w ?b) Map.empty (arguments iv) = (Inr texts, al1)"
    "collect_texts (normalize_path w ?b) al1 (required_inputs iv) = (Inr req, al2)"
    "inputs_loop w ?b al2 (cc_inputs ctx) [] = (Inr m, al3)"
    "collect_texts (normalize_path w ?b) al3 (required_inputs iv) = (Inr req', al4)"
    "find (\<lambda>t. bt_get m t = None) (btree_set req') = None" "ad_inputs d = m"
    using build_descriptor_run [OF assms(2)] by (metis cc_action_descriptor.select_convs(9))
  have sp: "steady_step ?h (normalize_path w ?b)" using run(1) by (intro steady_normalize_path [OF assms(1)]) simp
  note al1 = collect_texts_steady(1) [OF steady_normalize_argument [OF sp] aliases_good_empty run(2)]
  note al2 = collect_texts_steady(1) [OF sp al1 run(3)]
  note al3 = inputs_loop_entries [OF steady_normalize_input_path [OF sp] al2 bt_inv_Nil run(4)]
  have get: "bt_get m t = Some dg \<longleftrightarrow> (t, dg) \<in> key_inputs w ctx" for t dg
    using build_descriptor_parts(10) [OF assms(1,2), of t dg] run(7) by simp
  have keys: "(t, input_digest i) \<in> key_inputs w ctx" if "i \<in> set js" "input_text w ?b i = Inr t" for i t
  proof -
    have "(t, input_digest i) \<in> key_inputs w ?ctx" using that by (auto simp: key_inputs_def new_builder_inputs)
    with assms(3) show ?thesis by simp
  qed
  have same: "\<forall>i \<in> set js. \<forall>j \<in> set js. input_text w ?b i = input_text w ?b j \<longrightarrow> input_digest i = input_digest j"
  proof (intro ballI impI)
    fix i j assume ij: "i \<in> set js" "j \<in> set js" "input_text w ?b i = input_text w ?b j"
    then obtain t where t: "input_text w ?b i = Inr t" using assms(4) by blast
    have "bt_get m t = Some (input_digest i)" "bt_get m t = Some (input_digest j)"
      using keys [OF ij(1) t] keys [OF ij(2)] t ij(3) get by simp_all
    then show "input_digest i = input_digest j" by simp
  qed
  have fresh: "\<forall>i \<in> set js. validate_digest (input_digest i) = Inr () \<and>
      (\<exists>t. input_text w ?b i = Inr t \<and> (bt_get [] t = None \<or> bt_get [] t = Some (input_digest i)))"
    using assms(4) by simp
  obtain m' al3' where m': "inputs_loop w ?b al2 js [] = (Inr m', al3')"
    using inputs_loop_success [OF steady_normalize_input_path [OF sp] al2 bt_inv_Nil fresh same] by blast
  note al3' = inputs_loop_entries [OF steady_normalize_input_path [OF sp] al2 bt_inv_Nil m']
  have "bt_get m' t = bt_get m t" for t
  proof -
    have "bt_get m' t = Some dg \<longleftrightarrow> (t, dg) \<in> key_inputs w ?ctx" for dg
      using al3' by (auto simp: key_inputs_def new_builder_inputs)
    with get assms(3) show ?thesis by (metis not_None_eq)
  qed
  then have mm: "m' = m"
    using bt_ext [OF conjunct1 [OF conjunct2 [OF al3']] conjunct1 [OF conjunct2 [OF al3]]] by (simp add: fun_eq_iff)
  have texts: "map (\<lambda>x. fst (normalize_path w ?b Map.empty x)) (required_inputs iv) = map Inr req'"
    by (rule collect_texts_steady(2) [OF sp conjunct1 [OF al3] run(5) refl])
  obtain al4' where req': "collect_texts (normalize_path w ?b) al3' (required_inputs iv) = (Inr req', al4')"
    using collect_texts_success [OF sp conjunct1 [OF al3'] texts]
    by (cases "collect_texts (normalize_path w ?b) al3' (required_inputs iv)") simp
  have loop': "inputs_loop w ?b' = inputs_loop w ?b"
  proof (intro ext)
    fix aliases is' m
    show "inputs_loop w ?b' aliases is' m = inputs_loop w ?b aliases is' m"
      by (induction is' arbitrary: aliases m) (simp_all add: new_builder_inputs split: sum.split prod.split)
  qed
  have valid: "validate_mappings (builder_context ?b) = Inr ()"
    using assms(2) by (cases "validate_mappings (builder_context ?b)") (simp_all add: build_descriptor_def Let_def)
  have valid': "validate_mappings (builder_context ?b') = Inr ()" using valid run(1) by (simp add: validate_mappings_def)
  have "\<exists>d'. build_descriptor w iv ?ctx ps = Inr d'"
    using valid' run(2,3,6) m' mm req'
    by (simp add: build_descriptor_def invocation_descriptor_def Let_def new_builder_inputs loop')
  then obtain d' where d': "build_descriptor w iv ?ctx ps = Inr d'" by blast
  have "d = d'"
    unfolding descriptor_eq_iff [OF assms(1) assms(1) assms(2) d']
    using assms(3) by (simp add: key_preprocessing_def key_binding_def key_arguments_def new_builder_inputs)
  with d' show ?thesis by simp
qed


lemma build_descriptor_context:
  assumes "host_laws (path_world w)" "build_descriptor w iv ctx ps = Inr d"
  shows "is_absolute (working_dir ctx)" "valid_mappings (path_mappings ctx)"
    "i \<in> set (cc_inputs ctx) \<Longrightarrow> validate_digest (input_digest i) = Inr ()"
proof -
  let ?b = "new_builder w ctx"
  have valid: "validate_mappings (builder_context ?b) = Inr ()"
    using assms(2) by (cases "validate_mappings (builder_context ?b)") (simp_all add: build_descriptor_def Let_def)
  then show wd: "is_absolute (working_dir ctx)" by (auto simp: validate_mappings_def split: if_splits)
  have "validate_loop {} {} (ordered (path_mappings ctx)) = Inr ()" using valid wd by (simp add: validate_mappings_def)
  from conjunct1 [OF validate_loop_valid [OF this]] show "valid_mappings (path_mappings ctx)" by (simp only: ordered_valid)
  obtain texts al1 req al2 m al3 where run:
    "collect_texts (normalize_argument w ?b) Map.empty (arguments iv) = (Inr texts, al1)"
    "collect_texts (normalize_path w ?b) al1 (required_inputs iv) = (Inr req, al2)"
    "inputs_loop w ?b al2 (cc_inputs ctx) [] = (Inr m, al3)"
    by (rule build_descriptor_run [OF assms(2)])
  have sp: "steady_step (path_world w) (normalize_path w ?b)" using wd by (intro steady_normalize_path [OF assms(1)]) simp
  note al1 = collect_texts_steady(1) [OF steady_normalize_argument [OF sp] aliases_good_empty run(1)]
  note al2 = collect_texts_steady(1) [OF sp al1 run(2)]
  assume "i \<in> set (cc_inputs ctx)"
  from inputs_loop_valid [OF steady_normalize_input_path [OF sp] al2 run(3) this]
  show "validate_digest (input_digest i) = Inr ()" by blast
qed

lemma build_descriptor_same_texts:
  assumes "host_laws (path_world w)" "build_descriptor w iv ctx ps = Inr d"
    and "input_text w (new_builder w ctx) ` set (cc_inputs ctx) = Inr ` T" "input_text w (new_builder w ctx) ` set js = Inr ` T"
    and "\<forall>i \<in> set (cc_inputs ctx). \<forall>j \<in> set js. input_text w (new_builder w ctx) j = input_text w (new_builder w ctx) i \<longrightarrow>
      input_digest j = input_digest i"
  shows "build_descriptor w iv (ctx\<lparr>cc_inputs := js\<rparr>) ps = Inr d"
proof (rule build_descriptor_rebuild [OF assms(1,2)])
  let ?text = "input_text w (new_builder w ctx)"
  have old: "\<exists>i \<in> set (cc_inputs ctx). ?text i = Inr t \<and> ?text j = Inr t" if "j \<in> set js" "?text j = Inr t" for j t
  proof -
    have "Inr t \<in> ?text ` set (cc_inputs ctx)" using imageI [OF that(1), of ?text] that(2) assms(3,4) by simp
    then show ?thesis using that(2) by (elim imageE) (intro bexI conjI, simp_all)
  qed
  have new: "\<exists>j \<in> set js. ?text j = ?text i" if "i \<in> set (cc_inputs ctx)" for i
    using imageI [OF that, of ?text] assms(3,4) by (metis (no_types, lifting) imageE)
  have key: "key_inputs w (ctx\<lparr>cc_inputs := js\<rparr>) = {(t, dg). \<exists>j \<in> set js. ?text j = Inr t \<and> input_digest j = dg}"
    by (simp add: key_inputs_def new_builder_inputs)
  show "key_inputs w (ctx\<lparr>cc_inputs := js\<rparr>) = key_inputs w ctx"
  proof -
    have "(\<exists>j \<in> set js. ?text j = Inr t \<and> input_digest j = dg) \<longleftrightarrow> (\<exists>i \<in> set (cc_inputs ctx). ?text i = Inr t \<and> input_digest i = dg)" for t dg
    proof
      assume "\<exists>j \<in> set js. ?text j = Inr t \<and> input_digest j = dg"
      then obtain j where j: "j \<in> set js" "?text j = Inr t" "input_digest j = dg" by blast
      obtain i where i: "i \<in> set (cc_inputs ctx)" "?text i = Inr t" using old [OF j(1,2)] by blast
      have "input_digest i = dg" using bspec [OF bspec [OF assms(5) i(1)] j(1)] i(2) j(2,3) by simp
      with i show "\<exists>i \<in> set (cc_inputs ctx). ?text i = Inr t \<and> input_digest i = dg" by (intro bexI conjI)
    next
      assume "\<exists>i \<in> set (cc_inputs ctx). ?text i = Inr t \<and> input_digest i = dg"
      then obtain i where i: "i \<in> set (cc_inputs ctx)" "?text i = Inr t" "input_digest i = dg" by blast
      obtain j where j: "j \<in> set js" "?text j = ?text i" using new [OF i(1)] by blast
      have "?text j = Inr t" "input_digest j = dg" using bspec [OF bspec [OF assms(5) i(1)] j(1)] j(2) i(2,3) by simp_all
      with j(1) show "\<exists>j \<in> set js. ?text j = Inr t \<and> input_digest j = dg" by (intro bexI conjI)
    qed
    then show ?thesis unfolding key unfolding key_inputs_def by (simp only:)
  qed
  show "\<forall>j \<in> set js. validate_digest (input_digest j) = Inr () \<and> (\<exists>t. ?text j = Inr t)"
  proof
    fix j assume j: "j \<in> set js"
    obtain i t where i: "i \<in> set (cc_inputs ctx)" "?text i = Inr t" "?text j = Inr t" 
      using imageI [OF j, of ?text] assms(4) old [OF j] by (metis (no_types, lifting) imageE)
    have "input_digest j = input_digest i" using bspec [OF bspec [OF assms(5) i(1)] j] i(2,3) by simp
    with build_descriptor_context(3) [OF assms(1,2) i(1)] i(3) show "validate_digest (input_digest j) = Inr () \<and> (\<exists>t. ?text j = Inr t)" by auto
  qed
qed

text \<open>The path of an entry, and the input text written for it.\<close>

definition entry_path :: "path list \<Rightarrow> path_mapping list \<Rightarrow> string \<Rightarrow> denormalize_error + path" where
  "entry_path dev ms e = denormalize_path dev (case strip_prefix INCLUDE_MANIFEST_PREFIX e of Some d \<Rightarrow> d | None \<Rightarrow> e) ms"

definition entry_input :: "string \<Rightarrow> path \<Rightarrow> string" where
  "entry_input e p = (case strip_prefix INCLUDE_MANIFEST_PREFIX e of Some _ \<Rightarrow> INCLUDE_MANIFEST_PREFIX | None \<Rightarrow> []) @ show_path p"

lemma discover_loop_paths:
  assumes "\<forall>e \<in> set es. \<exists>p. entry_path dev ms e = Inr p"
  shows "\<exists>files' directories'. discover_loop dev ms es files directories = Inr (files \<union> files', directories \<union> directories') \<and>
    show_path ` files' \<union> (\<lambda>d. INCLUDE_MANIFEST_PREFIX @ show_path d) ` directories' = {entry_input e p |e p. e \<in> set es \<and> entry_path dev ms e = Inr p}"
  using assms
proof (induction es arbitrary: files directories)
  case (Cons e es)
  obtain p where p: "entry_path dev ms e = Inr p" using Cons.prems by auto
  have ok: "\<forall>e \<in> set es. \<exists>p. entry_path dev ms e = Inr p" using Cons.prems by simp
  have split: "{entry_input x q |x q. x \<in> set (e # es) \<and> entry_path dev ms x = Inr q} =
      insert (entry_input e p) {entry_input x q |x q. x \<in> set es \<and> entry_path dev ms x = Inr q}" using p by auto
  show ?case
  proof (cases "strip_prefix INCLUDE_MANIFEST_PREFIX e")
    case None
    with p have step: "discover_loop dev ms (e # es) files directories = discover_loop dev ms es (insert p files) directories"
      and here: "entry_input e p = show_path p" by (simp_all add: entry_path_def entry_input_def)
    obtain fs ds where "discover_loop dev ms es (insert p files) directories = Inr (insert p files \<union> fs, directories \<union> ds)"
      "show_path ` fs \<union> (\<lambda>d. INCLUDE_MANIFEST_PREFIX @ show_path d) ` ds = {entry_input x q |x q. x \<in> set es \<and> entry_path dev ms x = Inr q}"
      using Cons.IH [OF ok] by blast
    then show ?thesis unfolding split step here by (intro exI [of _ "insert p fs"] exI [of _ ds]) simp
  next
    case (Some d)
    with p have step: "discover_loop dev ms (e # es) files directories = discover_loop dev ms es files (insert p directories)"
      and here: "entry_input e p = INCLUDE_MANIFEST_PREFIX @ show_path p" by (simp_all add: entry_path_def entry_input_def)
    obtain fs ds where "discover_loop dev ms es files (insert p directories) = Inr (files \<union> fs, insert p directories \<union> ds)"
      "show_path ` fs \<union> (\<lambda>d. INCLUDE_MANIFEST_PREFIX @ show_path d) ` ds = {entry_input x q |x q. x \<in> set es \<and> entry_path dev ms x = Inr q}"
      using Cons.IH [OF ok] by blast
    then show ?thesis unfolding split step here by (intro exI [of _ fs] exI [of _ "insert p ds"]) simp
  qed
qed simp

text \<open>The path that an input names, without the mark of a manifest.\<close>

definition input_source :: "cc_action_input \<Rightarrow> path" where
  "input_source i = parse_path (case strip_prefix INCLUDE_MANIFEST_PREFIX (input_path i) of Some d \<Rightarrow> d | None \<Rightarrow> input_path i)"

lemma manifest_mark:
  "strip_prefix INCLUDE_MANIFEST_PREFIX (INCLUDE_MANIFEST_PREFIX @ t) = Some t"
  "t \<noteq> [] \<Longrightarrow> hd t \<in> {CHR ''$'', CHR ''/''} \<Longrightarrow> strip_prefix INCLUDE_MANIFEST_PREFIX t = None"
  by (simp add: strip_prefix_eq_Some) (cases t; auto simp: INCLUDE_MANIFEST_PREFIX_def)

lemma input_text_path:
  assumes "\<forall>s. utf8 w s"
  shows "input_text w (new_builder w ctx) i =
    (case strip_prefix INCLUDE_MANIFEST_PREFIX (input_path i) of
       Some d \<Rightarrow> map_sum (\<lambda>e. e) (\<lambda>t. INCLUDE_MANIFEST_PREFIX @ t) (path_text w ctx (input_source i))
     | None \<Rightarrow> path_text w ctx (input_source i))"
  using assms by (simp add: input_text_def normalize_input_path_def path_text_def input_source_def split_def Let_def split: option.split)

text \<open>What an entry of a prediction stands for: a path whose input has that entry as its text.\<close>

lemma entry_back:
  assumes "host_laws (path_world w)" "is_absolute (working_dir ctx)" "valid_mappings (path_mappings ctx)" "\<forall>s. utf8 w s"
    and "\<forall>m \<in> set (path_mappings ctx). list_all plain_component (component_names (normalize_components (root m)))"
    and "input_text w (new_builder w ctx) i = Inr e" "plain_source w ctx (input_source i)"
  shows "\<exists>q. entry_path (developer_roots w) (ordered (path_mappings ctx)) e = Inr q \<and>
    (\<forall>j. input_path j = entry_input e q \<longrightarrow> input_text w (new_builder w ctx) j = Inr e)"
proof -
  note text_of = input_text_path [OF assms(4), of ctx]
  obtain t where t: "path_text w ctx (input_source i) = Inr t"
    "e = (case strip_prefix INCLUDE_MANIFEST_PREFIX (input_path i) of Some _ \<Rightarrow> INCLUDE_MANIFEST_PREFIX | None \<Rightarrow> []) @ t"
    using assms(6) by (cases "path_text w ctx (input_source i)") (auto simp: text_of split: option.splits)
  obtain q where q: "denormalize_path (developer_roots w) t (ordered (path_mappings ctx)) = Inr q" "path_text w ctx q = Inr t"
    "parse_path (show_path q) = q"
    using path_text_back [OF assms(1-3,5) t(1) assms(7)] parse_show_path by blast
  have slash: "strip_prefix INCLUDE_MANIFEST_PREFIX (show_path q) = None" by (rule manifest_mark(2)) (simp_all add: show_path_def)
  show ?thesis
  proof (cases "strip_prefix INCLUDE_MANIFEST_PREFIX (input_path i)")
    case None
    then have e: "e = t" "strip_prefix INCLUDE_MANIFEST_PREFIX e = None" using t manifest_mark(2) path_text_start by auto
    with q slash show ?thesis by (auto simp: entry_path_def entry_input_def text_of input_source_def)
  next
    case (Some d)
    then have e: "strip_prefix INCLUDE_MANIFEST_PREFIX e = Some t" "e = INCLUDE_MANIFEST_PREFIX @ t" using t(2) manifest_mark(1) by auto
    with q show ?thesis by (auto simp: entry_path_def entry_input_def text_of input_source_def manifest_mark(1))
  qed
qed

lemma found_texts:
  assumes "input_path ` set found = {entry_input e p |e p. e \<in> E \<and> path_of e = Inr p}"
    and "\<And>e. e \<in> E \<Longrightarrow> \<exists>q. path_of e = Inr q \<and> (\<forall>j. input_path j = entry_input e q \<longrightarrow> text_of j = Inr e)"
  shows "text_of ` set found = Inr ` E"
proof
  show "text_of ` set found \<subseteq> Inr ` E"
  proof (rule image_subsetI)
    fix j assume "j \<in> set found"
    then have "input_path j \<in> {entry_input e p |e p. e \<in> E \<and> path_of e = Inr p}" unfolding assms(1) [symmetric] by (rule imageI)
    then obtain e p where e: "e \<in> E" "path_of e = Inr p" "input_path j = entry_input e p" by blast
    then have "text_of j = Inr e" using assms(2) [OF e(1)] by auto
    with e(1) show "text_of j \<in> Inr ` E" by simp
  qed
  show "Inr ` E \<subseteq> text_of ` set found"
  proof (rule image_subsetI)
    fix e assume e: "e \<in> E"
    then obtain q where q: "path_of e = Inr q" "\<forall>j. input_path j = entry_input e q \<longrightarrow> text_of j = Inr e" using assms(2) by blast
    have "entry_input e q \<in> input_path ` set found" unfolding assms(1) using e q(1) by blast
    then obtain j where "j \<in> set found" "input_path j = entry_input e q" by (elim imageE) simp
    with q(2) show "Inr e \<in> text_of ` set found" by (metis image_eqI)
  qed
qed

lemma prediction_texts:
  assumes "host_laws (path_world w)" "is_absolute (working_dir ctx)" "prediction_of w ctx duration name = Inr pr"
  shows "Inr ` set (pr_inputs pr) = input_text w (new_builder w ctx) ` set (cc_inputs ctx)" "pr_version pr = 1"
    "pr_environment pr = map fst (cc_environment ctx)"
proof -
  let ?f = "\<lambda>aliases i. normalize_input_path w (new_builder w ctx) aliases (input_path i)"
  obtain texts al where run: "collect_texts ?f Map.empty (cc_inputs ctx) = (Inr texts, al)"
    and pr: "pr = \<lparr>pr_path_specific = False, pr_version = 1, pr_inputs = remdups_adj (sort texts),
      pr_environment = map fst (cc_environment ctx), pr_compiler_duration_ns = duration, pr_source_name = name\<rparr>"
    using assms(3) by (auto simp: prediction_of_def split: prod.splits sum.splits)
  have st: "steady_step (path_world w) (normalize_input_path w (new_builder w ctx))"
    using assms(2) by (intro steady_normalize_input_path steady_normalize_path [OF assms(1)]) simp
  have "steady_step (path_world w) ?f" by (rule steadyI) (rule conjI [OF steady_at [OF st]])
  from collect_texts_steady(2) [OF this aliases_good_empty run refl]
  have "map (input_text w (new_builder w ctx)) (cc_inputs ctx) = map Inr texts"
    by (simp only: input_text_def [abs_def])
  then have "input_text w (new_builder w ctx) ` set (cc_inputs ctx) = Inr ` set texts" by (metis list.set_map)
  then show "Inr ` set (pr_inputs pr) = input_text w (new_builder w ctx) ` set (cc_inputs ctx)" by (simp add: pr)
  show "pr_version pr = 1" "pr_environment pr = map fst (cc_environment ctx)" by (simp_all add: pr)
qed

text \<open>
  C31. A prediction is enough to rebuild a key before compiling. After a compile whose action was built,
  the recorded texts of its inputs turn back into files and manifest directories on the same
  host, whatever links the inputs were reached through; and if those files and directories still have the
  digests that the inputs with the same texts had, the action built from them is the action of
  the finished compile, byte for byte. The host keeps its links, names are UTF-8 and without a
  slash or backslash, and the recorded lists are within the limits.
\<close>

theorem prediction_rebuilds_key:
  assumes "host_laws (path_world w)" "\<forall>s. utf8 w s"
    and "build_action json hash_of w iv ctx ps = Inr a" "prediction_of w ctx duration name = Inr pr"
    and "length (pr_inputs pr) \<le> MAX_PREDICTED_INPUTS" "length (cc_environment ctx) \<le> 4 * 1024"
    and "\<forall>m \<in> set (path_mappings ctx). list_all plain_component (component_names (normalize_components (root m)))"
    and "\<forall>i \<in> set (cc_inputs ctx). plain_source w ctx (input_source i)"
  shows "\<exists>files directories. discover_paths (developer_roots w) (path_mappings ctx) pr = Inr (files, directories) \<and>
    (\<forall>found. input_path ` set found = show_path ` files \<union> (\<lambda>d. INCLUDE_MANIFEST_PREFIX @ show_path d) ` directories \<longrightarrow>
      (\<forall>i \<in> set (cc_inputs ctx). \<forall>j \<in> set found.
         input_text w (new_builder w ctx) j = input_text w (new_builder w ctx) i \<longrightarrow> input_digest j = input_digest i) \<longrightarrow>
      build_action json hash_of w iv (ctx\<lparr>cc_inputs := found\<rparr>) ps = Inr a)"
proof -
  let ?text = "input_text w (new_builder w ctx)" and ?path = "entry_path (developer_roots w) (ordered (path_mappings ctx))"
  obtain d where d: "build_descriptor w iv ctx ps = Inr d" and a: "a = \<lparr>action_digest = blake3_digest hash_of (json d), action_bytes = json d\<rparr>"
    using assms(3) by (cases "build_descriptor w iv ctx ps") (auto simp: build_action_def)
  note good = build_descriptor_context [OF assms(1) d]
  note texts = prediction_texts [OF assms(1) good(1) assms(4)]
  have entry: "\<exists>q. ?path e = Inr q \<and> (\<forall>j. input_path j = entry_input e q \<longrightarrow> ?text j = Inr e)" if e: "e \<in> set (pr_inputs pr)" for e
  proof -
    obtain i where "i \<in> set (cc_inputs ctx)" "?text i = Inr e" using texts(1) e by (metis (no_types, lifting) image_iff)
    with entry_back [OF assms(1) good(1,2) assms(2,7)] assms(8) show ?thesis by blast
  qed
  then have "\<forall>e \<in> set (pr_inputs pr). \<exists>p. ?path e = Inr p" by blast
  from discover_loop_paths [OF this, of "{}" "{}"] obtain files directories where
    run: "discover_loop (developer_roots w) (ordered (path_mappings ctx)) (pr_inputs pr) {} {} = Inr (files, directories)"
    and paths: "show_path ` files \<union> (\<lambda>d. INCLUDE_MANIFEST_PREFIX @ show_path d) ` directories =
      {entry_input e p |e p. e \<in> set (pr_inputs pr) \<and> ?path e = Inr p}" by auto
  have "build_action json hash_of w iv (ctx\<lparr>cc_inputs := found\<rparr>) ps = Inr a"
    if found: "input_path ` set found = show_path ` files \<union> (\<lambda>d. INCLUDE_MANIFEST_PREFIX @ show_path d) ` directories"
      and digests: "\<forall>i \<in> set (cc_inputs ctx). \<forall>j \<in> set found. ?text j = ?text i \<longrightarrow> input_digest j = input_digest i" for found
  proof -
    have "?text ` set found = Inr ` set (pr_inputs pr)" by (rule found_texts [OF found [unfolded paths] entry])
    then have "build_descriptor w iv (ctx\<lparr>cc_inputs := found\<rparr>) ps = Inr d"
      by (rule build_descriptor_same_texts [OF assms(1) d texts(1) [symmetric] _ digests])
    then show ?thesis by (simp add: build_action_def a)
  qed
  moreover have "discover_paths (developer_roots w) (path_mappings ctx) pr = Inr (files, directories)"
    using run assms(5,6) texts(2,3) by (simp add: discover_paths_def)
  ultimately show ?thesis by blast
qed

text \<open>Two spellings of one source, a header and a directory that was searched.\<close>

definition example_seen :: "cc_action_input list" where
  "example_seen = example_inputs' @ [\<lparr>input_path = ''@include-manifest:/real/inc'', input_digest = sample_digest 3\<rparr>]"

definition example_found :: "cc_action_input list" where
  "example_found = [\<lparr>input_path = ''/w/a.c'', input_digest = sample_digest 1\<rparr>, \<lparr>input_path = ''/usr/include/b.h'', input_digest = sample_digest 2\<rparr>,
     \<lparr>input_path = ''@include-manifest:/w/inc'', input_digest = sample_digest 3\<rparr>]"

definition example_prediction :: cc_input_prediction where
  "example_prediction = \<lparr>pr_path_specific = False, pr_version = 1, pr_inputs = [''${workspace}/a.c'', ''/usr/include/b.h'', ''@include-manifest:${workspace}/inc''],
     pr_environment = [], pr_compiler_duration_ns = 7, pr_source_name = ''a.c''\<rparr>"

lemma example_seen_facts:
  "prediction_of example_world (example_context example_seen) 7 ''a.c'' = Inr example_prediction"
  "discover_paths [] example_mappings example_prediction = Inr ({parse_path ''/w/a.c'', parse_path ''/usr/include/b.h''}, {parse_path ''/w/inc''})"
  "\<not> isl (build_descriptor example_world example_call (example_context example_seen) False)"
  "list_all (\<lambda>m. list_all plain_component (component_names (normalize_components (root m)))) example_mappings"
  "list_all (\<lambda>i. plain_source example_world (example_context example_seen) (input_source i)) example_seen"
  "input_path ` set example_found =
     show_path ` {parse_path ''/w/a.c'', parse_path ''/usr/include/b.h''} \<union> (\<lambda>d. INCLUDE_MANIFEST_PREFIX @ show_path d) ` {parse_path ''/w/inc''}"
  "list_all (\<lambda>i. list_all (\<lambda>j. input_text example_world (new_builder example_world (example_context example_seen)) j =
     input_text example_world (new_builder example_world (example_context example_seen)) i \<longrightarrow> input_digest j = input_digest i) example_found) example_seen"
  by code_simp+

theorem prediction_rebuilds_key_witness:
  "build_action (\<lambda>_. []) (\<lambda>_ s. s) example_world example_call (example_context example_found) False =
   build_action (\<lambda>_. []) (\<lambda>_ s. s) example_world example_call (example_context example_seen) False"
proof -
  note facts = example_seen_facts
  have ctx: "(example_context example_seen)\<lparr>cc_inputs := example_found\<rparr> = example_context example_found"
    "path_mappings (example_context example_seen) = example_mappings" "cc_environment (example_context example_seen) = []"
    "cc_inputs (example_context example_seen) = example_seen" "developer_roots example_world = []"
    by (simp_all add: example_context_def example_world_def)
  obtain a where a: "build_action (\<lambda>_. []) (\<lambda>_ s. s) example_world example_call (example_context example_seen) False = Inr a"
    using facts(3) by (cases "build_descriptor example_world example_call (example_context example_seen) False") (auto simp: build_action_def)
  have "host_laws (path_world example_world)" "\<forall>s. utf8 example_world s" using example_host_laws by (simp_all add: example_world_def)
  from prediction_rebuilds_key [OF this a facts(1)] facts(2,4,5)
  have "\<forall>found. input_path ` set found =
      show_path ` {parse_path ''/w/a.c'', parse_path ''/usr/include/b.h''} \<union> (\<lambda>d. INCLUDE_MANIFEST_PREFIX @ show_path d) ` {parse_path ''/w/inc''} \<longrightarrow>
    (\<forall>i \<in> set example_seen. \<forall>j \<in> set found. input_text example_world (new_builder example_world (example_context example_seen)) j =
      input_text example_world (new_builder example_world (example_context example_seen)) i \<longrightarrow> input_digest j = input_digest i) \<longrightarrow>
    build_action (\<lambda>_. []) (\<lambda>_ s. s) example_world example_call ((example_context example_seen)\<lparr>cc_inputs := found\<rparr>) False = Inr a"
    unfolding ctx by (auto simp: example_prediction_def MAX_PREDICTED_INPUTS_def list_all_iff)
  from mp [OF mp [OF spec [OF this, of example_found] facts(6)] facts(7) [unfolded list_all_iff]]
  have "build_action (\<lambda>_. []) (\<lambda>_ s. s) example_world example_call (example_context example_found) False = Inr a"
    by (simp only: ctx)
  then show ?thesis by (simp only: a)
qed

end
