(* ===== verification/Output_Text.thy ===== *)
theory Output_Text
  imports Path_Mapping
begin

text \<open>
  Paths in the text outputs of a compile (\<open>mbx/src/materialize.rs\<close>): the dependency list and the
  diagnostics are stored with placeholders in place of this machine's roots, and a restore writes
  the receiving machine's roots back. Bytes are characters.
\<close>

section \<open>Replacing in bytes\<close>

definition ends_word :: "char \<Rightarrow> bool" where
  "ends_word c = (\<not> (CHR ''0'' \<le> c \<and> c \<le> CHR ''9'' \<or> CHR ''A'' \<le> c \<and> c \<le> CHR ''Z'' \<or> CHR ''a'' \<le> c \<and> c \<le> CHR ''z'' \<or>
     c \<in> {CHR ''-'', CHR ''_'', CHR ''.''}))"

text \<open>\<open>ends_at_boundary\<close>, given what follows the end.\<close>

definition ends_at_boundary :: "string \<Rightarrow> bool" where
  "ends_at_boundary rest = (case rest of [] \<Rightarrow> True | c # _ \<Rightarrow> ends_word c)"

text \<open>The loop of \<open>replace_bytes\<close> over what is left of the haystack.\<close>

function replace_loop :: "string \<Rightarrow> string \<Rightarrow> string \<Rightarrow> string" where
  "replace_loop needle replacement haystack =
     (if needle = [] \<or> length haystack < length needle then haystack
      else if starts_with needle haystack \<and> ends_at_boundary (drop (length needle) haystack)
      then replacement @ replace_loop needle replacement (drop (length needle) haystack)
      else hd haystack # replace_loop needle replacement (tl haystack))"
  by pat_completeness auto
termination
  by (relation "measure (\<lambda>(_, _, haystack). length haystack)") (auto simp: neq_Nil_conv)

declare replace_loop.simps [simp del]

definition replace_bytes :: "string \<Rightarrow> string \<Rightarrow> string \<Rightarrow> string" where
  "replace_bytes haystack needle replacement =
     (if needle = [] \<or> length haystack < length needle then haystack else replace_loop needle replacement haystack)"

lemma replace_bytes_loop: "replace_bytes haystack needle replacement = replace_loop needle replacement haystack"
  by (simp add: replace_bytes_def replace_loop.simps [of needle])

section \<open>Spellings of roots\<close>

definition replace_char :: "char \<Rightarrow> string \<Rightarrow> string \<Rightarrow> string" where
  "replace_char c by s = concat (map (\<lambda>d. if d = c then by else [d]) s)"

definition trim_separators :: "string \<Rightarrow> string" where
  "trim_separators s = rev (dropWhile (\<lambda>c. c = CHR ''/'' \<or> c = CHR 0x5C) (rev s))"

definition spelling_placeholder :: "path_mapping \<Rightarrow> string \<Rightarrow> string" where
  "spelling_placeholder m kind_suffix = ''${'' @ placeholder m @ kind_suffix @ ''}''"

text \<open>\<open>to_str\<close> gives the text of a root and \<open>json_escaped\<close> the inside of its JSON string.\<close>

definition spellings_of :: "(string \<Rightarrow> string) \<Rightarrow> (path \<Rightarrow> string option) \<Rightarrow> path_mapping \<Rightarrow> (string \<times> string) list" where
  "spellings_of json_escaped to_str m =
     (case to_str (root m) of
        None \<Rightarrow> []
      | Some s \<Rightarrow>
          let s = trim_separators s
          in if s = [] then []
             else [(s, spelling_placeholder m ''''), (replace_char (CHR 0x5C) [CHR 0x5C, CHR 0x5C] s, spelling_placeholder m '':escaped''),
                   (replace_char (CHR 0x5C) ''/'' s, spelling_placeholder m '':slash''), (json_escaped s, spelling_placeholder m '':json'')])"

fun push_new :: "(string \<times> string) list \<Rightarrow> (string \<times> string) list \<Rightarrow> (string \<times> string) list" where
  "push_new spellings [] = spellings"
| "push_new spellings (x # xs) = push_new (if x \<in> set spellings then spellings else spellings @ [x]) xs"

definition root_spellings :: "(string \<Rightarrow> string) \<Rightarrow> (path \<Rightarrow> string option) \<Rightarrow> path_mapping list \<Rightarrow> (string \<times> string) list" where
  "root_spellings json_escaped to_str ms =
     sort_key (\<lambda>(r, _). - int (length r)) (foldl (\<lambda>spellings m. push_new spellings (spellings_of json_escaped to_str m)) [] (ordered ms))"

definition normalize_output_text :: "(string \<Rightarrow> string) \<Rightarrow> (path \<Rightarrow> string option) \<Rightarrow> string \<Rightarrow> path_mapping list \<Rightarrow> string" where
  "normalize_output_text json_escaped to_str bytes ms =
     foldl (\<lambda>t (r, p). replace_bytes t r p) bytes (root_spellings json_escaped to_str ms)"

definition denormalize_output_text :: "(string \<Rightarrow> string) \<Rightarrow> (path \<Rightarrow> string option) \<Rightarrow> string \<Rightarrow> path_mapping list \<Rightarrow> string" where
  "denormalize_output_text json_escaped to_str bytes ms =
     foldl (\<lambda>t (r, p). replace_bytes t p r) bytes (root_spellings json_escaped to_str ms)"

section \<open>Texts as bytes and placeholders\<close>

datatype token = Byte char | Stand "string \<times> string"

fun flat :: "token list \<Rightarrow> string" where
  "flat [] = []"
| "flat (Byte c # ts) = c # flat ts"
| "flat (Stand x # ts) = snd x @ flat ts"

fun original :: "token list \<Rightarrow> string" where
  "original [] = []"
| "original (Byte c # ts) = c # original ts"
| "original (Stand x # ts) = fst x @ original ts"

fun bounded_stands :: "token list \<Rightarrow> bool" where
  "bounded_stands [] = True"
| "bounded_stands (Byte c # ts) = bounded_stands ts"
| "bounded_stands (Stand x # ts) = (ends_at_boundary (flat ts) \<and> bounded_stands ts)"

definition stands :: "token list \<Rightarrow> (string \<times> string) set" where
  "stands ts = {x. Stand x \<in> set ts}"

text \<open>
  A root begins with a separator and has no dollar sign; a placeholder is a name in dollar sign and braces.
\<close>

definition good_name :: "string \<Rightarrow> bool" where
  "good_name w = (set w \<inter> {CHR ''$'', CHR ''{'', CHR ''}'', CHR ''/''} = {})"

definition good_pair :: "string \<times> string \<Rightarrow> bool" where
  "good_pair x = (fst x \<noteq> [] \<and> hd (fst x) = CHR ''/'' \<and> CHR ''$'' \<notin> set (fst x) \<and> (\<exists>w. snd x = ''${'' @ w @ ''}'' \<and> good_name w))"

lemma flat_bytes [simp]: "flat (map Byte s @ ts) = s @ flat ts" "flat (map Byte s) = s"
  by (induction s) auto

lemma original_bytes [simp]: "original (map Byte s @ ts) = s @ original ts" "original (map Byte s) = s"
  by (induction s) auto

lemma bounded_bytes [simp]: "bounded_stands (map Byte s @ ts) = bounded_stands ts" "bounded_stands (map Byte s)"
  by (induction s) auto

lemma stands_simps [simp]:
  "stands [] = {}" "stands (Byte c # ts) = stands ts" "stands (Stand x # ts) = insert x (stands ts)"
  "stands (map Byte s @ ts) = stands ts" "stands (map Byte s) = {}"
  by (auto simp: stands_def)

lemma good_placeholder:
  assumes "good_pair x"
  shows "snd x \<noteq> []" "hd (snd x) = CHR ''$''" "CHR ''/'' \<notin> set (snd x)" "CHR ''$'' \<notin> set (tl (snd x))"
  using assms by (auto simp: good_pair_def good_name_def)

lemma good_placeholder_prefix:
  assumes "good_pair x" "good_pair y" "starts_with (snd x) (snd y @ u)"
  shows "snd x = snd y"
proof -
  obtain v w where v: "snd x = ''${'' @ v @ ''}''" "good_name v" and w: "snd y = ''${'' @ w @ ''}''" "good_name w"
    using assms(1,2) by (auto simp: good_pair_def)
  obtain z where "w @ CHR ''}'' # u = v @ CHR ''}'' # z" using assms(3) v w by (auto simp: starts_with_iff prefix_def)
  moreover have "CHR ''}'' \<notin> set v" "CHR ''}'' \<notin> set w" using v w by (auto simp: good_name_def)
  ultimately have "w = v" using split_on_append [of "CHR ''}''" w u] split_on_append [of "CHR ''}''" v z] by simp
  with v w show ?thesis by simp
qed

lemma replace_loop_skip:
  assumes "needle \<noteq> []" "hd needle \<notin> set u"
  shows "replace_loop needle replacement (u @ v) = u @ replace_loop needle replacement v"
  using assms(2)
proof (induction u)
  case (Cons c u)
  have "\<not> starts_with needle (c # u @ v)" using Cons.prems assms(1) by (cases needle) (auto simp: starts_with_iff)
  moreover have "replace_loop needle replacement v = v" if "length (c # u @ v) < length needle"
    using that by (simp add: replace_loop.simps [of needle _ v])
  ultimately show ?case using Cons assms(1) by (subst replace_loop.simps) auto
qed simp

text \<open>Bytes without a dollar sign are found in bytes only.\<close>

lemma prefix_flat:
  assumes "CHR ''$'' \<notin> set s" "\<forall>x \<in> stands ts. good_pair x"
  shows "prefix s (flat ts) \<longleftrightarrow> prefix (map Byte s) ts"
  using assms
proof (induction s arbitrary: ts)
  case (Cons c s)
  show ?case
  proof (cases ts)
    case (Cons t ts')
    show ?thesis
    proof (cases t)
      case (Byte d)
      then show ?thesis using Cons Cons.IH [of ts'] Cons.prems \<open>ts = t # ts'\<close> by auto
    next
      case (Stand x)
      then have "hd (flat ts) = CHR ''$''" "flat ts \<noteq> []"
        using good_placeholder [of x] Cons Cons.prems by (auto simp: hd_append)
      then show ?thesis using Cons.prems(1) Cons Stand by (cases "flat ts") auto
    qed
  qed simp
qed simp

section \<open>Storing\<close>

function absorb :: "string \<times> string \<Rightarrow> token list \<Rightarrow> token list" where
  "absorb x [] = []"
| "absorb x (t # ts) =
     (if fst x \<noteq> [] \<and> prefix (map Byte (fst x)) (t # ts) \<and> ends_at_boundary (flat (drop (length (fst x)) (t # ts)))
      then Stand x # absorb x (drop (length (fst x)) (t # ts))
      else t # absorb x ts)"
  by pat_completeness auto
termination
  by (relation "measure (\<lambda>(_, ts). length ts)") auto

lemma absorb_boundary:
  assumes "good_pair x" "ends_at_boundary (flat ts)" "\<forall>y \<in> stands ts. good_pair y"
  shows "ends_at_boundary (flat (absorb x ts))"
proof (cases ts)
  case (Cons t ts')
  have "ends_at_boundary (snd x @ u)" for u
    using good_placeholder(1,2) [OF assms(1)] by (cases "snd x") (auto simp: ends_at_boundary_def ends_word_def less_eq_char_def)
  moreover have "ends_at_boundary (flat (t # absorb x ts'))"
  proof (cases t)
    case (Stand y)
    then have "snd y \<noteq> []" using assms(3) Cons good_placeholder(1) by simp
    with Stand show ?thesis using assms(2) Cons by (cases "snd y") (auto simp: ends_at_boundary_def)
  qed (use assms(2) Cons in \<open>auto simp: ends_at_boundary_def\<close>)
  ultimately show ?thesis using Cons by simp
qed (simp add: ends_at_boundary_def)

lemma replace_loop_step:
  assumes "needle \<noteq> []" "\<not> (starts_with needle (c # s) \<and> ends_at_boundary (drop (length needle) (c # s)))"
  shows "replace_loop needle replacement (c # s) = c # replace_loop needle replacement s"
  using assms by (subst replace_loop.simps) (auto simp: replace_loop.simps [of needle _ s])

lemma replace_loop_hit:
  assumes "needle \<noteq> []" "ends_at_boundary s"
  shows "replace_loop needle replacement (needle @ s) = replacement @ replace_loop needle replacement s"
  using assms by (subst replace_loop.simps) (simp add: starts_with_iff)

lemma stands_drop: "stands (drop n ts) \<subseteq> stands ts"
  by (auto simp: stands_def dest: in_set_dropD)

lemma absorb_props:
  assumes "good_pair x" "\<forall>y \<in> stands ts. good_pair y" "bounded_stands ts"
  shows "replace_loop (fst x) (snd x) (flat ts) = flat (absorb x ts) \<and> original (absorb x ts) = original ts \<and>
    bounded_stands (absorb x ts) \<and> stands (absorb x ts) \<subseteq> insert x (stands ts)"
  using assms
proof (induction x ts rule: absorb.induct)
  case (1 x)
  then show ?case by (simp add: replace_loop.simps [of _ _ "[]"])
next
  case (2 x t ts)
  have r: "fst x \<noteq> []" "hd (fst x) = CHR ''/''" "CHR ''$'' \<notin> set (fst x)" using "2.prems"(1) by (auto simp: good_pair_def)
  have found: "starts_with (fst x) (flat (t # ts)) \<longleftrightarrow> prefix (map Byte (fst x)) (t # ts)"
    using prefix_flat [OF r(3) "2.prems"(2)] by (simp add: starts_with_iff)
  show ?case
  proof (cases "prefix (map Byte (fst x)) (t # ts) \<and> ends_at_boundary (flat (drop (length (fst x)) (t # ts)))")
    case True
    then obtain rest where rest: "t # ts = map Byte (fst x) @ rest" by (auto simp: prefix_def)
    then have d: "drop (length (fst x)) (t # ts) = rest" by simp
    have good: "\<forall>y \<in> stands rest. good_pair y" "bounded_stands rest"
      using "2.prems"(2,3) unfolding rest by simp_all
    have IH: "replace_loop (fst x) (snd x) (flat rest) = flat (absorb x rest)" "original (absorb x rest) = original rest"
      "bounded_stands (absorb x rest)" "stands (absorb x rest) \<subseteq> insert x (stands rest)"
      using "2.IH"(1) True r(1) good "2.prems"(1) unfolding d by auto
    have "absorb x (t # ts) = Stand x # absorb x rest" using True r(1) d by simp
    moreover have "ends_at_boundary (flat (absorb x rest))" using True d good(1) "2.prems"(1) by (intro absorb_boundary) auto
    ultimately show ?thesis
      unfolding rest using IH replace_loop_hit [OF r(1), of "flat rest" "snd x"] True d by auto
  next
    case False
    then have a: "absorb x (t # ts) = t # absorb x ts" by auto
    have IH: "replace_loop (fst x) (snd x) (flat ts) = flat (absorb x ts)" "original (absorb x ts) = original ts"
      "bounded_stands (absorb x ts)" "stands (absorb x ts) \<subseteq> insert x (stands ts)"
      using "2.IH"(2) False "2.prems" by (cases t; auto)+
    show ?thesis
    proof (cases t)
      case (Byte c)
      have "\<not> (starts_with (fst x) (c # flat ts) \<and> ends_at_boundary (drop (length (fst x)) (c # flat ts)))"
      proof
        assume hit: "starts_with (fst x) (c # flat ts) \<and> ends_at_boundary (drop (length (fst x)) (c # flat ts))"
        then have p: "prefix (map Byte (fst x)) (t # ts)" using found Byte by simp
        then obtain rest where rest: "t # ts = map Byte (fst x) @ rest" by (auto simp: prefix_def)
        have "c # flat ts = flat (t # ts)" using Byte by simp
        then have "drop (length (fst x)) (c # flat ts) = flat (drop (length (fst x)) (t # ts))" unfolding rest by simp
        with hit p False show False by simp
      qed
      from replace_loop_step [OF r(1) this] show ?thesis using IH a Byte by auto
    next
      case (Stand y)
      have "hd (fst x) \<notin> set (snd y)" using r(2) good_placeholder(3) "2.prems"(2) Stand by simp
      from replace_loop_skip [OF r(1) this, of "snd x" "flat ts"] IH a Stand "2.prems" absorb_boundary [of x ts]
      show ?thesis by auto
    qed
  qed
qed

lemma absorb_free:
  assumes "CHR ''$'' \<in> set q" "good_pair x" "sublist (map Byte q) (absorb x ts)"
  shows "sublist (map Byte q) ts"
  using assms(2,3)
proof (induction x ts rule: absorb.induct)
  case (2 x t ts)
  have q: "q \<noteq> []" using assms(1) by auto
  have prefix: "prefix (map Byte s) ts'" if "prefix (map Byte s) (absorb x ts')" for s ts'
    using that
  proof (induction s arbitrary: ts')
    case (Cons c s)
    then show ?case by (cases ts') (auto split: if_splits)
  qed simp
  show ?case
  proof (cases "fst x \<noteq> [] \<and> prefix (map Byte (fst x)) (t # ts) \<and> ends_at_boundary (flat (drop (length (fst x)) (t # ts)))")
    case True
    then have "sublist (map Byte q) (absorb x (drop (length (fst x)) (t # ts)))"
      using "2.prems"(2) q by (cases q) (auto simp: sublist_Cons_right)
    from "2.IH"(1) [OF True "2.prems"(1) this] show ?thesis by (metis sublist_drop sublist_order.order_trans)
  next
    case False
    then have "prefix (map Byte q) (t # absorb x ts) \<or> sublist (map Byte q) (absorb x ts)"
      using "2.prems"(2) by (auto simp: sublist_Cons_right)
    then show ?thesis
    proof
      assume "prefix (map Byte q) (t # absorb x ts)"
      then have "prefix (map Byte q) (t # ts)" using q prefix by (cases q) auto
      then show ?thesis by (simp add: prefix_imp_sublist)
    next
      assume "sublist (map Byte q) (absorb x ts)"
      from "2.IH"(2) [OF False "2.prems"(1) this] show ?thesis by (simp add: sublist_Cons_right)
    qed
  qed
qed simp

section \<open>Restoring\<close>

definition restore :: "string \<times> string \<Rightarrow> token list \<Rightarrow> token list" where
  "restore x ts = concat (map (\<lambda>t. if t = Stand x then map Byte (fst x) else [t]) ts)"

lemma restore_simps [simp]:
  "restore x [] = []" "restore x (Byte c # ts) = Byte c # restore x ts"
  "restore x (Stand y # ts) = (if y = x then map Byte (fst x) else [Stand y]) @ restore x ts"
  by (simp_all add: restore_def)

lemma original_restore [simp]: "original (restore x ts) = original ts"
  by (induction ts rule: original.induct) auto

lemma stands_restore [simp]: "stands (restore x ts) = stands ts - {x}"
  by (induction ts rule: original.induct) auto

lemma restore_boundary:
  assumes "good_pair x" "ends_at_boundary (flat ts)" "\<forall>y \<in> stands ts. good_pair y"
  shows "ends_at_boundary (flat (restore x ts))"
proof (cases ts)
  case (Cons t ts')
  have sep: "ends_at_boundary (fst x @ u)" for u
    using assms(1) by (cases "fst x") (auto simp: good_pair_def ends_at_boundary_def ends_word_def less_eq_char_def)
  show ?thesis
  proof (cases t)
    case (Stand y)
    then have "snd y \<noteq> []" using assms(3) Cons good_placeholder(1) by simp
    with Stand Cons assms(2) sep show ?thesis by (cases "snd y") (auto simp: ends_at_boundary_def)
  qed (use assms(2) Cons in \<open>auto simp: ends_at_boundary_def\<close>)
qed (simp add: ends_at_boundary_def)

lemma restore_bounded:
  assumes "good_pair x" "\<forall>y \<in> stands ts. good_pair y" "bounded_stands ts"
  shows "bounded_stands (restore x ts)"
  using assms(2,3) restore_boundary [OF assms(1)] by (induction ts rule: original.induct) auto

lemma restore_prefix:
  assumes "good_pair x" "CHR ''/'' \<notin> set s" "prefix (map Byte s) (restore x ts)"
  shows "prefix (map Byte s) ts"
  using assms(2,3)
proof (induction s arbitrary: ts)
  case (Cons c s)
  have "prefix (map Byte (c # s)) ts \<or> False"
  proof (cases ts rule: original.cases)
    case (3 y ts')
    then show ?thesis using Cons.prems assms(1) by (cases "fst x") (auto simp: good_pair_def split: if_splits)
  qed (use Cons in auto)
  then show ?case by simp
qed simp

lemma restore_free:
  assumes "good_pair x" "good_pair y" "sublist (map Byte (snd y)) (restore x ts)"
  shows "sublist (map Byte (snd y)) ts"
  using assms(3)
proof (induction ts rule: original.induct)
  case (2 c ts)
  then have "prefix (map Byte (snd y)) (restore x (Byte c # ts)) \<or> sublist (map Byte (snd y)) (restore x ts)"
    by (auto simp: sublist_Cons_right)
  with restore_prefix [OF assms(1) good_placeholder(3) [OF assms(2)], of "Byte c # ts"] 2
  show ?case by (auto simp: sublist_Cons_right)
next
  case (3 z ts)
  have q: "snd y \<noteq> []" "hd (snd y) = CHR ''$''" using good_placeholder [OF assms(2)] by auto
  have skip: "sublist (map Byte (snd y)) us" if "sublist (map Byte (snd y)) (map Byte s @ us)" "CHR ''$'' \<notin> set s" for s us
    using that q by (induction s) (cases "snd y"; auto simp: sublist_Cons_right)+
  have "CHR ''$'' \<notin> set (fst x)" using assms(1) by (simp add: good_pair_def)
  then have "sublist (map Byte (snd y)) (restore x ts)"
    using "3.prems" skip [of "fst x"] q by (cases "snd y") (auto simp: sublist_Cons_right split: if_splits)
  with "3.IH" show ?case by (simp add: sublist_Cons_right)
qed simp

lemma restore_props:
  assumes "good_pair x" "\<forall>y \<in> stands ts. good_pair y \<and> (snd y = snd x \<longrightarrow> y = x)" "bounded_stands ts"
    and "\<not> sublist (map Byte (snd x)) ts"
  shows "replace_loop (snd x) (fst x) (flat ts) = flat (restore x ts)"
  using assms(2-)
proof (induction ts rule: original.induct)
  case 1
  show ?case by (simp add: replace_loop.simps [of _ _ "[]"])
next
  case (2 c ts)
  note q = good_placeholder [OF assms(1)]
  have "\<not> starts_with (snd x) (c # flat ts)"
  proof
    assume "starts_with (snd x) (c # flat ts)"
    then have c: "c = CHR ''$''" and "prefix (tl (snd x)) (flat ts)" using q(1,2) by (cases "snd x"; auto simp: starts_with_iff)+
    then have "prefix (map Byte (tl (snd x))) ts" using prefix_flat [OF q(4), of ts] "2.prems"(1) by auto
    with c q(1,2) have "prefix (map Byte (snd x)) (Byte c # ts)" by (cases "snd x") auto
    with "2.prems"(3) show False by (simp add: prefix_imp_sublist)
  qed
  with replace_loop_step [OF q(1)] 2 show ?case by (auto simp: sublist_Cons_right)
next
  case (3 y ts)
  note q = good_placeholder [OF assms(1)]
  have IH: "replace_loop (snd x) (fst x) (flat ts) = flat (restore x ts)" using 3 by (auto simp: sublist_Cons_right)
  show ?case
  proof (cases "y = x")
    case True
    then show ?thesis using replace_loop_hit [OF q(1), of "flat ts" "fst x"] "3.prems"(2) IH by simp
  next
    case False
    have y: "good_pair y" "snd y \<noteq> snd x" using "3.prems"(1) False by auto
    note qy = good_placeholder [OF y(1)]
    have "\<not> starts_with (snd x) (snd y @ flat ts)" using good_placeholder_prefix [OF assms(1) y(1)] y(2) by metis
    moreover obtain v where v: "snd y = CHR ''$'' # v" "CHR ''$'' \<notin> set v" using qy by (cases "snd y") auto
    ultimately have "replace_loop (snd x) (fst x) (snd y @ flat ts) = CHR ''$'' # replace_loop (snd x) (fst x) (v @ flat ts)"
      using replace_loop_step [OF q(1)] by simp
    also have "\<dots> = snd y @ flat (restore x ts)" using replace_loop_skip [OF q(1), of v] q(2) v IH by simp
    finally show ?thesis using False by simp
  qed
qed

lemma normalize_tokens:
  assumes "\<forall>x \<in> set xs. good_pair x" "\<forall>y \<in> stands ts. good_pair y" "bounded_stands ts"
  shows "\<exists>ts'. foldl (\<lambda>t (r, p). replace_bytes t r p) (flat ts) xs = flat ts' \<and> original ts' = original ts \<and>
    bounded_stands ts' \<and> stands ts' \<subseteq> set xs \<union> stands ts \<and>
    (\<forall>q. CHR ''$'' \<in> set q \<longrightarrow> sublist (map Byte q) ts' \<longrightarrow> sublist (map Byte q) ts)"
  using assms
proof (induction xs arbitrary: ts)
  case (Cons x xs)
  have x: "good_pair x" using Cons.prems by simp
  note a = absorb_props [OF x Cons.prems(2,3)]
  have "\<forall>y \<in> stands (absorb x ts). good_pair y" using a x Cons.prems(2) by blast
  from Cons.IH [OF _ this] a Cons.prems(1) obtain ts' where ts': "foldl (\<lambda>t (r, p). replace_bytes t r p) (flat (absorb x ts)) xs = flat ts'"
    "original ts' = original (absorb x ts)" "bounded_stands ts'" "stands ts' \<subseteq> set xs \<union> stands (absorb x ts)"
    "\<forall>q. CHR ''$'' \<in> set q \<longrightarrow> sublist (map Byte q) ts' \<longrightarrow> sublist (map Byte q) (absorb x ts)" by auto
  have "foldl (\<lambda>t (r, p). replace_bytes t r p) (flat ts) (x # xs) = flat ts'"
    using ts'(1) a by (simp add: replace_bytes_loop split_def)
  moreover have "stands ts' \<subseteq> set (x # xs) \<union> stands ts" using ts'(4) a by auto
  ultimately show ?case using ts'(2,3,5) a absorb_free [OF _ x] by (intro exI [of _ ts']) auto
qed auto

lemma restore_tokens:
  assumes "\<forall>x \<in> set xs. good_pair x" "\<forall>x \<in> set xs. \<forall>y \<in> set xs. snd y = snd x \<longrightarrow> y = x"
    and "\<forall>x \<in> set xs. \<not> sublist (map Byte (snd x)) ts" "bounded_stands ts" "set ys \<subseteq> set xs" "stands ts \<subseteq> set ys"
  shows "foldl (\<lambda>t (r, p). replace_bytes t p r) (flat ts) ys = original ts"
  using assms(3-)
proof (induction ys arbitrary: ts)
  case Nil
  have "flat ts = original ts" if "stands ts = {}" for ts using that by (induction ts rule: original.induct) auto
  with Nil show ?case by simp
next
  case (Cons x ys)
  have x: "good_pair x" "x \<in> set xs" using Cons.prems(3) assms(1) by auto
  have good: "\<forall>y \<in> stands ts. good_pair y" using Cons.prems(3,4) assms(1) by blast
  have "replace_loop (snd x) (fst x) (flat ts) = flat (restore x ts)"
    using x good assms(2) Cons.prems by (intro restore_props) blast+
  moreover have "foldl (\<lambda>t (r, p). replace_bytes t p r) (flat (restore x ts)) ys = original (restore x ts)"
  proof (rule Cons.IH)
    show "\<forall>y \<in> set xs. \<not> sublist (map Byte (snd y)) (restore x ts)"
      using Cons.prems(1) restore_free [OF x(1)] assms(1) by blast
    show "bounded_stands (restore x ts)" using restore_bounded [OF x(1) good Cons.prems(2)] .
  qed (use Cons.prems(3,4) in auto)
  ultimately show ?case by (simp add: replace_bytes_loop split_def)
qed

section \<open>The spellings of valid mappings\<close>

definition spelling_kinds :: "string list" where
  "spelling_kinds = ['''', '':escaped'', '':slash'', '':json'']"

definition spelling :: "(string \<Rightarrow> string) \<Rightarrow> string \<Rightarrow> string \<Rightarrow> string" where
  "spelling json_escaped s k =
     (if k = '''' then s else if k = '':escaped'' then replace_char (CHR 0x5C) [CHR 0x5C, CHR 0x5C] s
      else if k = '':slash'' then replace_char (CHR 0x5C) ''/'' s else json_escaped s)"

lemma spellings_of_cases:
  assumes "x \<in> set (spellings_of json_escaped to_str m)"
  obtains s k where "to_str (root m) = Some s" "trim_separators s \<noteq> []" "k \<in> set spelling_kinds"
    "x = (spelling json_escaped (trim_separators s) k, spelling_placeholder m k)"
proof -
  obtain s where s: "to_str (root m) = Some s" "trim_separators s \<noteq> []"
    using assms by (cases "to_str (root m)") (auto simp: spellings_of_def Let_def split: if_splits)
  then have "spellings_of json_escaped to_str m =
      map (\<lambda>k. (spelling json_escaped (trim_separators s) k, spelling_placeholder m k)) spelling_kinds"
    by (simp add: spellings_of_def spelling_kinds_def spelling_def Let_def)
  with assms s that show thesis by auto
qed

lemma set_push_new [simp]: "set (push_new ss xs) = set ss \<union> set xs"
  by (induction ss xs rule: push_new.induct) auto

lemma set_root_spellings:
  "set (root_spellings json_escaped to_str ms) = (\<Union>m \<in> set ms. set (spellings_of json_escaped to_str m))"
proof -
  have "set (foldl (\<lambda>ss m. push_new ss (spellings_of json_escaped to_str m)) ss ks) =
      set ss \<union> (\<Union>m \<in> set ks. set (spellings_of json_escaped to_str m))" for ss ks
    by (induction ks arbitrary: ss) auto
  then show ?thesis by (simp add: root_spellings_def ordered_def)
qed

lemma spelling_placeholder_inject:
  assumes "spelling_placeholder m k = spelling_placeholder m' k'" "k \<in> set spelling_kinds" "k' \<in> set spelling_kinds"
    and "list_all placeholder_char (placeholder m)" "list_all placeholder_char (placeholder m')"
  shows "placeholder m = placeholder m' \<and> k = k'"
proof -
  have name: "takeWhile (\<lambda>c. c \<noteq> CHR '':'') (n @ j) = n" if "list_all placeholder_char n" "j \<in> set spelling_kinds" for n j
  proof -
    have "\<And>c. c \<in> set n \<Longrightarrow> c \<noteq> CHR '':''" using that(1) by (auto simp: list_all_iff placeholder_char_def less_eq_char_def)
    then have "takeWhile (\<lambda>c. c \<noteq> CHR '':'') (n @ j) = n @ takeWhile (\<lambda>c. c \<noteq> CHR '':'') j" by (rule takeWhile_append2)
    moreover have "takeWhile (\<lambda>c. c \<noteq> CHR '':'') j = []" using that(2) by (auto simp: spelling_kinds_def)
    ultimately show ?thesis by simp
  qed
  have eq: "placeholder m @ k = placeholder m' @ k'" using assms(1) by (simp add: spelling_placeholder_def)
  then have "placeholder m = placeholder m'" using name [OF assms(4,2)] name [OF assms(5,3)] by metis
  with eq show ?thesis by simp
qed

definition root_text_ok :: "string \<Rightarrow> bool" where
  "root_text_ok s = (s \<noteq> [] \<and> hd s = CHR ''/'' \<and> CHR ''$'' \<notin> set s)"

lemma root_text_ok_trim:
  assumes "root_text_ok s" "trim_separators s \<noteq> []"
  shows "root_text_ok (trim_separators s)"
proof -
  have "rev s = takeWhile (\<lambda>c. c = CHR ''/'' \<or> c = CHR 0x5C) (rev s) @ dropWhile (\<lambda>c. c = CHR ''/'' \<or> c = CHR 0x5C) (rev s)" by simp
  then obtain u where u: "s = trim_separators s @ u" unfolding trim_separators_def by (metis rev_append rev_rev_ident)
  then have "set (trim_separators s) \<subseteq> set s" by (metis set_append sup_ge1)
  moreover have "hd (trim_separators s) = hd s" using u assms(2) by (metis hd_append2)
  ultimately show ?thesis using assms by (auto simp: root_text_ok_def)
qed

lemma root_text_ok_replace: "root_text_ok s \<Longrightarrow> CHR ''$'' \<notin> set u \<Longrightarrow> root_text_ok (replace_char (CHR 0x5C) u s)"
  by (cases s) (auto simp: root_text_ok_def replace_char_def)

lemma good_spellings:
  assumes "valid_mappings ms" "x \<in> set (root_spellings json_escaped to_str ms)"
    and "\<forall>m \<in> set ms. \<forall>s. to_str (root m) = Some s \<longrightarrow> root_text_ok s \<and> root_text_ok (json_escaped (trim_separators s))"
  shows "\<exists>m \<in> set ms. \<exists>k \<in> set spelling_kinds. snd x = spelling_placeholder m k" "good_pair x"
proof -
  obtain m s k where m: "m \<in> set ms" "to_str (root m) = Some s" "trim_separators s \<noteq> []" "k \<in> set spelling_kinds"
    "x = (spelling json_escaped (trim_separators s) k, spelling_placeholder m k)"
    using assms(2) unfolding set_root_spellings by (auto elim!: spellings_of_cases)
  then show "\<exists>m \<in> set ms. \<exists>k \<in> set spelling_kinds. snd x = spelling_placeholder m k" by auto
  have "root_text_ok (trim_separators s)" "root_text_ok (json_escaped (trim_separators s))"
    using assms(3) m(1-3) root_text_ok_trim by blast+
  then have "root_text_ok (spelling json_escaped (trim_separators s) k)"
    by (auto simp: spelling_def root_text_ok_replace)
  moreover have "good_name (placeholder m @ k)"
  proof -
    have "\<forall>c \<in> set (placeholder m). placeholder_char c" using assms(1) m(1) by (auto simp: valid_mappings_def list_all_iff)
    then show ?thesis using m(4) by (auto simp: good_name_def spelling_kinds_def placeholder_char_def less_eq_char_def)
  qed
  ultimately show "good_pair x" using m(5) by (auto simp: good_pair_def root_text_ok_def spelling_placeholder_def)
qed

lemma spellings_functional:
  assumes "valid_mappings ms" "x \<in> set (root_spellings json_escaped to_str ms)" "y \<in> set (root_spellings json_escaped to_str ms)"
    and "snd y = snd x"
  shows "y = x"
proof -
  obtain m s k where m: "m \<in> set ms" "to_str (root m) = Some s" "k \<in> set spelling_kinds"
    "x = (spelling json_escaped (trim_separators s) k, spelling_placeholder m k)"
    using assms(2) unfolding set_root_spellings by (auto elim!: spellings_of_cases)
  obtain m' s' k' where m': "m' \<in> set ms" "to_str (root m') = Some s'" "k' \<in> set spelling_kinds"
    "y = (spelling json_escaped (trim_separators s') k', spelling_placeholder m' k')"
    using assms(3) unfolding set_root_spellings by (auto elim!: spellings_of_cases)
  have "list_all placeholder_char (placeholder m)" "list_all placeholder_char (placeholder m')"
    using assms(1) m(1) m'(1) by (auto simp: valid_mappings_def list_all_iff)
  from spelling_placeholder_inject [OF _ m'(3) m(3) this(2,1)] assms(4) m(4) m'(4)
  have same: "placeholder m' = placeholder m" "k' = k" by auto
  have "m' = m" using same(1) m(1) m'(1) assms(1) by (auto simp: valid_mappings_def distinct_map inj_on_def)
  with same m m' show ?thesis by simp
qed


definition nested_mappings :: "path_mapping list" where
  "nested_mappings = [\<lparr>root = parse_path ''/w'', placeholder = ''workspace''\<rparr>, \<lparr>root = parse_path ''/w/target'', placeholder = ''target''\<rparr>]"

definition nested_texts :: "path \<Rightarrow> string option" where
  "nested_texts p = (if p = parse_path ''/w'' then Some ''/w/'' else if p = parse_path ''/w/target'' then Some ''/w/target'' else None)"

lemma nested_text:
  "normalize_output_text (\<lambda>s. s) nested_texts ''/w/target/a.d: /w/x.rs /w-old/y'' nested_mappings =
     ''${target}/a.d: ${workspace}/x.rs /w-old/y''"
  by code_simp


end
