(* ===== verification/Spec2Isabelle.thy ===== *)
theory Spec2Isabelle
  imports Demand_Plan Task_Manifest Upload_Properties Gc_Dry_Run Depfile Include_Directories Cc_Prediction Output_Text
begin

text \<open>
  A verification of mr boxington (\<open>mbx\<close>), a build cache and build scheduler for Rust, C and C++.

  \<^bold>\<open>The program.\<close> Shims stand in for compilers. A shim asks the \<^emph>\<open>scheduler\<close> for permits before it
  compiles, so that the builds of one machine share its cores and its memory; it computes an
  \<^emph>\<open>action key\<close> from what the compile depends on and asks the \<^emph>\<open>agent\<close> for a result under that
  key; and it restores or publishes the outputs. The agent keeps a \<^emph>\<open>local store\<close> of blobs and result
  records, remembers \<^emph>\<open>predictions\<close> of what a task will need, and hands what it stored to a background
  \<^emph>\<open>upload queue\<close>. A \<^emph>\<open>collection\<close> keeps the store within a size.

  \<^bold>\<open>Shared theories.\<close>
  \<^item> \<open>Mbx_Prelude\<close>: unsigned 64-bit arithmetic as natural numbers with the bound written out, lists, options,
    and the locales \<open>guarded_steps\<close> and \<open>layered_steps\<close>, the contract between a step relation and its
    invariants. The ledger, the pool, the pack stream and the upload queue are instances.
  \<^item> \<open>Ordered_Map\<close>: \<open>BTreeMap\<close> as a sorted association list, the locale \<open>ordered_map\<close> and its instance.
  \<^item> \<open>Text\<close>, \<open>Bytes\<close>, \<open>Paths\<close>: strings, integers as bytes, and the components of paths.

  \<^bold>\<open>The scheduler\<close> (\<open>src/crates/mbx/src/scheduler.rs\<close>, \<open>pressure.rs\<close>, \<open>scheduler_memory.rs\<close>).
  \<^item> \<open>Safe_Passing\<close>: the bitset of subset sums (\<open>add_subset_weight\<close>, \<open>pass_quantized\<close>) at words of 64 bits.
    It is shown equal to the set of sums of sublists, so passing never delays the older waiter, and with
    a unit of one it passes whenever that is safe.
  \<^item> \<open>Admission\<close>: the decision over budgets, domains and queue order. Grants stay within every budget, an
    older waiter is overtaken only with an exception, and an idle pool admits the head of its queue.
  \<^item> \<open>Pressure\<close>: \<open>State::update\<close> and \<open>sample\<close>, when the gate closes and when it opens.
  \<^item> \<open>Pool\<close>: the directory of lease and waiter files, one admission attempt, and the step relation
    \<open>pool_step\<close> of many processes that attempt, finish, leave and die. No reachable state is
    oversubscribed.
  \<^item> \<open>Ledger\<close>, \<open>Memory_Statistics\<close>, \<open>Demand_Plan\<close>: what is learnt about memory, the charges computed from it,
    and the demands built from compiler flags. The ledger stays bounded, a prediction covers its
    window, a plan never asks for less than it should. The statistics are over the reals in place of \<open>f64\<close>.
  \<^item> \<open>Test_History\<close>: the binary file of test measurements, byte for byte, with its round trip.

  \<^bold>\<open>The cache\<close> (\<open>src/crates/mbx-cache-protocol\<close>, \<open>mbx-cache-core\<close>, \<open>mbx-cache-store\<close>).
  \<^item> \<open>Protocol\<close>: digests and records with their validation. \<open>Task_Manifest\<close>: the bounded list of predictions
    (\<open>agent/manifest.rs\<close>) and the merge of two of them.
  \<^item> \<open>Blob_Pack\<close>: the framing of blobs (\<open>remote_http.rs\<close>) as the upload stream's steps and as a decoder. What is sent
    decodes to what was given, and what decodes was asked for and matches its digests.
  \<^item> \<open>Upload_Queue\<close>, \<open>Upload_Invariant\<close>, \<open>Upload_Properties\<close> (\<open>uploads.rs\<close>): connections, tickets, the worker with its
    batches and packs, and the step relation \<open>system_step\<close> that interleaves them. Results follow their
    blobs, the drain ends and settles what was queued, no digest is uploaded twice.
  \<^item> \<open>Local_Store\<close>, \<open>Store_Properties\<close> (\<open>local.rs\<close>): blobs and result records with interference of other
    processes. The store refines a map of verified objects; the answer to a publication is true.
  \<^item> \<open>Store_Gc\<close>, \<open>Gc_Sweep\<close>, \<open>Gc_Eviction\<close>, \<open>Gc_Results\<close>, \<open>Gc_Dry_Run\<close> (\<open>mbx-cache-store/src/lib.rs\<close>, \<open>events.rs\<close>): the whole of
    \<open>gc_with_mode\<close>. Eviction follows its order and stops in time, no result is left with a part missing,
    and a dry run counts what the real run removes.

  \<^bold>\<open>The C and C++ adapter\<close> (\<open>src/crates/mbx-cache-cc\<close>, \<open>mbx-cache-core/src/path_mapping.rs\<close>, and parts of
  \<open>mbx/src/cc.rs\<close> and \<open>materialize.rs\<close>).
  \<^item> \<open>Depfile\<close>: make rules, read and written. \<open>Include_Manifest\<close>, \<open>Include_Directories\<close>: the scan for
    assembler directives, the manifests of include directories, and the check that none changed.
  \<^item> \<open>Path_Mapping\<close>: links resolved through a memo of directories, roots replaced by placeholders, and back. The memo
    changes no answer.
  \<^item> \<open>Cc_Action\<close>: the descriptor under a key. Two compiles share a key exactly if all it stands for agrees.
  \<^item> \<open>Cc_Prediction\<close>: the texts recorded after a compile rebuild its key before the next one.
  \<^item> \<open>Output_Text\<close>: roots in text outputs are replaced and put back without a change to the text.

  \<^bold>\<open>State and effects.\<close> A file on disk is an entry of a list or map in a record; what the operating system,
  the clock, a lock or a server answers is an argument. A handler is a function from state to result and
  state; where processes or tasks interleave, handlers are the steps of an inductive relation, and its
  properties hold in every reachable state. Errors are values of sums and options. The hash functions,
  JSON, UTF-8 and the host's file system are arguments; what is needed of them is a named hypothesis
  (\<open>host_laws\<close>, \<open>file_system\<close>, digests that do not collide, canonical JSON that parses back), with a
  concrete instance in the witness.

  \<^bold>\<open>Bounds.\<close> Every recursion is structural or has a termination proof, with two exceptions that follow the
  code: the search through an output tree (\<open>tree_is_complete\<close>) has fuel, and enough of it always
  decides since content addressing rules out cycles; and a publication gives up after the eight attempts of
  \<open>store_inner\<close>. The drain of the upload queue is shown to end by a measure on its steps. The limits of the
  code (1024 ledger entries, windows of sixteen, 16384 predicted inputs, pack sizes) are constants
  with the source's names.

  \<^bold>\<open>Not modelled.\<close> The rustc and Cargo adapters and the shims that drive them; parsing of C and C++ command
  lines; the agent's socket, prefetcher and digest cache; the transports of the remote cache; sessions,
  supervision, linkers, target directories and the copying of outputs; configuration, logs, reports and the
  command line. They are operating-system and network code, or a second adapter of the same
  shape as the one modelled. The sleeping and notices around an admission attempt, traces and
  logs are left out of the parts that are modelled: they change no decision.
\<close>

end
